theory Spec2Isabelle
  imports Complex_Main
begin

unbundle bit_operations_syntax

section \<open>Errors and C arithmetic\<close>

text \<open>
  The ways in which an operation of the program can fail to return normally.
  \<open>Exit n\<close> is a call of \<open>exit(n)\<close>.  \<open>NullPointer\<close>, \<open>OutOfBounds\<close> and
  \<open>DivisionByZero\<close> are undefined behaviour of the C program that the model makes
  visible instead of hiding it.  \<open>Diverges\<close> is a call that never returns.
\<close>

datatype error =
    Exit int
  | NullPointer
  | OutOfBounds
  | DivisionByZero
  | Diverges

text \<open>
  Conversion of a value to the 32-bit \<open>int\<close> (two's complement wrap-around).  The
  counters of the program are \<open>int\<close>; an increment is \<open>to_int32 (x + 1)\<close>, which is
  \<open>x + 1\<close> below \<open>INT_MAX\<close> and wraps to \<open>INT_MIN\<close> at \<open>INT_MAX\<close>, as the
  increment does on a two's complement machine.
\<close>

definition to_int32 :: "int \<Rightarrow> int" where
  "to_int32 x = (x + 2 ^ 31) mod 2 ^ 32 - 2 ^ 31"

text \<open>Conversion of a value to \<open>unsigned int\<close>.\<close>

definition to_uint32 :: "int \<Rightarrow> int" where
  "to_uint32 x = x mod 2 ^ 32"

text \<open>Conversion of a value to \<open>int64_t\<close>; a sum of two \<open>int64_t\<close> is \<open>to_int64 (a + b)\<close>.\<close>

definition to_int64 :: "int \<Rightarrow> int" where
  "to_int64 x = (x + 2 ^ 63) mod 2 ^ 64 - 2 ^ 63"

text \<open>C division truncates towards zero, and the remainder has the sign of the dividend.\<close>

definition c_div :: "int \<Rightarrow> int \<Rightarrow> int" where
  "c_div a b = sgn a * sgn b * (\<bar>a\<bar> div \<bar>b\<bar>)"

definition c_rem :: "int \<Rightarrow> int \<Rightarrow> int" where
  "c_rem a b = a - b * c_div a b"

section \<open>Single-precision arithmetic\<close>

text \<open>
  \<open>backoff\<close> is a \<open>float\<close>, and \<open>h->timeout *= backoff\<close> converts the \<open>int64_t\<close> to
  \<open>float\<close>, multiplies in \<open>float\<close> and converts the product back to \<open>int64_t\<close>.
  The model is IEEE 754 binary32 with rounding to nearest, ties to even, and the
  product rounded to \<open>float\<close> (as on x86-64 and AArch64).  A finite \<open>float\<close> is kept as
  a pair \<open>(m, e)\<close> that stands for \<open>m * 2 ^ e\<close>.  The exponent range is not modelled:
  the values at hand are timeouts in nanoseconds and factors between the bounds that
  \<open>main\<close> checks, far from overflow and from the subnormal numbers.
\<close>

type_synonym float32 = "int \<times> int"

text \<open>The number of binary digits of a natural number.\<close>

function bit_length :: "nat \<Rightarrow> nat" where
  "bit_length n = (if n = 0 then 0 else Suc (bit_length (n div 2)))"
  by pat_completeness auto
termination
  by (relation "measure (\<lambda>n. n)") auto

declare bit_length.simps [simp del]

text \<open>\<open>m * 2 ^ e\<close> rounded to a significand of 24 binary digits.\<close>

definition float_round :: "int \<Rightarrow> int \<Rightarrow> float32" where
  "float_round m e =
     (let n = nat \<bar>m\<bar> in
      if bit_length n \<le> 24 then (m, e)
      else
        let k = bit_length n - 24;
            q = n div 2 ^ k;
            r = n mod 2 ^ k;
            q' = (if 2 * r > 2 ^ k \<or> (2 * r = 2 ^ k \<and> odd q) then q + 1 else q)
        in (sgn m * int q', e + int k))"

text \<open>The conversions between \<open>int64_t\<close> and \<open>float\<close>, and the product of two \<open>float\<close>s.\<close>

definition float_of_int64 :: "int \<Rightarrow> float32" where
  "float_of_int64 x = float_round x 0"

definition int64_of_float :: "float32 \<Rightarrow> int" where
  "int64_of_float x =
     (case x of (m, e) \<Rightarrow> if 0 \<le> e then m * 2 ^ nat e else c_div m (2 ^ nat (- e)))"

definition float_mult :: "float32 \<Rightarrow> float32 \<Rightarrow> float32" where
  "float_mult x y = (case x of (m1, e1) \<Rightarrow> case y of (m2, e2) \<Rightarrow> float_round (m1 * m2) (e1 + e2))"

text \<open>The new value of \<open>t\<close> after \<open>t *= b\<close> for an \<open>int64_t t\<close> and a \<open>float b\<close>.\<close>

definition backoff_mul :: "float32 \<Rightarrow> int \<Rightarrow> int" where
  "backoff_mul b t = int64_of_float (float_mult (float_of_int64 t) b)"

text \<open>
  The backoff rule in the words of the specification, for comparison: the timeout
  times the \<open>k\<close>-th power of the factor, as a real number.
\<close>

definition float_value :: "float32 \<Rightarrow> real" where
  "float_value x =
     (case x of (m, e) \<Rightarrow>
        if 0 \<le> e then real_of_int m * 2 ^ nat e else real_of_int m / 2 ^ nat (- e))"

definition spec_backoff_timeout :: "int \<Rightarrow> float32 \<Rightarrow> nat \<Rightarrow> real" where
  "spec_backoff_timeout t b k = real_of_int t * float_value b ^ k"

section \<open>Startup: the number of event slots per host\<close>

text \<open>
  \<open>main\<close>, "calculate how many ping can be in-flight per host".  The arguments are
  \<open>count_flag\<close>, \<open>loop_flag\<close>, \<open>count\<close> (unsigned), \<open>timeout\<close> and
  \<open>perhost_interval\<close> (nanoseconds, \<open>int64_t\<close>); the result is the value stored
  in the \<open>int\<close> variable \<open>event_storage_count\<close>.
\<close>

definition main_event_storage_count :: "bool \<Rightarrow> bool \<Rightarrow> nat \<Rightarrow> int \<Rightarrow> int \<Rightarrow> error + int" where
  "main_event_storage_count count_flag loop_flag count timeout perhost_interval =
     (if count_flag then Inr (to_int32 (int count))
      else if loop_flag then
        (if perhost_interval > timeout then Inr 1
         else if perhost_interval = 0 then Inl DivisionByZero
         else Inr (to_int32 (1 + c_div timeout perhost_interval)))
      else Inr 1)"

text \<open>The sizing rule in the words of the specification, for comparison.\<close>

definition spec_event_storage_count :: "bool \<Rightarrow> bool \<Rightarrow> nat \<Rightarrow> int \<Rightarrow> int \<Rightarrow> int" where
  "spec_event_storage_count count_flag loop_flag count timeout perhost_interval =
     (if count_flag then int count
      else if loop_flag then max 1 (\<lceil>real_of_int timeout / real_of_int perhost_interval\<rceil> + 1)
      else 1)"

section \<open>Target generation from a CIDR prefix\<close>

text \<open>
  \<open>unsigned long\<close> is taken to be 64 bits wide (LP64); values are natural numbers and
  the wrap-around of every operation is written out.  An address is the number
  obtained from its four octets in host byte order.  The result of a generator is
  the list of addresses handed to \<open>add_name\<close>, in order, or the call of \<open>exit\<close>
  that ends the program; \<open>None\<close> stands for a loop that does not return.
\<close>

definition MAX_GENERATE :: nat where
  "MAX_GENERATE = 131072"

text \<open>The loop \<open>for (; start_long <= end_long; start_long++)\<close> of \<open>add_addr_range_ipv4\<close>.\<close>

partial_function (option) add_addr_range_loop :: "nat \<Rightarrow> nat \<Rightarrow> nat list \<Rightarrow> nat list option" where
  "add_addr_range_loop start_long end_long names =
     (if start_long \<le> end_long
      then add_addr_range_loop ((start_long + 1) mod 2 ^ 64) end_long (names @ [start_long])
      else Some names)"

definition add_addr_range_ipv4 :: "nat \<Rightarrow> nat \<Rightarrow> (error + nat list) option" where
  "add_addr_range_ipv4 start_long end_long =
     (if end_long \<ge> (start_long + MAX_GENERATE) mod 2 ^ 64 then Some (Inl (Exit 1))
      else map_option Inr (add_addr_range_loop start_long end_long []))"

definition add_cidr_ipv4 :: "nat \<Rightarrow> nat \<Rightarrow> (error + nat list) option" where
  "add_cidr_ipv4 net_addr maskv =
     (if maskv < 1 \<or> maskv > 32 then Some (Inl (Exit 1))
      else
        let bitmask = (0xFFFFFFFF * 2 ^ (32 - maskv)) mod 2 ^ 64;
            net_addr = net_addr AND bitmask;
            net_last = (net_addr + 2 ^ (32 - maskv) mod 2 ^ 64 + (2 ^ 64 - 1)) mod 2 ^ 64
        in if maskv < 31
           then add_addr_range_ipv4 ((net_addr + 1) mod 2 ^ 64) ((net_last + (2 ^ 64 - 1)) mod 2 ^ 64)
           else add_addr_range_ipv4 net_addr net_last)"

section \<open>Options\<close>

text \<open>
  The global option variables that the scheduler reads.  Times are \<open>int64_t\<close>
  nanoseconds; \<open>count\<close>, \<open>retry\<close>, \<open>min_reachable\<close> and \<open>trials\<close> are
  \<open>unsigned int\<close>, \<open>event_storage_count\<close> is an \<open>int\<close> and \<open>backoff\<close> a \<open>float\<close>.
  Clock readings and the times computed from them are integers without a bound: a
  time in nanoseconds reaches the end of \<open>int64_t\<close> after 292 years.

  \<open>seqmap_retention\<close> is the retention interval of the sequence map.
\<close>

record config =
  loop_flag :: bool
  count_flag :: bool
  backoff_flag :: bool
  report_all_rtts_flag :: bool
  check_source_flag :: bool
  cumulative_stats_flag :: bool
  netdata_flag :: bool
  fast_reachable :: bool
  timeout_flag :: bool
  count :: nat
  retry :: nat
  min_reachable :: nat
  trials :: nat
  timeout :: int
  interval :: int
  perhost_interval :: int
  report_interval :: int
  event_storage_count :: int
  backoff :: float32
  seqmap_retention :: int

text \<open>
  The constants of \<open>options.h\<close> that \<open>main\<close> uses (times in milliseconds), and the retention
  interval of the sequence map; they are parameters of the model.
\<close>

record constants =
  DEFAULT_RETRY :: nat
  DEFAULT_TIMEOUT :: int
  DEFAULT_INTERVAL :: int
  DEFAULT_PERHOST_INTERVAL :: int
  AUTOTUNE_TIMEOUT_MAX :: int
  DEFAULT_BACKOFF_FACTOR :: float32
  SEQMAP_RETENTION :: int

text \<open>
  The command-line options that set one of the variables above, with the value
  that the option's parser stores (\<open>atoi\<close> result, or nanoseconds computed from the
  parsed float).  \<open>Opt_B\<close> carries the new backoff factor and whether it is nonzero
  and within \<open>MIN_BACKOFF_FACTOR\<close> and \<open>MAX_BACKOFF_FACTOR\<close>.  \<open>Opt_Q\<close> carries the report interval and whether the
  keyword \<open>cumulative\<close> follows.  Every other option that lets the program go on is
  \<open>Opt_other\<close>: it changes none of the variables of \<open>config\<close>.
\<close>

datatype opt =
    Opt_t int
  | Opt_r nat
  | Opt_i int
  | Opt_p int
  | Opt_c int
  | Opt_C int
  | Opt_Q int bool
  | Opt_N
  | Opt_B float32 bool
  | Opt_l
  | Opt_x int
  | Opt_X int
  | Opt_check_source
  | Opt_other

text \<open>The initial values of the global variables (\<open>main\<close> sets \<open>backoff_flag\<close> before parsing).\<close>

definition initial_config :: "constants \<Rightarrow> config" where
  "initial_config k =
     \<lparr> loop_flag = False, count_flag = False, backoff_flag = True,
       report_all_rtts_flag = False, check_source_flag = False,
       cumulative_stats_flag = False, netdata_flag = False, fast_reachable = False,
       timeout_flag = False,
       count = 1, retry = DEFAULT_RETRY k, min_reachable = 0, trials = 0,
       timeout = DEFAULT_TIMEOUT k * 1000000,
       interval = DEFAULT_INTERVAL k * 1000000,
       perhost_interval = DEFAULT_PERHOST_INTERVAL k * 1000000,
       report_interval = 0, event_storage_count = 0,
       backoff = DEFAULT_BACKOFF_FACTOR k,
       seqmap_retention = SEQMAP_RETENTION k \<rparr>"

text \<open>
  One case of the \<open>switch\<close> of \<open>main\<close>.  \<open>usage(1)\<close> is \<open>exit(1)\<close>.  The validity of a
  backoff factor is checked after the loop in \<open>main\<close>; the model rejects it here, which
  yields the same exit status.
\<close>

fun main_option :: "opt \<Rightarrow> config \<Rightarrow> error + config" where
  "main_option (Opt_t v) c =
     (if v < 0 then Inl (Exit 1) else Inr (c\<lparr>timeout := v, timeout_flag := True\<rparr>))"
| "main_option (Opt_r v) c = Inr (c\<lparr>retry := v mod 2 ^ 32\<rparr>)"
| "main_option (Opt_i v) c =
     (if v < 0 then Inl (Exit 1) else Inr (c\<lparr>interval := v\<rparr>))"
| "main_option (Opt_p v) c =
     (if v < 0 then Inl (Exit 1) else Inr (c\<lparr>perhost_interval := v\<rparr>))"
| "main_option (Opt_c v) c =
     (if to_uint32 v = 0 then Inl (Exit 1)
      else Inr (c\<lparr>count := nat (to_uint32 v), count_flag := True\<rparr>))"
| "main_option (Opt_C v) c =
     (if to_uint32 v = 0 then Inl (Exit 1)
      else Inr (c\<lparr>count := nat (to_uint32 v), count_flag := True, report_all_rtts_flag := True\<rparr>))"
| "main_option (Opt_Q v cumulative) c =
     (if v < 0 then Inl (Exit 1)
      else Inr (c\<lparr>report_interval := v,
                    cumulative_stats_flag := (cumulative \<or> cumulative_stats_flag c)\<rparr>))"
| "main_option Opt_N c = Inr (c\<lparr>netdata_flag := True\<rparr>)"
| "main_option (Opt_B f ok) c =
     (if ok then Inr (c\<lparr>backoff := f\<rparr>) else Inl (Exit 1))"
| "main_option Opt_l c = Inr (c\<lparr>loop_flag := True, backoff_flag := False\<rparr>)"
| "main_option (Opt_x v) c =
     (if to_uint32 v = 0 then Inl (Exit 1)
      else Inr (c\<lparr>min_reachable := nat (to_uint32 v)\<rparr>))"
| "main_option (Opt_X v) c =
     (if to_uint32 v = 0 then Inl (Exit 1)
      else Inr (c\<lparr>min_reachable := nat (to_uint32 v), fast_reachable := True\<rparr>))"
| "main_option Opt_check_source c = Inr (c\<lparr>check_source_flag := True\<rparr>)"
| "main_option Opt_other c = Inr c"

text \<open>The option loop of \<open>main\<close>.\<close>

fun main_options :: "opt list \<Rightarrow> config \<Rightarrow> error + config" where
  "main_options [] c = Inr c"
| "main_options (x # xs) c =
     (case main_option x c of Inl e \<Rightarrow> Inl e | Inr c' \<Rightarrow> main_options xs c')"

text \<open>
  \<open>main\<close> after the option loop, as far as the variables of \<open>config\<close> go: \<open>-c\<close> and \<open>-l\<close>
  exclude each other, \<open>trials\<close> is the larger of \<open>count\<close> and \<open>retry + 1\<close> (unsigned
  arithmetic), the default timeout is tuned for count and loop mode, and the number
  of event slots is computed.
\<close>

definition main_settings :: "constants \<Rightarrow> config \<Rightarrow> error + config" where
  "main_settings k c =
     (if count_flag c \<and> loop_flag c then Inl (Exit 1)
      else
        let c1 = c\<lparr>trials := (if count c > (retry c + 1) mod 2 ^ 32 then count c
                                else (retry c + 1) mod 2 ^ 32)\<rparr>;
            c2 = (if (loop_flag c1 \<or> count_flag c1) \<and> \<not> timeout_flag c1
                  then c1\<lparr>timeout :=
                         (if perhost_interval c1 > AUTOTUNE_TIMEOUT_MAX k * 1000000
                          then AUTOTUNE_TIMEOUT_MAX k * 1000000 else perhost_interval c1)\<rparr>
                  else c1)
        in case main_event_storage_count (count_flag c2) (loop_flag c2) (count c2)
                  (timeout c2) (perhost_interval c2) of
             Inl e \<Rightarrow> Inl e
           | Inr n \<Rightarrow> Inr (c2\<lparr>event_storage_count := n\<rparr>))"

definition main_config :: "constants \<Rightarrow> opt list \<Rightarrow> error + config" where
  "main_config k opts =
     (case main_options opts (initial_config k) of
        Inl e \<Rightarrow> Inl e
      | Inr c \<Rightarrow> main_settings k c)"

section \<open>Hosts\<close>

text \<open>
  \<open>struct host_entry\<close>, without the name, the address and the event storage (see the
  event queues below).  The fields \<open>timeout\<close> and \<open>last_send_time\<close> are \<open>h_timeout\<close> and
  \<open>h_last_send_time\<close> here, since the global variables have the same names.
  \<open>resp_times\<close> is a pointer: \<open>None\<close> is the null pointer, \<open>Some r\<close> an allocated array
  with the cells \<open>r\<close>.
\<close>

record host_entry =
  h_timeout :: int
  h_last_send_time :: int
  num_sent :: int
  num_recv :: int
  num_recv_total :: int
  max_reply :: int
  min_reply :: int
  total_time :: int
  num_sent_i :: int
  num_recv_i :: int
  max_reply_i :: int
  min_reply_i :: int
  total_time_i :: int
  resp_times :: "int list option"

definition RESP_WAITING :: int where "RESP_WAITING = - 1"
definition RESP_UNUSED :: int where "RESP_UNUSED = - 2"
definition RESP_ERROR :: int where "RESP_ERROR = - 3"
definition RESP_TIMEOUT :: int where "RESP_TIMEOUT = - 4"

text \<open>The assignment \<open>h->resp_times[index] = v\<close>.\<close>

definition resp_times_store :: "host_entry \<Rightarrow> int \<Rightarrow> int \<Rightarrow> error + host_entry" where
  "resp_times_store h index v =
     (case resp_times h of
        None \<Rightarrow> Inl NullPointer
      | Some r \<Rightarrow>
          if 0 \<le> index \<and> nat index < length r
          then Inr (h\<lparr>resp_times := Some (r[nat index := v])\<rparr>)
          else Inl OutOfBounds)"

text \<open>The read \<open>h->resp_times[index]\<close>.\<close>

definition resp_times_load :: "host_entry \<Rightarrow> int \<Rightarrow> error + int" where
  "resp_times_load h index =
     (case resp_times h of
        None \<Rightarrow> Inl NullPointer
      | Some r \<Rightarrow>
          if 0 \<le> index \<and> nat index < length r then Inr (r ! nat index)
          else Inl OutOfBounds)"

text \<open>
  \<open>stats_add\<close>.  It updates the host entry and the global counter \<open>num_timeout\<close>,
  which is passed in and returned with the entry.
\<close>

definition stats_add ::
  "config \<Rightarrow> host_entry \<Rightarrow> int \<Rightarrow> bool \<Rightarrow> int \<Rightarrow> int \<Rightarrow> error + host_entry \<times> int" where
  "stats_add cfg h index success latency n_timeout =
     (let h1 = h\<lparr>num_sent := to_int32 (num_sent h + 1),
                 num_sent_i := to_int32 (num_sent_i h + 1)\<rparr> in
      if \<not> success then
        (if \<not> loop_flag cfg \<and> index \<ge> 0
         then (case resp_times_store h1 index RESP_TIMEOUT of
                 Inl e \<Rightarrow> Inl e
               | Inr h2 \<Rightarrow> Inr (h2, to_int32 (n_timeout + 1)))
         else Inr (h1, to_int32 (n_timeout + 1)))
      else
        let h2 = h1\<lparr>num_recv := to_int32 (num_recv h1 + 1),
                   num_recv_i := to_int32 (num_recv_i h1 + 1)\<rparr>;
            h3 = h2\<lparr>max_reply :=
                     (if max_reply h2 = 0 \<or> latency > max_reply h2
                      then latency else max_reply h2)\<rparr>;
            h4 = h3\<lparr>max_reply_i :=
                     (if max_reply_i h3 = 0 \<or> latency > max_reply_i h3
                      then latency else max_reply_i h3)\<rparr>;
            h5 = h4\<lparr>min_reply :=
                     (if min_reply h4 = 0 \<or> latency < min_reply h4
                      then latency else min_reply h4)\<rparr>;
            h6 = h5\<lparr>min_reply_i :=
                     (if min_reply_i h5 = 0 \<or> latency < min_reply_i h5
                      then latency else min_reply_i h5)\<rparr>;
            h7 = h6\<lparr>total_time := to_int64 (total_time h6 + latency),
                     total_time_i := to_int64 (total_time_i h6 + latency)\<rparr>
        in if \<not> loop_flag cfg \<and> index \<ge> 0
           then (case resp_times_store h7 index latency of
                   Inl e \<Rightarrow> Inl e
                 | Inr h8 \<Rightarrow> Inr (h8, n_timeout))
           else Inr (h7, n_timeout))"

definition stats_reset_interval :: "host_entry \<Rightarrow> host_entry" where
  "stats_reset_interval h =
     h\<lparr>num_sent_i := 0, num_recv_i := 0, max_reply_i := 0, min_reply_i := 0,
       total_time_i := 0\<rparr>"

section \<open>Event queues\<close>

text \<open>
  \<open>struct event\<close>.  The events of a host live in its arrays \<open>event_storage_ping\<close> and
  \<open>event_storage_timeout\<close> of \<open>event_storage_count\<close> slots each, which \<open>calloc\<close>
  fills with zeros.  A pointer to an event is the pair of the host's index in
  \<open>table\<close> and the index of the slot; \<open>None\<close> is the null pointer.  The field \<open>host\<close>
  is \<open>ev_host\<close> here and holds the index of the host.
\<close>

type_synonym ev_ref = "nat \<times> nat"

record event =
  ev_prev :: "ev_ref option"
  ev_next :: "ev_ref option"
  ev_time :: int
  ev_host :: "nat option"
  ping_index :: int

definition zero_event :: event where
  "zero_event = \<lparr>ev_prev = None, ev_next = None, ev_time = 0, ev_host = None, ping_index = 0\<rparr>"

text \<open>
  \<open>struct event_queue\<close>, together with the memory that its events live in: the arrays
  of all hosts for this kind of event, as one function from pointers to events.
\<close>

record event_queue =
  q_first :: "ev_ref option"
  q_last :: "ev_ref option"
  storage :: "ev_ref \<Rightarrow> event"

definition empty_queue :: event_queue where
  "empty_queue = \<lparr>q_first = None, q_last = None, storage = (\<lambda>_. zero_event)\<rparr>"

text \<open>
  The loop \<open>while (1)\<close> of \<open>ev_enqueue\<close>, "find insertion point", for an event with time
  \<open>t\<close>: it walks the \<open>ev_prev\<close> links from \<open>i\<close> and returns \<open>i_prev\<close> and \<open>i\<close> where it
  stops.  It does not return (\<open>None\<close>) if the links lead it round a cycle.
\<close>

partial_function (option) ev_scan ::
  "(ev_ref \<Rightarrow> event) \<Rightarrow> int \<Rightarrow> ev_ref \<Rightarrow> (ev_ref option \<times> ev_ref) option" where
  "ev_scan st t i =
     (case ev_prev (st i) of
        None \<Rightarrow> Some (None, i)
      | Some p \<Rightarrow> if t - ev_time (st p) \<ge> 0 then Some (Some p, i) else ev_scan st t p)"

text \<open>
  \<open>ev_enqueue\<close>.  The assignments are made one after the other, as in the source, so
  that the result is the source's also when the event is linked already.
\<close>

definition ev_enqueue :: "event_queue \<Rightarrow> ev_ref \<Rightarrow> event_queue option" where
  "ev_enqueue queue ev =
     (let st = storage queue in
      case q_last queue of
        None \<Rightarrow>
          Some (queue\<lparr>storage := st(ev := (st ev)\<lparr>ev_next := None, ev_prev := None\<rparr>),
                      q_first := Some ev, q_last := Some ev\<rparr>)
      | Some l \<Rightarrow>
          if ev_time (st ev) - ev_time (st l) \<ge> 0 then
            let st1 = st(ev := (st ev)\<lparr>ev_next := None, ev_prev := Some l\<rparr>);
                st2 = st1(l := (st1 l)\<lparr>ev_next := Some ev\<rparr>)
            in Some (queue\<lparr>storage := st2, q_last := Some ev\<rparr>)
          else
            (case ev_scan st (ev_time (st ev)) l of
               None \<Rightarrow> None
             | Some (i_prev, i) \<Rightarrow>
                 let st1 = st(ev := (st ev)\<lparr>ev_prev := i_prev, ev_next := Some i\<rparr>);
                     st2 = st1(i := (st1 i)\<lparr>ev_prev := Some ev\<rparr>)
                 in (case i_prev of
                       Some p \<Rightarrow> Some (queue\<lparr>storage := st2(p := (st2 p)\<lparr>ev_next := Some ev\<rparr>)\<rparr>)
                     | None \<Rightarrow> Some (queue\<lparr>storage := st2, q_first := Some ev\<rparr>))))"

text \<open>\<open>ev_remove\<close>, again one assignment after the other.\<close>

definition ev_remove :: "event_queue \<Rightarrow> ev_ref \<Rightarrow> event_queue" where
  "ev_remove queue ev =
     (let st = storage queue;
          q1 = (if q_first queue = Some ev then queue\<lparr>q_first := ev_next (st ev)\<rparr> else queue);
          q2 = (if q_last q1 = Some ev then q1\<lparr>q_last := ev_prev (st ev)\<rparr> else q1);
          st1 = (case ev_prev (st ev) of
                   Some p \<Rightarrow> st(p := (st p)\<lparr>ev_next := ev_next (st ev)\<rparr>)
                 | None \<Rightarrow> st);
          st2 = (case ev_next (st1 ev) of
                   Some x \<Rightarrow> st1(x := (st1 x)\<lparr>ev_prev := ev_prev (st1 ev)\<rparr>)
                 | None \<Rightarrow> st1)
      in q2\<lparr>storage := st2(ev := (st2 ev)\<lparr>ev_prev := None, ev_next := None\<rparr>)\<rparr>)"

text \<open>\<open>ev_dequeue\<close>: the pointer to the dequeued event, and the queue.\<close>

definition ev_dequeue :: "event_queue \<Rightarrow> (ev_ref \<times> event_queue) option" where
  "ev_dequeue queue =
     (case q_first queue of None \<Rightarrow> None | Some ev \<Rightarrow> Some (ev, ev_remove queue ev))"

text \<open>
  The pointer \<open>&h->event_storage_...[index % event_storage_count]\<close> for the host with
  index \<open>n\<close>.  The remainder is C's; there is no slot if it is negative, and none at
  all if \<open>event_storage_count\<close> is negative.
\<close>

definition event_slot :: "config \<Rightarrow> nat \<Rightarrow> int \<Rightarrow> error + ev_ref" where
  "event_slot cfg n index =
     (if event_storage_count cfg = 0 then Inl DivisionByZero
      else if event_storage_count cfg < 0 \<or> c_rem index (event_storage_count cfg) < 0
      then Inl OutOfBounds
      else Inr (n, nat (c_rem index (event_storage_count cfg))))"

text \<open>
  \<open>host_add_ping_event\<close> and \<open>host_add_timeout_event\<close>, on the queue they enqueue to:
  the slot is written, whether it is linked or not, and enqueued.
\<close>

definition host_add_event ::
  "config \<Rightarrow> nat \<Rightarrow> int \<Rightarrow> int \<Rightarrow> event_queue \<Rightarrow> error + event_queue" where
  "host_add_event cfg n index t queue =
     (case event_slot cfg n index of
        Inl e \<Rightarrow> Inl e
      | Inr ev \<Rightarrow>
          let st = storage queue;
              q1 = queue\<lparr>storage := st(ev := (st ev)\<lparr>ev_host := Some n, ping_index := index,
                                                     ev_time := t\<rparr>)\<rparr>
          in (case ev_enqueue q1 ev of
                None \<Rightarrow> Inl Diverges
              | Some q2 \<Rightarrow> Inr q2))"

text \<open>\<open>ev_remove\<close> applied to the event that \<open>host_get_timeout_event\<close> returns.\<close>

definition ev_remove_slot :: "config \<Rightarrow> nat \<Rightarrow> int \<Rightarrow> event_queue \<Rightarrow> error + event_queue" where
  "ev_remove_slot cfg n index queue =
     (case event_slot cfg n index of
        Inl e \<Rightarrow> Inl e
      | Inr ev \<Rightarrow> Inr (ev_remove queue ev))"

section \<open>Sequence map\<close>

text \<open>
  Modelled from the spec: the sequence map (\<open>seqmap_init\<close>, \<open>seqmap_add\<close>,
  \<open>seqmap_fetch\<close>), whose source file is not part of the sources at hand.  It is a
  table keyed by a 16-bit counter that increments on every send.  \<open>seqmap_add\<close>
  assigns the next sequence number, stores the entry and returns the number;
  \<open>seqmap_fetch\<close> returns the entry iff it is present and not older than the retention
  interval.
\<close>

record seqmap_value =
  host_nr :: nat
  ping_count :: int
  ping_ts :: int

record seqmap_t =
  seqmap_next_id :: nat
  seqmap_map :: "nat \<Rightarrow> seqmap_value option"

definition seqmap_init :: seqmap_t where
  "seqmap_init = \<lparr>seqmap_next_id = 0, seqmap_map = (\<lambda>_. None)\<rparr>"

definition seqmap_add :: "seqmap_t \<Rightarrow> nat \<Rightarrow> int \<Rightarrow> int \<Rightarrow> nat \<times> seqmap_t" where
  "seqmap_add m host_nr_arg ping_count_arg timestamp =
     (seqmap_next_id m,
      m\<lparr>seqmap_map := (seqmap_map m)(seqmap_next_id m \<mapsto>
            \<lparr>host_nr = host_nr_arg, ping_count = ping_count_arg, ping_ts = timestamp\<rparr>),
        seqmap_next_id := (seqmap_next_id m + 1) mod 2 ^ 16\<rparr>)"

definition seqmap_fetch :: "config \<Rightarrow> seqmap_t \<Rightarrow> nat \<Rightarrow> int \<Rightarrow> seqmap_value option" where
  "seqmap_fetch cfg m seq now =
     (case seqmap_map m seq of
        None \<Rightarrow> None
      | Some v \<Rightarrow> if now - ping_ts v > seqmap_retention cfg then None else Some v)"

section \<open>Program state\<close>

text \<open>
  What the environment decides about a call of \<open>send_ping\<close>: no socket for the host's
  address family (\<open>send_ping\<close> returns before sending), a failed send (\<open>n < 0\<close> with an
  \<open>errno\<close> other than \<open>EHOSTDOWN\<close>), or anything else.
\<close>

datatype send_result = No_socket | Send_failed | Send_ok

text \<open>
  The history of a run is not a variable of the program.  It records, latest first,
  the calls of \<open>send_ping\<close> (who called, host, ping index, sequence number, timestamp,
  result), the timeout events handled (host, ping index) and the replies matched
  through the sequence map (host, ping index, sequence number, round-trip time,
  what became of the reply), so that properties of runs can be stated.
\<close>

datatype origin = Ping_event | Retry

datatype verdict = Wrong_source | Duplicate | Late | Accepted

datatype action =
    Send origin nat int nat int send_result
  | Timed_out nat int
  | Reply nat int nat int verdict

text \<open>
  The global variables.  The global statistics \<open>max_reply\<close> and \<open>min_reply\<close> are
  \<open>max_reply_g\<close> and \<open>min_reply_g\<close> here.  \<open>total_replies\<close> and \<open>sum_replies\<close> are
  \<open>int64_t\<close>, the other counters \<open>int\<close>.
\<close>

record state =
  table :: "host_entry list"
  num_hosts :: int
  num_alive :: int
  num_unreachable :: int
  num_noaddress :: int
  num_timeout :: int
  num_pingsent :: int
  num_pingreceived :: int
  max_reply_g :: int
  min_reply_g :: int
  total_replies :: int
  sum_replies :: int
  current_time_ns :: int
  start_time :: int
  last_send_time :: int
  next_report_time :: int
  finish_requested :: bool
  event_queue_ping :: event_queue
  event_queue_timeout :: event_queue
  seqmap :: seqmap_t
  history :: "action list"

section \<open>Adding targets\<close>

text \<open>
  What \<open>malloc\<close> returns for the array of response times: the null pointer, or a
  block whose cells hold whatever the memory held before (\<open>malloc\<close> does not
  initialise it); the function gives the content of each cell.
\<close>

datatype allocation = Alloc_failed | Allocated "nat \<Rightarrow> int"

text \<open>The loop \<open>for (n = 1; n < trials; n++) i[n] = RESP_UNUSED\<close> of \<open>add_addr\<close>.\<close>

function add_addr_fill :: "nat \<Rightarrow> nat \<Rightarrow> int list \<Rightarrow> int list" where
  "add_addr_fill n trials_arg i =
     (if n < trials_arg then add_addr_fill (n + 1) trials_arg (i[n := RESP_UNUSED]) else i)"
  by pat_completeness auto
termination
  by (relation "measure (\<lambda>(n, trials_arg, i). trials_arg - n)") auto

declare add_addr_fill.simps [simp del]

text \<open>
  \<open>add_addr\<close>.  The entry comes from \<open>calloc\<close>, so every field starts as zero and
  \<open>resp_times\<close> as the null pointer.  The new host gets the next index of the table:
  \<open>main\<close> fills \<open>table\<close> from the ping queue, which holds the first ping events of
  all hosts in the order of their addition.  The allocations by \<open>calloc\<close> are taken
  to succeed.
\<close>

definition add_addr :: "config \<Rightarrow> allocation \<Rightarrow> state \<Rightarrow> error + state" where
  "add_addr cfg a s =
     (case (if \<not> loop_flag cfg
            then (case a of
                    Alloc_failed \<Rightarrow> Inl (Exit 4)
                  | Allocated junk \<Rightarrow>
                      Inr (Some (add_addr_fill 1 (trials cfg) (map junk [0 ..< trials cfg]))))
            else Inr None) of
        Inl e \<Rightarrow> Inl e
      | Inr r \<Rightarrow>
          let p = \<lparr> h_timeout = timeout cfg, h_last_send_time = 0,
                    num_sent = 0, num_recv = 0, num_recv_total = 0,
                    max_reply = 0, min_reply = 0, total_time = 0,
                    num_sent_i = 0, num_recv_i = 0,
                    max_reply_i = 0, min_reply_i = 0, total_time_i = 0,
                    resp_times = r \<rparr>
          in case host_add_event cfg (length (table s)) 0 (current_time_ns s)
                    (event_queue_ping s) of
               Inl e \<Rightarrow> Inl e
             | Inr q \<Rightarrow>
                 Inr (s\<lparr>table := table s @ [p], event_queue_ping := q,
                       num_hosts := to_int32 (num_hosts s + 1)\<rparr>))"

text \<open>
  \<open>add_name\<close>.  Name resolution is the environment's: either \<open>getaddrinfo\<close> fails, or
  \<open>add_addr\<close> is called for some of the addresses found (one call, several with
  \<open>-m\<close>, none if the address cannot be printed); each call comes with what its
  \<open>malloc\<close> returns.
\<close>

datatype resolution = No_address | Addresses "allocation list"

fun add_addrs :: "config \<Rightarrow> allocation list \<Rightarrow> state \<Rightarrow> error + state" where
  "add_addrs cfg [] s = Inr s"
| "add_addrs cfg (a # as) s =
     (case add_addr cfg a s of Inl e \<Rightarrow> Inl e | Inr s' \<Rightarrow> add_addrs cfg as s')"

definition add_name :: "config \<Rightarrow> resolution \<Rightarrow> state \<Rightarrow> error + state" where
  "add_name cfg r s =
     (case r of
        No_address \<Rightarrow> Inr (s\<lparr>num_noaddress := to_int32 (num_noaddress s + 1)\<rparr>)
      | Addresses as \<Rightarrow> add_addrs cfg as s)"

fun add_names :: "config \<Rightarrow> resolution list \<Rightarrow> state \<Rightarrow> error + state" where
  "add_names cfg [] s = Inr s"
| "add_names cfg (r # rs) s =
     (case add_name cfg r s of Inl e \<Rightarrow> Inl e | Inr s' \<Rightarrow> add_names cfg rs s')"

text \<open>The globals when \<open>main\<close> has read the clock (\<open>start_time\<close>) and before it adds targets.\<close>

definition initial_state :: "int \<Rightarrow> state" where
  "initial_state clock =
     \<lparr> table = [], num_hosts = 0, num_alive = 0, num_unreachable = 0, num_noaddress = 0,
       num_timeout = 0, num_pingsent = 0, num_pingreceived = 0,
       max_reply_g = 0, min_reply_g = 0, total_replies = 0, sum_replies = 0,
       current_time_ns = clock, start_time = clock, last_send_time = 0,
       next_report_time = 0, finish_requested = False,
       event_queue_ping = empty_queue, event_queue_timeout = empty_queue,
       seqmap = seqmap_init, history = [] \<rparr>"

text \<open>\<open>main\<close> from the reading of the clock to the call of \<open>main_loop\<close>.\<close>

definition main_startup :: "config \<Rightarrow> int \<Rightarrow> resolution list \<Rightarrow> error + state" where
  "main_startup cfg clock targets =
     (case add_names cfg targets (initial_state clock) of
        Inl e \<Rightarrow> Inl e
      | Inr s \<Rightarrow>
          if num_hosts s = 0 then Inl (Exit (if num_noaddress s \<noteq> 0 then 2 else 1))
          else Inr (s\<lparr>next_report_time :=
                         (if report_interval cfg \<noteq> 0
                          then current_time_ns s + report_interval cfg
                          else next_report_time s),
                       last_send_time := 0,
                       seqmap := seqmap_init\<rparr>))"

section \<open>Sending\<close>

text \<open>
  \<open>send_ping\<close> for the host with index \<open>n\<close>.  \<open>clock\<close> is the time that
  \<open>update_current_time\<close> reads and \<open>res\<close> the outcome of the socket call, both given
  by the environment; \<open>org\<close> tells the history who called.  The value that
  \<open>send_ping\<close> returns is dropped: no caller uses it.
\<close>

definition send_ping ::
  "config \<Rightarrow> origin \<Rightarrow> int \<Rightarrow> send_result \<Rightarrow> nat \<Rightarrow> int \<Rightarrow> state \<Rightarrow> error + state" where
  "send_ping cfg org clock res n index s =
     (if n \<ge> length (table s) then Inl OutOfBounds
      else
        let h = (table s ! n)\<lparr>h_last_send_time := clock\<rparr>;
            (myseq, m) = seqmap_add (seqmap s) n index clock;
            s1 = s\<lparr>current_time_ns := clock, seqmap := m,
                   history := Send org n index myseq clock res # history s\<rparr>
        in case res of
             No_socket \<Rightarrow> Inr (s1\<lparr>table := (table s)[n := h]\<rparr>)
           | Send_failed \<Rightarrow>
               let h1 = h\<lparr>num_sent := to_int32 (num_sent h + 1),
                          num_sent_i := to_int32 (num_sent_i h + 1)\<rparr> in
               (case (if \<not> loop_flag cfg then resp_times_store h1 index RESP_ERROR
                      else Inr h1) of
                  Inl e \<Rightarrow> Inl e
                | Inr h2 \<Rightarrow>
                    Inr (s1\<lparr>table := (table s)[n := h2],
                           num_pingsent := to_int32 (num_pingsent s + 1),
                           last_send_time := clock\<rparr>))
           | Send_ok \<Rightarrow>
               (case host_add_event cfg n index (clock + h_timeout h)
                       (event_queue_timeout s) of
                  Inl e \<Rightarrow> Inl e
                | Inr q \<Rightarrow>
                    (case (if \<not> loop_flag cfg then resp_times_store h index RESP_WAITING
                           else Inr h) of
                       Inl e \<Rightarrow> Inl e
                     | Inr h2 \<Rightarrow>
                         Inr (s1\<lparr>table := (table s)[n := h2],
                                event_queue_timeout := q,
                                num_pingsent := to_int32 (num_pingsent s + 1),
                                last_send_time := clock\<rparr>))))"

section \<open>Receiving\<close>

text \<open>
  A packet that \<open>receive_packet\<close> returns: the time that \<open>update_current_time\<close> reads
  after it, the kernel's receive timestamp (0 if there is none), and what
  \<open>decode_icmp_ipv4\<close> or \<open>decode_icmp_ipv6\<close> and the comparison of the identifier make
  of it: \<open>None\<close> when \<open>wait_for_reply\<close> returns before it looks up the sequence map,
  otherwise the sequence number and whether the source address differs from the
  target's (\<open>addr_cmp\<close>).  Output and the counter of other ICMP messages are left out.
\<close>

record packet =
  pkt_clock :: int
  pkt_recv_time :: int
  pkt_decoded :: "(nat \<times> bool) option"

text \<open>
  The part of \<open>wait_for_reply\<close> that decides what becomes of a reply matched to
  ping \<open>this_count\<close> of host \<open>h\<close>: the three places where the function returns
  without crediting the reply (wrong source, duplicate, late), or none of them.
\<close>

definition reply_verdict :: "config \<Rightarrow> host_entry \<Rightarrow> int \<Rightarrow> int \<Rightarrow> bool \<Rightarrow> error + verdict" where
  "reply_verdict cfg h this_count this_reply src_differs =
     (if check_source_flag cfg \<and> src_differs then Inr Wrong_source
      else
        (case (if loop_flag cfg then Inr False
               else (case resp_times_load h this_count of
                       Inl e \<Rightarrow> Inl e
                     | Inr r \<Rightarrow> Inr (r \<ge> 0))) of
           Inl e \<Rightarrow> Inl e
         | Inr dup \<Rightarrow>
             if dup then Inr Duplicate
             else if this_reply > h_timeout h then Inr Late
             else Inr Accepted))"

text \<open>
  The rest of \<open>wait_for_reply\<close>, from "update stats" on, for an accepted reply to ping
  \<open>this_count\<close> of the host with index \<open>n\<close>.
\<close>

definition accept_reply :: "config \<Rightarrow> nat \<Rightarrow> int \<Rightarrow> int \<Rightarrow> state \<Rightarrow> error + state" where
  "accept_reply cfg n this_count this_reply s =
     (case stats_add cfg (table s ! n) this_count True this_reply (num_timeout s) of
        Inl e \<Rightarrow> Inl e
      | Inr (h1, nt) \<Rightarrow>
          (case ev_remove_slot cfg n this_count (event_queue_timeout s) of
             Inl e \<Rightarrow> Inl e
           | Inr q \<Rightarrow>
               let h2 = h1\<lparr>h_timeout := timeout cfg\<rparr>;
                   s1 = s\<lparr>table := (table s)[n := h2],
                          num_timeout := nt,
                          max_reply_g :=
                            (if max_reply_g s = 0 \<or> this_reply > max_reply_g s
                             then this_reply else max_reply_g s),
                          min_reply_g :=
                            (if min_reply_g s = 0 \<or> this_reply < min_reply_g s
                             then this_reply else min_reply_g s),
                          sum_replies := to_int64 (sum_replies s + this_reply),
                          total_replies := to_int64 (total_replies s + 1),
                          event_queue_timeout := q\<rparr>
               in if num_recv h2 = 1
                  then
                    let s2 = s1\<lparr>num_alive := to_int32 (num_alive s1 + 1)\<rparr> in
                    Inr (if fast_reachable cfg \<and>
                            to_uint32 (num_alive s2) \<ge> int (min_reachable cfg)
                         then s2\<lparr>finish_requested := True\<rparr> else s2)
                  else Inr s1))"

text \<open>\<open>wait_for_reply\<close> when \<open>receive_packet\<close> has returned a packet.\<close>

definition wait_for_reply :: "config \<Rightarrow> packet \<Rightarrow> state \<Rightarrow> error + state" where
  "wait_for_reply cfg pkt s =
     (let s1 = s\<lparr>current_time_ns := pkt_clock pkt\<rparr>;
          recv_time = (if pkt_recv_time pkt = 0 then pkt_clock pkt else pkt_recv_time pkt)
      in case pkt_decoded pkt of
           None \<Rightarrow> Inr s1
         | Some (seq, src_differs) \<Rightarrow>
             (case seqmap_fetch cfg (seqmap s1) seq (current_time_ns s1) of
                None \<Rightarrow> Inr s1
              | Some v \<Rightarrow>
                  let n = host_nr v;
                      this_count = ping_count v;
                      this_reply = recv_time - ping_ts v
                  in if n \<ge> length (table s1) then Inl OutOfBounds
                     else
                       let h = (table s1 ! n)\<lparr>num_recv_total :=
                                                to_int32 (num_recv_total (table s1 ! n) + 1)\<rparr>;
                           s2 = s1\<lparr>table := (table s1)[n := h],
                                  num_pingreceived := to_int32 (num_pingreceived s1 + 1)\<rparr>
                       in case reply_verdict cfg h this_count this_reply src_differs of
                            Inl e \<Rightarrow> Inl e
                          | Inr vd \<Rightarrow>
                              let s3 = s2\<lparr>history :=
                                         Reply n this_count seq this_reply vd # history s2\<rparr>
                              in if vd = Accepted
                                 then accept_reply cfg n this_count this_reply s3
                                 else Inr s3))"

text \<open>The packets of one pass of the main loop: \<open>wait_for_reply\<close> until it returns 0.\<close>

fun wait_for_replies :: "config \<Rightarrow> packet list \<Rightarrow> state \<Rightarrow> error + state" where
  "wait_for_replies cfg [] s = Inr s"
| "wait_for_replies cfg (p # ps) s =
     (case wait_for_reply cfg p s of Inl e \<Rightarrow> Inl e | Inr s' \<Rightarrow> wait_for_replies cfg ps s')"

section \<open>Main loop\<close>

text \<open>
  What the environment contributes to one pass of the loop body: the clock and the
  socket's answer for a call of \<open>send_ping\<close> (if the pass makes one), whether
  \<open>SIGINT\<close> has set \<open>finish_requested\<close> by the time the loop tests it, the packets
  received, the clock read after them, whether \<open>SIGQUIT\<close> has set
  \<open>status_snapshot\<close>, and the clock read by each of the two possible calls of
  \<open>print_per_system_splits\<close>.
\<close>

record iter_input =
  in_send_clock :: int
  in_send_result :: send_result
  in_sigint :: bool
  in_packets :: "packet list"
  in_wake_clock :: int
  in_sigquit :: bool
  in_snapshot_clock :: int
  in_report_clock :: int

text \<open>
  The branch "timeout event ?" of the loop body, for the event that \<open>ev_dequeue\<close> has
  returned (its fields as they are after the call).
\<close>

definition timeout_event :: "config \<Rightarrow> iter_input \<Rightarrow> event \<Rightarrow> state \<Rightarrow> error + state" where
  "timeout_event cfg inp ev s =
     (case ev_host ev of
        None \<Rightarrow> Inl NullPointer
      | Some n \<Rightarrow>
          if n \<ge> length (table s) then Inl OutOfBounds
          else
            case stats_add cfg (table s ! n) (ping_index ev) False (- 1) (num_timeout s) of
              Inl e \<Rightarrow> Inl e
            | Inr (h1, nt) \<Rightarrow>
                let s1 = s\<lparr>table := (table s)[n := h1], num_timeout := nt,
                           history := Timed_out n (ping_index ev) # history s\<rparr>
                in if \<not> loop_flag cfg \<and> \<not> count_flag cfg
                      \<and> to_uint32 (num_sent h1) < to_uint32 (int (retry cfg) + 1)
                   then
                     let s2 = (if backoff_flag cfg
                               then s1\<lparr>table := (table s1)[n :=
                                         h1\<lparr>h_timeout := backoff_mul (backoff cfg) (h_timeout h1)\<rparr>]\<rparr>
                               else s1)
                     in send_ping cfg Retry (in_send_clock inp) (in_send_result inp) n
                          (ping_index ev) s2
                   else Inr s1)"

text \<open>
  The branch "ping event ?" of the loop body.  Nothing happens unless the first
  ping event is due; if the last send is less than \<open>interval\<close> ago the event stays in
  the queue (\<open>goto wait_for_reply\<close>).  The fields of the dequeued event are read where
  the source reads them: the host and the ping index before \<open>send_ping\<close>, the ping
  index and the time again after it.
\<close>

definition ping_event :: "config \<Rightarrow> iter_input \<Rightarrow> state \<Rightarrow> error + state" where
  "ping_event cfg inp s =
     (case q_first (event_queue_ping s) of
        None \<Rightarrow> Inr s
      | Some r \<Rightarrow>
          if ev_time (storage (event_queue_ping s) r) - current_time_ns s \<le> 0 then
            if current_time_ns s - last_send_time s < interval cfg then Inr s
            else
              let q = ev_remove (event_queue_ping s) r in
              (case ev_host (storage q r) of
                 None \<Rightarrow> Inl NullPointer
               | Some n \<Rightarrow>
                   (case send_ping cfg Ping_event (in_send_clock inp) (in_send_result inp)
                           n (ping_index (storage q r)) (s\<lparr>event_queue_ping := q\<rparr>) of
                      Inl e \<Rightarrow> Inl e
                    | Inr s1 \<Rightarrow>
                        let ev = storage (event_queue_ping s1) r in
                        if loop_flag cfg \<or>
                           (count_flag cfg \<and> to_uint32 (ping_index ev + 1) < int (count cfg))
                        then
                          (case host_add_event cfg n (to_int32 (ping_index ev + 1))
                                  (ev_time ev + perhost_interval cfg) (event_queue_ping s1) of
                             Inl e \<Rightarrow> Inl e
                           | Inr q1 \<Rightarrow> Inr (s1\<lparr>event_queue_ping := q1\<rparr>))
                        else Inr s1))
          else Inr s)"

text \<open>The value of \<open>wait_time_ns\<close> when the loop body tests it against \<open>-1\<close>.\<close>

definition next_wait_time :: "config \<Rightarrow> state \<Rightarrow> int" where
  "next_wait_time cfg s =
     (let w1 = (case q_first (event_queue_ping s) of
                  None \<Rightarrow> - 1
                | Some r \<Rightarrow>
                    let w = ev_time (storage (event_queue_ping s) r) - current_time_ns s;
                        w = (if w < 0 then 0 else w);
                        lt = current_time_ns s - last_send_time s
                    in if w < interval cfg \<and> lt < interval cfg then interval cfg - lt else w);
          w2 = (case q_first (event_queue_timeout s) of
                  None \<Rightarrow> w1
                | Some r \<Rightarrow>
                    let wt = ev_time (storage (event_queue_timeout s) r) - current_time_ns s in
                    if w1 < 0 \<or> wt < w1 then (if wt < 0 then 0 else wt) else w1);
          wr = next_report_time s - current_time_ns s
      in if report_interval cfg \<noteq> 0 \<and> (loop_flag cfg \<or> count_flag cfg) \<and> wr < w2
         then (if wr < 0 then 0 else wr) else w2)"

text \<open>A loop over the hosts \<open>table[0]\<close> to \<open>table[num_hosts - 1]\<close> that updates each entry.\<close>

definition for_hosts :: "(host_entry \<Rightarrow> host_entry) \<Rightarrow> state \<Rightarrow> state" where
  "for_hosts f s =
     s\<lparr>table := map f (take (nat (num_hosts s)) (table s)) @ drop (nat (num_hosts s)) (table s)\<rparr>"

text \<open>The state changes of \<open>print_per_system_splits\<close> and of \<open>print_netdata\<close>.\<close>

definition print_per_system_splits :: "config \<Rightarrow> int \<Rightarrow> state \<Rightarrow> state" where
  "print_per_system_splits cfg clock s =
     (let s1 = s\<lparr>current_time_ns := clock\<rparr> in
      if cumulative_stats_flag cfg then s1 else for_hosts stats_reset_interval s1)"

definition print_netdata :: "state \<Rightarrow> state" where
  "print_netdata s = for_hosts stats_reset_interval s"

text \<open>
  The loop \<open>while (current_time_ns >= next_report_time) next_report_time += report_interval\<close>.
  It is reached with a report interval other than 0, and \<open>main\<close> rejects a negative
  one; the test for a positive interval stands for that.
\<close>

function advance_next_report :: "int \<Rightarrow> int \<Rightarrow> int \<Rightarrow> int" where
  "advance_next_report ri now nrt =
     (if now \<ge> nrt \<and> 0 < ri then advance_next_report ri now (nrt + ri) else nrt)"
  by pat_completeness auto
termination
  by (relation "measure (\<lambda>(ri, now, nrt). nat (now - nrt + 1))") auto

declare advance_next_report.simps [simp del]

definition print_report :: "config \<Rightarrow> iter_input \<Rightarrow> state \<Rightarrow> state" where
  "print_report cfg inp s =
     (if report_interval cfg \<noteq> 0 \<and> (loop_flag cfg \<or> count_flag cfg)
         \<and> current_time_ns s \<ge> next_report_time s
      then
        let s1 = (if netdata_flag cfg then print_netdata s
                  else print_per_system_splits cfg (in_report_clock inp) s)
        in s1\<lparr>next_report_time :=
                advance_next_report (report_interval cfg) (current_time_ns s1) (next_report_time s1)\<rparr>
      else s)"

text \<open>
  One pass of the body of the \<open>while\<close> loop of \<open>main_loop\<close>, entered with an event in
  one of the queues.  \<open>Break\<close> is a \<open>break\<close>; \<open>Continue\<close> is the \<open>continue\<close> of the timeout
  branch or the end of the body.  The timeout branch dequeues the first timeout event
  if it is due.
\<close>

datatype loop_control = Continue | Break

definition main_loop_body :: "config \<Rightarrow> iter_input \<Rightarrow> state \<Rightarrow> error + loop_control \<times> state" where
  "main_loop_body cfg inp s =
     (case (case q_first (event_queue_timeout s) of
              None \<Rightarrow> None
            | Some r \<Rightarrow>
                if ev_time (storage (event_queue_timeout s) r) - current_time_ns s \<le> 0
                then Some r else None) of
        Some r \<Rightarrow>
          let q = ev_remove (event_queue_timeout s) r in
          (case timeout_event cfg inp (storage q r) (s\<lparr>event_queue_timeout := q\<rparr>) of
             Inl e \<Rightarrow> Inl e
           | Inr s1 \<Rightarrow> Inr (Continue, s1))
      | None \<Rightarrow>
          (case ping_event cfg inp s of
             Inl e \<Rightarrow> Inl e
           | Inr s1 \<Rightarrow>
               if next_wait_time cfg s1 = - 1 then Inr (Break, s1)
               else
                 let s2 = s1\<lparr>finish_requested := (finish_requested s1 \<or> in_sigint inp)\<rparr> in
                 if finish_requested s2 then Inr (Break, s2)
                 else
                   (case wait_for_replies cfg (in_packets inp) s2 of
                      Inl e \<Rightarrow> Inl e
                    | Inr s3 \<Rightarrow>
                        let s4 = s3\<lparr>current_time_ns := in_wake_clock inp\<rparr>;
                            s5 = (if in_sigquit inp
                                  then print_per_system_splits cfg (in_snapshot_clock inp) s4
                                  else s4)
                        in Inr (Continue, print_report cfg inp s5))))"

text \<open>
  \<open>main_loop\<close>, run on the inputs of its passes.  The result says whether the loop
  has been left (\<open>True\<close>) or is still running when the inputs end.
\<close>

fun main_loop :: "config \<Rightarrow> iter_input list \<Rightarrow> state \<Rightarrow> error + bool \<times> state" where
  "main_loop cfg [] s =
     Inr (q_first (event_queue_ping s) = None \<and> q_first (event_queue_timeout s) = None, s)"
| "main_loop cfg (inp # inps) s =
     (if q_first (event_queue_ping s) = None \<and> q_first (event_queue_timeout s) = None
      then Inr (True, s)
      else
        (case main_loop_body cfg inp s of
           Inl e \<Rightarrow> Inl e
         | Inr (Break, s1) \<Rightarrow> Inr (True, s1)
         | Inr (Continue, s1) \<Rightarrow> main_loop cfg inps s1))"

section \<open>Finish\<close>

text \<open>
  The reads \<open>h->resp_times[j]\<close> of the report for the indices \<open>js\<close>, in order.  The
  value read is printed and nothing else.  A read through the null pointer ends the
  program; a read past the end of the array is undefined in C, finds whatever the
  memory holds there, and the report goes on.
\<close>

fun resp_times_loads :: "host_entry \<Rightarrow> int list \<Rightarrow> error + unit" where
  "resp_times_loads h [] = Inr ()"
| "resp_times_loads h (j # js) =
     (case resp_times h of None \<Rightarrow> Inl NullPointer | Some r \<Rightarrow> resp_times_loads h js)"

text \<open>
  \<open>print_per_system_stats\<close>, reduced to its reads of \<open>resp_times\<close>: with
  \<open>report_all_rtts_flag\<close> it reads the cells \<open>0\<close> to \<open>num_sent - 1\<close> of every host.
\<close>

fun print_per_system_stats :: "config \<Rightarrow> host_entry list \<Rightarrow> error + unit" where
  "print_per_system_stats cfg [] = Inr ()"
| "print_per_system_stats cfg (h # hs) =
     (case (if report_all_rtts_flag cfg
            then resp_times_loads h (map int [0 ..< nat (num_sent h)])
            else Inr ()) of
        Inl e \<Rightarrow> Inl e
      | Inr _ \<Rightarrow> print_per_system_stats cfg hs)"

text \<open>The loop "tot up unreachables" of \<open>finish\<close>, from the value of \<open>num_unreachable\<close>.\<close>

fun tot_up_unreachables :: "host_entry list \<Rightarrow> int \<Rightarrow> int" where
  "tot_up_unreachables [] u = u"
| "tot_up_unreachables (h # hs) u =
     tot_up_unreachables hs (if num_recv h = 0 then to_int32 (u + 1) else u)"

text \<open>\<open>finish\<close>: the status that the process exits with.\<close>

definition finish :: "config \<Rightarrow> state \<Rightarrow> error + int" where
  "finish cfg s =
     (let hosts = take (nat (num_hosts s)) (table s);
          unreachable = tot_up_unreachables hosts (num_unreachable s)
      in case (if count_flag cfg \<or> loop_flag cfg then print_per_system_stats cfg hosts
               else Inr ()) of
           Inl e \<Rightarrow> Inl e
         | Inr _ \<Rightarrow>
             Inr (if min_reachable cfg \<noteq> 0 then
                    (if to_uint32 (num_hosts s - unreachable) \<ge> int (min_reachable cfg)
                     then 0 else 1)
                  else if num_noaddress s \<noteq> 0 then 2
                  else if num_alive s \<noteq> num_hosts s then 1
                  else 0))"

section \<open>Properties of histories\<close>

text \<open>
  The actions of a history that count for host \<open>n\<close>: accepted replies, handled
  timeout events, failed sends, and all replies matched to the host.
\<close>

fun accepted_for :: "nat \<Rightarrow> action \<Rightarrow> bool" where
  "accepted_for n (Reply m i q rtt v) = (m = n \<and> v = Accepted)"
| "accepted_for n (Send org m i q ts res) = False"
| "accepted_for n (Timed_out m i) = False"

fun timeout_for :: "nat \<Rightarrow> action \<Rightarrow> bool" where
  "timeout_for n (Timed_out m i) = (m = n)"
| "timeout_for n (Send org m i q ts res) = False"
| "timeout_for n (Reply m i q rtt v) = False"

fun send_error_for :: "nat \<Rightarrow> action \<Rightarrow> bool" where
  "send_error_for n (Send org m i q ts res) = (m = n \<and> res = Send_failed)"
| "send_error_for n (Timed_out m i) = False"
| "send_error_for n (Reply m i q rtt v) = False"

fun reply_for :: "nat \<Rightarrow> action \<Rightarrow> bool" where
  "reply_for n (Reply m i q rtt v) = (m = n)"
| "reply_for n (Send org m i q ts res) = False"
| "reply_for n (Timed_out m i) = False"

definition accepted_replies :: "nat \<Rightarrow> action list \<Rightarrow> int" where
  "accepted_replies n hist = int (length (filter (accepted_for n) hist))"

definition timeouts_handled :: "nat \<Rightarrow> action list \<Rightarrow> int" where
  "timeouts_handled n hist = int (length (filter (timeout_for n) hist))"

definition send_errors :: "nat \<Rightarrow> action list \<Rightarrow> int" where
  "send_errors n hist = int (length (filter (send_error_for n) hist))"

definition matched_replies :: "nat \<Rightarrow> action list \<Rightarrow> int" where
  "matched_replies n hist = int (length (filter (reply_for n) hist))"

text \<open>The latest call of \<open>send_ping\<close> that was given sequence number \<open>q\<close>, as a map entry.\<close>

fun sent_with_seq :: "action list \<Rightarrow> nat \<Rightarrow> seqmap_value option" where
  "sent_with_seq [] q = None"
| "sent_with_seq (Send org n i q' ts res # rest) q =
     (if q' = q then Some \<lparr>host_nr = n, ping_count = i, ping_ts = ts\<rparr>
      else sent_with_seq rest q)"
| "sent_with_seq (Timed_out n i # rest) q = sent_with_seq rest q"
| "sent_with_seq (Reply n i q' rtt v # rest) q = sent_with_seq rest q"

text \<open>
  Every reply of the history is matched to the host and ping index of the latest
  earlier call of \<open>send_ping\<close> with the reply's sequence number.
\<close>

fun replies_matched :: "action list \<Rightarrow> bool" where
  "replies_matched [] = True"
| "replies_matched (Reply n i q rtt v # rest) =
     ((case sent_with_seq rest q of
         None \<Rightarrow> False
       | Some e \<Rightarrow> host_nr e = n \<and> ping_count e = i)
      \<and> replies_matched rest)"
| "replies_matched (Send org n i q ts res # rest) = replies_matched rest"
| "replies_matched (Timed_out n i # rest) = replies_matched rest"

text \<open>
  Whether the latest action on ping \<open>idx\<close> of host \<open>n\<close> is an accepted reply with a
  round-trip time that is not negative: no later send on a socket and no later
  timeout of that ping.
\<close>

fun slot_accepted :: "nat \<Rightarrow> int \<Rightarrow> action list \<Rightarrow> bool" where
  "slot_accepted n idx [] = False"
| "slot_accepted n idx (Send org m i q ts res # rest) =
     (if m = n \<and> i = idx \<and> res \<noteq> No_socket then False else slot_accepted n idx rest)"
| "slot_accepted n idx (Timed_out m i # rest) =
     (if m = n \<and> i = idx then False else slot_accepted n idx rest)"
| "slot_accepted n idx (Reply m i q rtt v # rest) =
     (if m = n \<and> i = idx \<and> v = Accepted then 0 \<le> rtt else slot_accepted n idx rest)"

text \<open>No reply is accepted for a ping whose latest action is such an accepted reply.\<close>

fun no_double_accept :: "action list \<Rightarrow> bool" where
  "no_double_accept [] = True"
| "no_double_accept (Reply n i q rtt v # rest) =
     ((if slot_accepted n i rest then v \<noteq> Accepted else True) \<and> no_double_accept rest)"
| "no_double_accept (Send org n i q ts res # rest) = no_double_accept rest"
| "no_double_accept (Timed_out n i # rest) = no_double_accept rest"

text \<open>The timestamp of the latest send on a socket.\<close>

fun last_send :: "action list \<Rightarrow> int option" where
  "last_send [] = None"
| "last_send (Send org n i q ts res # rest) =
     (if res = No_socket then last_send rest else Some ts)"
| "last_send (Timed_out n i # rest) = last_send rest"
| "last_send (Reply n i q rtt v # rest) = last_send rest"

text \<open>
  Every send on a socket that a ping event caused is at least \<open>iv\<close> later than the
  send on a socket before it.
\<close>

fun ping_events_paced :: "int \<Rightarrow> action list \<Rightarrow> bool" where
  "ping_events_paced iv [] = True"
| "ping_events_paced iv (Send org n i q ts res # rest) =
     ((if org = Ping_event \<and> res \<noteq> No_socket
       then (case last_send rest of None \<Rightarrow> True | Some t0 \<Rightarrow> iv \<le> ts - t0)
       else True)
      \<and> ping_events_paced iv rest)"
| "ping_events_paced iv (Timed_out n i # rest) = ping_events_paced iv rest"
| "ping_events_paced iv (Reply n i q rtt v # rest) = ping_events_paced iv rest"

text \<open>
  Every call of \<open>send_ping\<close> that a ping event caused, for ping \<open>i\<close> of a host, has a
  timestamp of at least \<open>start + i * period\<close>.
\<close>

fun sent_when_due :: "int \<Rightarrow> int \<Rightarrow> action list \<Rightarrow> bool" where
  "sent_when_due start period [] = True"
| "sent_when_due start period (Send org n i q ts res # rest) =
     ((if org = Ping_event then start + i * period \<le> ts else True)
      \<and> sent_when_due start period rest)"
| "sent_when_due start period (Timed_out n i # rest) = sent_when_due start period rest"
| "sent_when_due start period (Reply n i q rtt v # rest) = sent_when_due start period rest"

text \<open>The timestamps of the calls of \<open>send_ping\<close> of a history, with the host, latest first.\<close>

fun send_times :: "action list \<Rightarrow> (nat \<times> int) list" where
  "send_times [] = []"
| "send_times (Send org n i q ts res # rest) = (n, ts) # send_times rest"
| "send_times (Timed_out n i # rest) = send_times rest"
| "send_times (Reply n i q rtt v # rest) = send_times rest"

text \<open>
  The clock readings that the inputs of a pass hold, in the order in which the pass
  would read them; a clock that never goes backwards gives readings in ascending
  order, from the time \<open>c\<close> read last.
\<close>

definition clock_readings :: "iter_input \<Rightarrow> int list" where
  "clock_readings inp =
     in_send_clock inp # map pkt_clock (in_packets inp)
       @ [in_wake_clock inp, in_snapshot_clock inp, in_report_clock inp]"

definition clock_monotone :: "int \<Rightarrow> iter_input list \<Rightarrow> bool" where
  "clock_monotone c inps \<longleftrightarrow> sorted (c # concat (map clock_readings inps))"

text \<open>
  The number of retries sent to host \<open>n\<close> since the last reply accepted for it (since
  the start, if there is none).
\<close>

fun retries_since_reply :: "nat \<Rightarrow> action list \<Rightarrow> nat" where
  "retries_since_reply n [] = 0"
| "retries_since_reply n (Send org m i q ts res # rest) =
     (if m = n \<and> org = Retry then Suc (retries_since_reply n rest)
      else retries_since_reply n rest)"
| "retries_since_reply n (Timed_out m i # rest) = retries_since_reply n rest"
| "retries_since_reply n (Reply m i q rtt v # rest) =
     (if m = n \<and> v = Accepted then 0 else retries_since_reply n rest)"

section \<open>Properties of states\<close>

text \<open>The number of targets for which no address is found.\<close>

fun unresolved :: "resolution list \<Rightarrow> nat" where
  "unresolved [] = 0"
| "unresolved (No_address # rs) = Suc (unresolved rs)"
| "unresolved (Addresses as # rs) = unresolved rs"

text \<open>
  Every pointer of a queue (\<open>first\<close>, \<open>last\<close> and the links of the events) is to an
  event whose host has been written.
\<close>

definition queue_written :: "event_queue \<Rightarrow> bool" where
  "queue_written q \<longleftrightarrow>
     (\<forall>r. q_first q = Some r \<longrightarrow> ev_host (storage q r) \<noteq> None)
   \<and> (\<forall>r. q_last q = Some r \<longrightarrow> ev_host (storage q r) \<noteq> None)
   \<and> (\<forall>x r. ev_prev (storage q x) = Some r \<longrightarrow> ev_host (storage q r) \<noteq> None)
   \<and> (\<forall>x r. ev_next (storage q x) = Some r \<longrightarrow> ev_host (storage q r) \<noteq> None)"

definition queues_written :: "state \<Rightarrow> bool" where
  "queues_written s \<longleftrightarrow>
     queue_written (event_queue_ping s) \<and> queue_written (event_queue_timeout s)"

text \<open>
  What holds of the globals while \<open>main\<close> adds the targets, for the time \<open>clock\<close> read
  before: nothing has been sent or received, every host has the configured timeout,
  every ping event that has been written is for ping 0 at that time, the queues
  point to written events, and a host has an array of response times exactly if the
  loop flag is unset.
\<close>

definition fresh_state :: "config \<Rightarrow> int \<Rightarrow> state \<Rightarrow> bool" where
  "fresh_state cfg clock s \<longleftrightarrow>
     history s = [] \<and> seqmap s = seqmap_init \<and> num_alive s = 0 \<and> num_unreachable s = 0
   \<and> num_hosts s = to_int32 (int (length (table s)))
   \<and> current_time_ns s = clock \<and> start_time s = clock
   \<and> (\<forall>h \<in> set (table s).
         num_sent h = 0 \<and> num_recv h = 0 \<and> num_recv_total h = 0
       \<and> h_timeout h = timeout cfg
       \<and> (resp_times h = None \<longleftrightarrow> loop_flag cfg))
   \<and> (\<forall>r. ev_host (storage (event_queue_ping s) r) \<noteq> None \<longrightarrow>
         ev_time (storage (event_queue_ping s) r) = clock
       \<and> ping_index (storage (event_queue_ping s) r) = 0)
   \<and> queues_written s"

text \<open>
  The conservation law of the counters of every host of the table, against the
  history: the counters are \<open>int\<close>s, so they hold the counts modulo \<open>2 ^ 32\<close>.
\<close>

definition counters_conserved :: "state \<Rightarrow> bool" where
  "counters_conserved s \<longleftrightarrow>
     (\<forall>n < length (table s).
        num_sent (table s ! n) =
          to_int32 (accepted_replies n (history s) + timeouts_handled n (history s)
                    + send_errors n (history s))
      \<and> num_recv (table s ! n) = to_int32 (accepted_replies n (history s)))"

text \<open>
  As long as no host has had \<open>2 ^ 31\<close> replies accepted, \<open>num_alive\<close> is the number of
  hosts that have \<open>num_recv\<close> other than 0; \<open>num_hosts\<close> is the number of hosts of the
  table; \<open>finish\<close> is the first to change \<open>num_unreachable\<close>.
\<close>

definition alive_counted :: "state \<Rightarrow> bool" where
  "alive_counted s \<longleftrightarrow>
     (\<forall>n < length (table s). num_recv (table s ! n) = to_int32 (accepted_replies n (history s)))
   \<and> ((\<forall>n < length (table s). accepted_replies n (history s) < 2 ^ 31) \<longrightarrow>
        num_alive s = to_int32 (int (length (filter (\<lambda>h. num_recv h \<noteq> 0) (table s)))))
   \<and> num_hosts s = to_int32 (int (length (table s)))
   \<and> num_unreachable s = 0"

text \<open>A host has an array of response times exactly if the loop flag is unset.\<close>

definition allocated_unless_loop :: "config \<Rightarrow> state \<Rightarrow> bool" where
  "allocated_unless_loop cfg s \<longleftrightarrow>
     (\<forall>n < length (table s). resp_times (table s ! n) = None \<longleftrightarrow> loop_flag cfg)"

text \<open>
  The sequence map holds the sends of the history, every reply of the history is
  matched to a send, and \<open>num_recv_total\<close> counts the replies matched to the host.
\<close>

definition correlated :: "state \<Rightarrow> bool" where
  "correlated s \<longleftrightarrow>
     seqmap_map (seqmap s) = sent_with_seq (history s)
   \<and> replies_matched (history s)
   \<and> (\<forall>n < length (table s).
        num_recv_total (table s ! n) = to_int32 (matched_replies n (history s)))"

text \<open>
  Where the latest action on a ping is an accepted reply with a round-trip time that
  is not negative, the ping's cell of \<open>resp_times\<close> holds a value that is not negative;
  and no such ping has had a second reply accepted.
\<close>

definition slots_hold :: "state \<Rightarrow> bool" where
  "slots_hold s \<longleftrightarrow>
     (\<forall>n < length (table s). \<forall>idx. slot_accepted n idx (history s) \<longrightarrow>
        (\<exists>r. resp_times (table s ! n) = Some r \<and> 0 \<le> idx \<and> nat idx < length r
           \<and> 0 \<le> r ! nat idx))
   \<and> no_double_accept (history s)"

text \<open>
  \<open>last_send_time\<close> is the timestamp of the latest send on a socket (0 before the
  first), every ping event that has been written is due no earlier than \<open>start_time\<close>
  plus its ping index times the period, its ping index is an \<open>int\<close>, and the sends of
  the history are paced.
\<close>

definition paced :: "config \<Rightarrow> state \<Rightarrow> bool" where
  "paced cfg s \<longleftrightarrow>
     last_send_time s = (case last_send (history s) of None \<Rightarrow> 0 | Some t \<Rightarrow> t)
   \<and> (\<forall>r. ev_host (storage (event_queue_ping s) r) \<noteq> None \<longrightarrow>
         start_time s + ping_index (storage (event_queue_ping s) r) * perhost_interval cfg
           \<le> ev_time (storage (event_queue_ping s) r)
       \<and> - (2 ^ 31) \<le> ping_index (storage (event_queue_ping s) r)
       \<and> ping_index (storage (event_queue_ping s) r) < 2 ^ 31)
   \<and> ping_events_paced (interval cfg) (history s)
   \<and> sent_when_due (start_time s) (perhost_interval cfg) (history s)"

text \<open>
  The timeout of every host is the configured timeout, multiplied by the backoff
  factor once for every retry sent to the host since the last reply accepted for it.
\<close>

definition backed_off :: "config \<Rightarrow> state \<Rightarrow> bool" where
  "backed_off cfg s \<longleftrightarrow>
     (\<forall>n < length (table s).
        h_timeout (table s ! n) =
          (if backoff_flag cfg
           then (backoff_mul (backoff cfg) ^^ retries_since_reply n (history s)) (timeout cfg)
           else timeout cfg))"

text \<open>
  In one-shot mode, a host that has had \<open>k\<close> timeouts, no more than \<open>retry\<close>, and
  neither an accepted reply nor a failed send, has been sent \<open>k\<close> retries
  (\<open>retry + 1\<close> is computed in \<open>unsigned int\<close> and taken not to wrap).
\<close>

definition retried :: "config \<Rightarrow> state \<Rightarrow> bool" where
  "retried cfg s \<longleftrightarrow>
     (\<forall>n < length (table s).
        \<not> loop_flag cfg \<and> \<not> count_flag cfg \<and> int (retry cfg) + 1 < 2 ^ 32
        \<and> accepted_replies n (history s) = 0 \<and> send_errors n (history s) = 0
        \<and> timeouts_handled n (history s) \<le> int (retry cfg) \<longrightarrow>
        int (retries_since_reply n (history s)) = timeouts_handled n (history s))"

section \<open>Example configurations and runs\<close>

text \<open>
  Values for the constants of \<open>options.h\<close> and of the sequence map (3 retries, a
  timeout of 500 ms, an interval of 10 ms, a period of 1000 ms, a backoff factor of
  1.5, which is \<open>3 * 2 ^ - 1\<close>), and the configurations that \<open>main\<close> computes from
  them without options, for \<open>-c 3\<close>, for \<open>-C 3\<close>, for \<open>-t 5\<close> and for \<open>-l\<close>.
\<close>

definition example_constants :: constants where
  "example_constants =
     \<lparr> DEFAULT_RETRY = 3, DEFAULT_TIMEOUT = 500, DEFAULT_INTERVAL = 10,
       DEFAULT_PERHOST_INTERVAL = 1000, AUTOTUNE_TIMEOUT_MAX = 2000,
       DEFAULT_BACKOFF_FACTOR = (3, - 1), SEQMAP_RETENTION = 10000000000 \<rparr>"

definition default_config :: config where
  "default_config =
     \<lparr> loop_flag = False, count_flag = False, backoff_flag = True,
       report_all_rtts_flag = False, check_source_flag = False,
       cumulative_stats_flag = False, netdata_flag = False, fast_reachable = False,
       timeout_flag = False,
       count = 1, retry = 3, min_reachable = 0, trials = 4,
       timeout = 500000000, interval = 10000000, perhost_interval = 1000000000,
       report_interval = 0, event_storage_count = 1,
       backoff = (3, - 1), seqmap_retention = 10000000000 \<rparr>"

definition count3_config :: config where
  "count3_config =
     \<lparr> loop_flag = False, count_flag = True, backoff_flag = True,
       report_all_rtts_flag = False, check_source_flag = False,
       cumulative_stats_flag = False, netdata_flag = False, fast_reachable = False,
       timeout_flag = False,
       count = 3, retry = 3, min_reachable = 0, trials = 4,
       timeout = 1000000000, interval = 10000000, perhost_interval = 1000000000,
       report_interval = 0, event_storage_count = 3,
       backoff = (3, - 1), seqmap_retention = 10000000000 \<rparr>"

definition rtts_config :: config where
  "rtts_config =
     \<lparr> loop_flag = False, count_flag = True, backoff_flag = True,
       report_all_rtts_flag = True, check_source_flag = False,
       cumulative_stats_flag = False, netdata_flag = False, fast_reachable = False,
       timeout_flag = False,
       count = 3, retry = 3, min_reachable = 0, trials = 4,
       timeout = 1000000000, interval = 10000000, perhost_interval = 1000000000,
       report_interval = 0, event_storage_count = 3,
       backoff = (3, - 1), seqmap_retention = 10000000000 \<rparr>"

definition oneshot_config :: config where
  "oneshot_config =
     \<lparr> loop_flag = False, count_flag = False, backoff_flag = True,
       report_all_rtts_flag = False, check_source_flag = False,
       cumulative_stats_flag = False, netdata_flag = False, fast_reachable = False,
       timeout_flag = True,
       count = 1, retry = 3, min_reachable = 0, trials = 4,
       timeout = 5000000, interval = 10000000, perhost_interval = 1000000000,
       report_interval = 0, event_storage_count = 1,
       backoff = (3, - 1), seqmap_retention = 10000000000 \<rparr>"

definition loop_config :: config where
  "loop_config =
     \<lparr> loop_flag = True, count_flag = False, backoff_flag = False,
       report_all_rtts_flag = False, check_source_flag = False,
       cumulative_stats_flag = False, netdata_flag = False, fast_reachable = False,
       timeout_flag = False,
       count = 1, retry = 3, min_reachable = 0, trials = 4,
       timeout = 1000000000, interval = 10000000, perhost_interval = 1000000000,
       report_interval = 0, event_storage_count = 2,
       backoff = (3, - 1), seqmap_retention = 10000000000 \<rparr>"

text \<open>Memory that happens to hold zeros, and memory that holds sevens.\<close>

definition junk0 :: "nat \<Rightarrow> int" where
  "junk0 n = 0"

definition junk7 :: "nat \<Rightarrow> int" where
  "junk7 n = 7"

text \<open>
  An echo reply with sequence number \<open>seq\<close> from the target's address, without a
  kernel timestamp, handled at time \<open>clock\<close>.
\<close>

definition reply_packet :: "int \<Rightarrow> nat \<Rightarrow> packet" where
  "reply_packet clock seq =
     \<lparr>pkt_clock = clock, pkt_recv_time = 0, pkt_decoded = Some (seq, False)\<rparr>"

text \<open>
  The inputs of a pass without signals: the clock and the result of a send, the
  packets, and the clock after the wait.
\<close>

definition pass :: "int \<Rightarrow> send_result \<Rightarrow> packet list \<Rightarrow> int \<Rightarrow> iter_input" where
  "pass send_clock res pkts wake =
     \<lparr> in_send_clock = send_clock, in_send_result = res, in_sigint = False,
       in_packets = pkts, in_wake_clock = wake, in_sigquit = False,
       in_snapshot_clock = wake, in_report_clock = wake \<rparr>"

text \<open>
  A run of \<open>-c 3\<close> with one target that answers every ping after 1 ms.  The process
  wakes up 5 ms late for the second ping and on time for the third.
\<close>

definition late_inputs :: "iter_input list" where
  "late_inputs =
     [pass 100000000000 Send_ok [reply_packet 100001000000 0] 101005000000,
      pass 101005000000 Send_ok [reply_packet 101006000000 1] 102000000000,
      pass 102000000000 Send_ok [reply_packet 102001000000 2] 102002000000]"

text \<open>
  A run of \<open>-t 5\<close> with one target that never answers: the first ping, and the
  pass that handles its timeout 5 ms later.
\<close>

definition silent_inputs :: "iter_input list" where
  "silent_inputs =
     [pass 100000000000 Send_ok [] 100005000000,
      pass 100005000000 Send_ok [] 100012500000]"

text \<open>
  The first pass of a run with one target whose answer to the first ping arrives
  twice.
\<close>

definition duplicate_inputs :: "iter_input list" where
  "duplicate_inputs =
     [pass 100000000000 Send_ok
        [reply_packet 100001000000 0, reply_packet 100002000000 0] 101000000000]"

text \<open>
  A run without options with one target that never answers: the first ping, the pass
  that handles its timeout after 500 ms and sends the first retry, the wait of 750 ms,
  and the pass that handles the second timeout and sends the second retry.
\<close>

definition unanswered_inputs :: "iter_input list" where
  "unanswered_inputs =
     [pass 100000000000 Send_ok [] 100500000000,
      pass 100500000000 Send_ok [] 100500000000,
      pass 100500000000 Send_ok [] 101250000000,
      pass 101250000000 Send_ok [] 101250000000]"

text \<open>
  The same run when the answer to the first retry arrives after 100 ms.
\<close>

definition answered_inputs :: "iter_input list" where
  "answered_inputs =
     [pass 100000000000 Send_ok [] 100500000000,
      pass 100500000000 Send_ok [] 100500000000,
      pass 100500000000 Send_ok [reply_packet 100600000000 1] 100600000000]"

text \<open>
  A run of \<open>-l\<close> with one target that never answers and a process that is stopped for
  1500 ms before it sends the first ping.  The second ping follows 10 ms later and the
  third when it is due, 2000 ms after the start; its timeout event takes the slot of
  the first ping's timeout event, which is still in the queue.
\<close>

definition stalled_inputs :: "iter_input list" where
  "stalled_inputs =
     [pass 101500000000 Send_ok [] 101510000000,
      pass 101510000000 Send_ok [] 102000000000,
      pass 102000000000 Send_ok [] 103000000000,
      pass 103000000000 Send_ok [] 103000000000]"

section \<open>Facts about C arithmetic\<close>

lemma to_int32_id: "- (2 ^ 31) \<le> x \<Longrightarrow> x < 2 ^ 31 \<Longrightarrow> to_int32 x = x"
  by (simp add: to_int32_def)

lemma to_int32_range: "- (2 ^ 31) \<le> to_int32 x \<and> to_int32 x < 2 ^ 31"
  by (simp add: to_int32_def)

lemma to_int32_mod: "to_int32 x mod 2 ^ 32 = x mod 2 ^ 32"
proof -
  have "to_int32 x mod 2 ^ 32 = ((x + 2 ^ 31) mod 2 ^ 32 - 2 ^ 31) mod 2 ^ 32"
    by (simp add: to_int32_def)
  also have "\<dots> = ((x + 2 ^ 31) - 2 ^ 31) mod 2 ^ 32"
    by (rule mod_diff_left_eq)
  finally show ?thesis by simp
qed

lemma to_int32_cong: "x mod 2 ^ 32 = y mod 2 ^ 32 \<Longrightarrow> to_int32 x = to_int32 y"
proof -
  assume "x mod 2 ^ 32 = y mod 2 ^ 32"
  then have "(x + 2 ^ 31) mod 2 ^ 32 = (y + 2 ^ 31) mod 2 ^ 32"
    by (metis mod_add_left_eq)
  then show ?thesis by (simp add: to_int32_def)
qed

lemma to_int32_add: "to_int32 (to_int32 x + y) = to_int32 (x + y)"
proof (rule to_int32_cong)
  have "(to_int32 x + y) mod 2 ^ 32 = (to_int32 x mod 2 ^ 32 + y) mod 2 ^ 32"
    by (simp add: mod_add_left_eq)
  also have "\<dots> = (x mod 2 ^ 32 + y) mod 2 ^ 32" by (simp only: to_int32_mod)
  also have "\<dots> = (x + y) mod 2 ^ 32" by (simp add: mod_add_left_eq)
  finally show "(to_int32 x + y) mod 2 ^ 32 = (x + y) mod 2 ^ 32" .
qed

lemma to_int32_step: "to_int32 (to_int32 x + 1) = to_int32 (x + 1)"
  by (rule to_int32_add)

lemma to_int32_Suc: "to_int32 (to_int32 (int k) + 1) = to_int32 (int (Suc k))"
proof -
  have "int (Suc k) = int k + 1" by simp
  then show ?thesis by (simp only: to_int32_add)
qed

lemma to_uint32_int32: "to_uint32 (to_int32 x) = to_uint32 x"
  unfolding to_uint32_def by (rule to_int32_mod)

lemma to_int32_le: "x \<le> 2 ^ 31 \<Longrightarrow> - (2 ^ 31) \<le> x \<Longrightarrow> to_int32 x \<le> x"
proof (cases "x = 2 ^ 31")
  case True
  then show ?thesis by (simp add: to_int32_def)
next
  case False
  assume "x \<le> 2 ^ 31" "- (2 ^ 31) \<le> x"
  then have "to_int32 x = x" using False by (intro to_int32_id) auto
  then show ?thesis by simp
qed

lemma to_int64_id: "- (2 ^ 63) \<le> x \<Longrightarrow> x < 2 ^ 63 \<Longrightarrow> to_int64 x = x"
  by (simp add: to_int64_def)

lemma to_uint32_id: "0 \<le> x \<Longrightarrow> x < 2 ^ 32 \<Longrightarrow> to_uint32 x = x"
  by (simp add: to_uint32_def)

lemma c_div_nonneg: "0 \<le> a \<Longrightarrow> 0 < b \<Longrightarrow> c_div a b = a div b"
  by (cases "a = 0") (simp_all add: c_div_def)

lemma c_rem_nonneg: "0 \<le> a \<Longrightarrow> 0 < b \<Longrightarrow> c_rem a b = a mod b"
  by (simp add: c_rem_def c_div_nonneg minus_mult_div_eq_mod)

lemma wrap_dec:
  fixes x M :: nat
  assumes "1 \<le> x" "x < M"
  shows "(x + (M - 1)) mod M = x - 1"
proof -
  have "x + (M - 1) = (x - 1) + M" using assms by simp
  then have "(x + (M - 1)) mod M = ((x - 1) + M) mod M" by (rule arg_cong)
  also have "\<dots> = (x - 1) mod M" by (rule mod_add_self2)
  also have "\<dots> = x - 1" using assms by simp
  finally show ?thesis .
qed

lemma bit_length_0: "bit_length 0 = 0"
  by (subst bit_length.simps) simp

lemma bit_length_pos: "0 < n \<Longrightarrow> bit_length n = Suc (bit_length (n div 2))"
  by (subst bit_length.simps) simp

section \<open>The number of event slots (C3)\<close>

text \<open>
  C3, as the specification states it: \<open>event_storage_count\<close> is \<open>count\<close> in count
  mode, \<open>max(1, ceil(timeout / perhost_interval) + 1)\<close> in loop mode and 1 otherwise.
  The loop-mode value is not what \<open>main\<close> computes: with a timeout of 1500 ms and a
  period of 1000 ms, \<open>main\<close> stores 2 and the formula gives 3.
\<close>

theorem event_storage_count_counterexample:
  "main_event_storage_count False True 1 1500000000 1000000000 = Inr 2 \<and>
   spec_event_storage_count False True 1 1500000000 1000000000 = 3"
  by (simp add: main_event_storage_count_def spec_event_storage_count_def c_div_def to_int32_def)

text \<open>
  C3, amended: for a positive period, \<open>event_storage_count\<close> is \<open>count\<close> converted to
  \<open>int\<close> in count mode; in loop mode it is 1 if the period is longer than the timeout
  and \<open>1 + floor(timeout / perhost_interval)\<close> converted to \<open>int\<close> otherwise; in every
  other mode it is 1.  The conversion to \<open>int\<close> leaves a value below \<open>2^31\<close> as it is
  and wraps a larger one.
\<close>

theorem event_storage_count_startup:
  assumes "0 < period"
  shows "main_event_storage_count cf lf cnt tmo period =
           Inr (if cf then to_int32 (int cnt)
                else if lf then (if period > tmo then 1 else to_int32 (1 + tmo div period))
                else 1)
       \<and> (cnt < 2 ^ 31 \<longrightarrow> to_int32 (int cnt) = int cnt)
       \<and> (period \<le> tmo \<and> tmo div period < 2 ^ 31 - 1 \<longrightarrow>
            to_int32 (1 + tmo div period) = 1 + tmo div period)"
proof -
  have "c_div tmo period = tmo div period" if "period \<le> tmo"
    using that assms by (simp add: c_div_nonneg)
  then have a: "main_event_storage_count cf lf cnt tmo period =
           Inr (if cf then to_int32 (int cnt)
                else if lf then (if period > tmo then 1 else to_int32 (1 + tmo div period))
                else 1)"
    using assms by (simp add: main_event_storage_count_def)
  have b: "to_int32 (int cnt) = int cnt" if "cnt < 2 ^ 31"
    using that by (intro to_int32_id) auto
  have c: "to_int32 (1 + tmo div period) = 1 + tmo div period"
    if "period \<le> tmo" "tmo div period < 2 ^ 31 - 1"
  proof -
    have "0 \<le> tmo div period"
      using that(1) assms by (simp add: pos_imp_zdiv_nonneg_iff)
    then show ?thesis using that(2) by (intro to_int32_id) auto
  qed
  show ?thesis using a b c by blast
qed

theorem event_storage_count_startup_witness:
  "main_event_storage_count False True 1 2500000000 1000000000 = Inr 3 \<and>
   main_event_storage_count True False 5 500000000 1000000000 = Inr 5 \<and>
   main_event_storage_count False False 1 500000000 1000000000 = Inr 1 \<and>
   main_event_storage_count False True 1 5000000000 1 = Inr 705032705"
  using event_storage_count_startup [of 1000000000 False True 1 2500000000]
    event_storage_count_startup [of 1000000000 True False 5 500000000]
    event_storage_count_startup [of 1000000000 False False 1 500000000]
    event_storage_count_startup [of 1 False True 1 5000000000]
  by (simp add: to_int32_def)

section \<open>CIDR expansion (C8)\<close>

lemma add_addr_range_loop_eq:
  "end_long < 2 ^ 64 - 1 \<Longrightarrow>
   add_addr_range_loop start_long end_long names = Some (names @ [start_long ..< Suc end_long])"
proof (induction "Suc end_long - start_long" arbitrary: start_long names)
  case 0
  then show ?case by (subst add_addr_range_loop.simps) simp
next
  case (Suc d)
  then have le: "start_long \<le> end_long" by simp
  then have m: "(start_long + 1) mod 2 ^ 64 = Suc start_long"
    using Suc.prems by simp
  have "d = Suc end_long - Suc start_long" using Suc.hyps(2) by simp
  then have "add_addr_range_loop (Suc start_long) end_long (names @ [start_long])
      = Some ((names @ [start_long]) @ [Suc start_long ..< Suc end_long])"
    using Suc.hyps(1) Suc.prems by blast
  then show ?case
    using le m by (subst add_addr_range_loop.simps) (simp add: upt_conv_Cons)
qed

lemma and_bitmask:
  fixes n :: nat
  assumes "n < 2 ^ 32" "k \<le> 32"
  shows "n AND ((0xFFFFFFFF * 2 ^ k) mod 2 ^ 64) = n - n mod 2 ^ k"
proof -
  have a: "(0xFFFFFFFF * 2 ^ k) mod 2 ^ 64 = take_bit 64 (push_bit k (mask 32 :: nat))"
    by (simp add: take_bit_eq_mod push_bit_eq_mult mask_eq_exp_minus_1)
  have b: "n - n mod 2 ^ k = push_bit k (drop_bit k n)"
    by (simp add: push_bit_eq_mult drop_bit_eq_div minus_mod_eq_mult_div)
  have c: "take_bit 32 n = n" using assms(1) by (simp add: take_bit_nat_eq_self)
  have "n AND take_bit 64 (push_bit k (mask 32 :: nat)) = push_bit k (drop_bit k n)"
  proof (rule bit_eqI)
    fix i
    have "bit n i \<Longrightarrow> i < 32"
      using c by (metis bit_take_bit_iff)
    then show "bit (n AND take_bit 64 (push_bit k (mask 32 :: nat))) i = bit (push_bit k (drop_bit k n)) i"
      using assms(2) by (auto simp add: bit_simps)
  qed
  then show ?thesis using a b by simp
qed

lemma network_bound:
  fixes n :: nat
  assumes "n < 2 ^ 32" "k \<le> 32"
  shows "n - n mod 2 ^ k + 2 ^ k \<le> 2 ^ 32"
proof -
  have "n div 2 ^ k < 2 ^ (32 - k)"
    using assms by (simp add: less_mult_imp_div_less power_add [symmetric])
  then have "Suc (n div 2 ^ k) \<le> 2 ^ (32 - k)" by simp
  then have "2 ^ k * Suc (n div 2 ^ k) \<le> (2::nat) ^ k * 2 ^ (32 - k)"
    by (rule mult_le_mono2)
  also have "(2::nat) ^ k * 2 ^ (32 - k) = 2 ^ 32"
    using assms(2) by (simp add: power_add [symmetric])
  finally show ?thesis
    by (simp add: minus_mod_eq_mult_div)
qed

lemma add_addr_range_ipv4_generates:
  assumes "e < 2 ^ 33" "s < 2 ^ 33" "e < s + MAX_GENERATE"
  shows "add_addr_range_ipv4 s e = Some (Inr [s ..< Suc e])"
proof -
  have "(s + MAX_GENERATE) mod 2 ^ 64 = s + MAX_GENERATE"
    using assms(2) by (simp add: MAX_GENERATE_def)
  moreover have "e < 2 ^ 64 - 1" using assms(1) by simp
  ultimately show ?thesis
    using assms(3) by (simp add: add_addr_range_ipv4_def add_addr_range_loop_eq)
qed

lemma add_addr_range_ipv4_refuses:
  assumes "s < 2 ^ 33" "s + MAX_GENERATE \<le> e"
  shows "add_addr_range_ipv4 s e = Some (Inl (Exit 1))"
proof -
  have "(s + MAX_GENERATE) mod 2 ^ 64 = s + MAX_GENERATE"
    using assms(1) by (simp add: MAX_GENERATE_def)
  then show ?thesis
    using assms(2) by (simp add: add_addr_range_ipv4_def)
qed

text \<open>
  What \<open>add_cidr_ipv4\<close> does for an IPv4 address and a prefix length from 1 to 32:
  \<open>network\<close> is the address with its host bits cleared and \<open>broadcast\<close> the last
  address of the block.
\<close>

lemma add_cidr_ipv4_cases:
  assumes "net_addr < 2 ^ 32" "1 \<le> m" "m \<le> 32"
  shows "add_cidr_ipv4 net_addr m =
    (let network = net_addr - net_addr mod 2 ^ (32 - m);
         broadcast = network + 2 ^ (32 - m) - 1
     in if m \<le> 14 then Some (Inl (Exit 1))
        else if m < 31 then Some (Inr [network + 1 ..< broadcast])
        else Some (Inr [network ..< network + 2 ^ (32 - m)]))"
proof -
  define k where "k = 32 - m"
  define network where "network = net_addr - net_addr mod 2 ^ k"
  have k: "k \<le> 32" by (simp add: k_def)
  have nb: "network + 2 ^ k \<le> 2 ^ 32"
    unfolding network_def using assms(1) k by (rule network_bound)
  have pk: "(2::nat) ^ k \<le> 2 ^ 32" using nb by simp
  have pk1: "(1::nat) \<le> 2 ^ k" by simp
  have n32: "network < 2 ^ 32" using nb pk1 by linarith
  have m1: "(2::nat) ^ k mod 2 ^ 64 = 2 ^ k"
    using pk by simp
  have last: "(network + 2 ^ k + (2 ^ 64 - 1)) mod 2 ^ 64 = network + 2 ^ k - 1"
  proof (rule wrap_dec)
    show "1 \<le> network + 2 ^ k" using pk1 by linarith
    show "network + 2 ^ k < 2 ^ 64" using nb by simp
  qed
  have unf: "add_cidr_ipv4 net_addr m =
      (if m < 31
       then add_addr_range_ipv4 ((network + 1) mod 2 ^ 64) ((network + 2 ^ k - 1 + (2 ^ 64 - 1)) mod 2 ^ 64)
       else add_addr_range_ipv4 network (network + 2 ^ k - 1))"
    using assms(2,3) and_bitmask [OF assms(1) k] m1 last
    by (simp add: add_cidr_ipv4_def Let_def k_def [symmetric] network_def [symmetric])
  show ?thesis
  proof (cases "m < 31")
    case False
    then have "k \<le> 1" by (simp add: k_def)
    then have "(2::nat) ^ k \<le> 2 ^ 1" by (intro power_increasing) auto
    then have small: "(2::nat) ^ k \<le> 2" by simp
    have "add_addr_range_ipv4 network (network + 2 ^ k - 1) = Some (Inr [network ..< Suc (network + 2 ^ k - 1)])"
      using n32 nb small by (intro add_addr_range_ipv4_generates) (auto simp: MAX_GENERATE_def)
    moreover have "Suc (network + 2 ^ k - 1) = network + 2 ^ k"
      using pk1 by linarith
    ultimately have "add_addr_range_ipv4 network (network + 2 ^ k - 1) = Some (Inr [network ..< network + 2 ^ k])"
      by (simp only:)
    then show ?thesis
      using False unf by (simp add: Let_def k_def [symmetric] network_def [symmetric])
  next
    case True
    then have "2 \<le> k" by (simp add: k_def)
    then have "(2::nat) ^ 2 \<le> 2 ^ k" by (intro power_increasing) auto
    then have big: "(4::nat) \<le> 2 ^ k" by simp
    have s: "(network + 1) mod 2 ^ 64 = network + 1" using n32 by simp
    have "(network + 2 ^ k - 1 + (2 ^ 64 - 1)) mod 2 ^ 64 = network + 2 ^ k - 1 - 1"
    proof (rule wrap_dec)
      show "1 \<le> network + 2 ^ k - 1" using big by linarith
      show "network + 2 ^ k - 1 < 2 ^ 64" using nb by simp
    qed
    then have e: "(network + 2 ^ k - 1 + (2 ^ 64 - 1)) mod 2 ^ 64 = network + 2 ^ k - 2"
      by simp
    show ?thesis
    proof (cases "m \<le> 14")
      case True
      then have "18 \<le> k" by (simp add: k_def)
      then have "(2::nat) ^ 18 \<le> 2 ^ k" by (intro power_increasing) auto
      then have "network + 1 + MAX_GENERATE \<le> network + 2 ^ k - 2"
        by (simp add: MAX_GENERATE_def)
      then have "add_addr_range_ipv4 (network + 1) (network + 2 ^ k - 2) = Some (Inl (Exit 1))"
        using n32 by (intro add_addr_range_ipv4_refuses) auto
      then show ?thesis
        using True \<open>m < 31\<close> unf s e by (simp add: Let_def)
    next
      case False
      then have "k \<le> 17" by (simp add: k_def)
      then have "(2::nat) ^ k \<le> 2 ^ 17" by (intro power_increasing) auto
      then have "network + 2 ^ k - 2 < network + 1 + MAX_GENERATE"
        by (simp add: MAX_GENERATE_def)
      then have "add_addr_range_ipv4 (network + 1) (network + 2 ^ k - 2)
          = Some (Inr [network + 1 ..< Suc (network + 2 ^ k - 2)])"
        using n32 nb by (intro add_addr_range_ipv4_generates) auto
      moreover have "Suc (network + 2 ^ k - 2) = network + 2 ^ k - 1"
        using big by simp
      ultimately show ?thesis
        using False \<open>m < 31\<close> unf s e
        by (simp add: Let_def k_def [symmetric] network_def [symmetric])
    qed
  qed
qed

text \<open>
  C8, as stated, promises the addresses between network and broadcast for every
  prefix length from 1 to 30.  For 10.0.0.0/8 (the address is 167772160) nothing is
  generated: the block is larger than \<open>MAX_GENERATE\<close> and the program exits with
  status 1.
\<close>

theorem add_cidr_ipv4_counterexample:
  "add_cidr_ipv4 167772160 8 = Some (Inl (Exit 1))"
  using add_cidr_ipv4_cases [of 167772160 8] by (simp add: Let_def)

text \<open>
  C8, amended: for an IPv4 address and a prefix length \<open>m\<close> from 15 to 30,
  \<open>add_cidr_ipv4\<close> generates exactly the addresses from network + 1 to
  broadcast - 1, in ascending order; for \<open>m\<close> = 31 or 32 it generates all
  \<open>2^(32-m)\<close> addresses of the block, both ends included; for \<open>m\<close> from 1 to 14 it
  generates nothing and exits with status 1, because the block exceeds
  \<open>MAX_GENERATE\<close>.  In particular 10.0.0.0/30 expands to 10.0.0.1 and 10.0.0.2.
\<close>

theorem add_cidr_ipv4_expansion:
  assumes "net_addr < 2 ^ 32" "1 \<le> m" "m \<le> 32"
  shows "add_cidr_ipv4 net_addr m =
    (let network = net_addr - net_addr mod 2 ^ (32 - m);
         broadcast = network + 2 ^ (32 - m) - 1
     in if m \<le> 14 then Some (Inl (Exit 1))
        else if m < 31 then Some (Inr [network + 1 ..< broadcast])
        else Some (Inr [network ..< network + 2 ^ (32 - m)]))"
  using assms by (rule add_cidr_ipv4_cases)

theorem add_cidr_ipv4_expansion_witness:
  "add_cidr_ipv4 167772160 30 = Some (Inr [167772161, 167772162]) \<and>
   add_cidr_ipv4 167772160 31 = Some (Inr [167772160, 167772161]) \<and>
   add_cidr_ipv4 167772163 32 = Some (Inr [167772163])"
  using add_cidr_ipv4_expansion [of 167772160 30] add_cidr_ipv4_expansion [of 167772160 31]
    add_cidr_ipv4_expansion [of 167772163 32]
  by (simp add: Let_def upt_conv_Cons)

section \<open>Effects of the operations on hosts\<close>

lemma resp_times_store_Some:
  "resp_times h = Some r \<Longrightarrow> 0 \<le> i \<Longrightarrow> nat i < length r \<Longrightarrow>
   resp_times_store h i v = Inr (h\<lparr>resp_times := Some (r[nat i := v])\<rparr>)"
  by (simp add: resp_times_store_def)

lemma resp_times_store_Inr:
  assumes "resp_times_store h i v = Inr h'"
  shows "\<exists>r. resp_times h = Some r \<and> 0 \<le> i \<and> nat i < length r \<and>
             h' = h\<lparr>resp_times := Some (r[nat i := v])\<rparr>"
proof (cases "resp_times h")
  case None
  then show ?thesis using assms by (simp add: resp_times_store_def)
next
  case (Some r)
  then show ?thesis using assms by (simp add: resp_times_store_def split: if_splits)
qed

lemma resp_times_store_Inl:
  assumes "resp_times_store h i v = Inl e"
  shows "(e = NullPointer \<and> resp_times h = None) \<or> (e = OutOfBounds \<and> resp_times h \<noteq> None)"
proof (cases "resp_times h")
  case None
  then show ?thesis using assms by (simp add: resp_times_store_def)
next
  case (Some r)
  then show ?thesis using assms by (simp add: resp_times_store_def split: if_splits)
qed

lemma resp_times_load_Inl:
  assumes "resp_times_load h i = Inl e"
  shows "(e = NullPointer \<and> resp_times h = None) \<or> (e = OutOfBounds \<and> resp_times h \<noteq> None)"
proof (cases "resp_times h")
  case None
  then show ?thesis using assms by (simp add: resp_times_load_def)
next
  case (Some r)
  then show ?thesis using assms by (simp add: resp_times_load_def split: if_splits)
qed


lemma stats_add_Inr:
  assumes "stats_add cfg h idx succ lat nt = Inr (h', nt')"
  shows "num_sent h' = to_int32 (num_sent h + 1)
    \<and> num_recv h' = (if succ then to_int32 (num_recv h + 1) else num_recv h)
    \<and> num_recv_total h' = num_recv_total h
    \<and> h_timeout h' = h_timeout h
    \<and> nt' = (if succ then nt else to_int32 (nt + 1))
    \<and> resp_times h' =
          (if \<not> loop_flag cfg \<and> 0 \<le> idx
           then map_option (\<lambda>r. r[nat idx := (if succ then lat else RESP_TIMEOUT)]) (resp_times h)
           else resp_times h)"
proof (cases "\<not> loop_flag cfg \<and> 0 \<le> idx")
  case False
  then show ?thesis
    using assms by (cases succ) (auto simp: stats_add_def Let_def)
next
  case True
  show ?thesis
  proof (cases "\<exists>r. resp_times h = Some r \<and> nat idx < length r")
    case False
    then have "stats_add cfg h idx succ lat nt = Inl NullPointer \<or>
               stats_add cfg h idx succ lat nt = Inl OutOfBounds"
      using True
      by (cases succ; cases "resp_times h") (simp_all add: stats_add_def Let_def resp_times_store_def)
    then show ?thesis using assms by auto
  next
    case r: True
    then obtain r where "resp_times h = Some r" "nat idx < length r" by blast
    then show ?thesis
      using True assms
      by (cases succ) (auto simp: stats_add_def Let_def resp_times_store_def)
  qed
qed

lemma stats_add_Inl:
  assumes "stats_add cfg h idx succ lat nt = Inl e"
  shows "\<not> loop_flag cfg \<and>
     ((e = NullPointer \<and> resp_times h = None) \<or> (e = OutOfBounds \<and> resp_times h \<noteq> None))"
proof (cases "\<not> loop_flag cfg \<and> 0 \<le> idx")
  case False
  then show ?thesis
    using assms by (cases succ) (auto simp: stats_add_def Let_def)
next
  case True
  show ?thesis
  proof (cases "resp_times h")
    case None
    then show ?thesis
      using True assms
      by (cases succ) (auto simp: stats_add_def Let_def resp_times_store_def)
  next
    case (Some r)
    then show ?thesis
      using True assms
      by (cases succ; cases "nat idx < length r") (auto simp: stats_add_def Let_def resp_times_store_def)
  qed
qed


section \<open>The statistics record operation (C5)\<close>

text \<open>
  C5: \<open>stats_add\<close> on a host entry whose counters are below \<open>INT_MAX\<close> (and whose
  totals stay within \<open>int64_t\<close>), for a ping index that, where the loop flag is unset
  and the index is not negative, is within the allocated array (\<open>main\<close> rejects \<open>-c\<close>
  together with \<open>-l\<close>, so count mode has the loop flag unset).  The call returns; it
  adds 1 to \<open>num_sent\<close> and \<open>num_sent_i\<close>; on success it adds 1 to \<open>num_recv\<close> and
  \<open>num_recv_i\<close>, replaces each maximum and minimum that is zero or is beaten by
  the latency, adds the latency to both totals and leaves \<open>num_timeout\<close> alone; on
  failure it adds 1 to \<open>num_timeout\<close> and leaves the receive and round-trip fields
  alone; in count mode it stores the latency, or \<open>RESP_TIMEOUT\<close> on failure, at the
  ping index of \<open>resp_times\<close>, and stores nothing for a negative index.
\<close>

theorem stats_add_record:
  assumes "count_flag cfg \<longrightarrow> \<not> loop_flag cfg"
    and "\<not> loop_flag cfg \<and> 0 \<le> index \<longrightarrow>
           (\<exists>r. resp_times h = Some r \<and> nat index < length r)"
    and "- (2 ^ 31) \<le> num_sent h \<and> num_sent h < 2 ^ 31 - 1"
    and "- (2 ^ 31) \<le> num_sent_i h \<and> num_sent_i h < 2 ^ 31 - 1"
    and "success \<longrightarrow>
           - (2 ^ 31) \<le> num_recv h \<and> num_recv h < 2 ^ 31 - 1
         \<and> - (2 ^ 31) \<le> num_recv_i h \<and> num_recv_i h < 2 ^ 31 - 1
         \<and> - (2 ^ 63) \<le> total_time h + latency \<and> total_time h + latency < 2 ^ 63
         \<and> - (2 ^ 63) \<le> total_time_i h + latency \<and> total_time_i h + latency < 2 ^ 63"
    and "\<not> success \<longrightarrow> - (2 ^ 31) \<le> nt \<and> nt < 2 ^ 31 - 1"
  shows "\<exists>h'. stats_add cfg h index success latency nt = Inr (h', if success then nt else nt + 1)
     \<and> num_sent h' = num_sent h + 1 \<and> num_sent_i h' = num_sent_i h + 1
     \<and> (success \<longrightarrow>
           num_recv h' = num_recv h + 1 \<and> num_recv_i h' = num_recv_i h + 1
         \<and> max_reply h' = (if max_reply h = 0 \<or> latency > max_reply h then latency else max_reply h)
         \<and> max_reply_i h' = (if max_reply_i h = 0 \<or> latency > max_reply_i h then latency else max_reply_i h)
         \<and> min_reply h' = (if min_reply h = 0 \<or> latency < min_reply h then latency else min_reply h)
         \<and> min_reply_i h' = (if min_reply_i h = 0 \<or> latency < min_reply_i h then latency else min_reply_i h)
         \<and> total_time h' = total_time h + latency \<and> total_time_i h' = total_time_i h + latency)
     \<and> (\<not> success \<longrightarrow>
           num_recv h' = num_recv h \<and> num_recv_i h' = num_recv_i h
         \<and> max_reply h' = max_reply h \<and> max_reply_i h' = max_reply_i h
         \<and> min_reply h' = min_reply h \<and> min_reply_i h' = min_reply_i h
         \<and> total_time h' = total_time h \<and> total_time_i h' = total_time_i h)
     \<and> (count_flag cfg \<longrightarrow>
           resp_times h' =
             (if 0 \<le> index
              then map_option (\<lambda>r. r[nat index := (if success then latency else RESP_TIMEOUT)])
                     (resp_times h)
              else resp_times h))"
proof -
  have s: "to_int32 (num_sent h + 1) = num_sent h + 1"
          "to_int32 (num_sent_i h + 1) = num_sent_i h + 1"
    using assms(3,4) by (simp_all add: to_int32_id)
  have r: "to_int32 (num_recv h + 1) = num_recv h + 1"
          "to_int32 (num_recv_i h + 1) = num_recv_i h + 1"
          "to_int64 (total_time h + latency) = total_time h + latency"
          "to_int64 (total_time_i h + latency) = total_time_i h + latency"
    if success
    using assms(5) that by (simp_all add: to_int32_id to_int64_id)
  have t: "to_int32 (nt + 1) = nt + 1" if "\<not> success"
    using assms(6) that by (simp add: to_int32_id)
  show ?thesis
  proof (cases "\<not> loop_flag cfg \<and> 0 \<le> index")
    case False
    then show ?thesis
      using assms(1) s r t by (cases success) (auto simp: stats_add_def Let_def)
  next
    case True
    then obtain r' where r': "resp_times h = Some r'" "nat index < length r'"
      using assms(2) by blast
    show ?thesis
      using True r' s r t
      by (cases success) (simp_all add: stats_add_def resp_times_store_def Let_def)
  qed
qed

theorem stats_add_record_witness:
  "(\<exists>h'. stats_add count3_config
          \<lparr> h_timeout = 1000000000, h_last_send_time = 0,
            num_sent = 0, num_recv = 0, num_recv_total = 1,
            max_reply = 0, min_reply = 0, total_time = 0,
            num_sent_i = 0, num_recv_i = 0,
            max_reply_i = 0, min_reply_i = 0, total_time_i = 0,
            resp_times = Some [RESP_WAITING, RESP_UNUSED, RESP_UNUSED, RESP_UNUSED] \<rparr>
          0 True 1000000 0 = Inr (h', 0)
      \<and> num_sent h' = 1 \<and> num_recv h' = 1 \<and> max_reply h' = 1000000 \<and> min_reply h' = 1000000
      \<and> total_time h' = 1000000
      \<and> resp_times h' = Some [1000000, RESP_UNUSED, RESP_UNUSED, RESP_UNUSED])
   \<and> (\<exists>h'. stats_add count3_config
          \<lparr> h_timeout = 1000000000, h_last_send_time = 0,
            num_sent = 0, num_recv = 0, num_recv_total = 0,
            max_reply = 0, min_reply = 0, total_time = 0,
            num_sent_i = 0, num_recv_i = 0,
            max_reply_i = 0, min_reply_i = 0, total_time_i = 0,
            resp_times = Some [RESP_WAITING, RESP_UNUSED, RESP_UNUSED, RESP_UNUSED] \<rparr>
          (- 1) False (- 1) 0 = Inr (h', 1)
      \<and> num_sent h' = 1 \<and> num_recv h' = 0
      \<and> resp_times h' = Some [RESP_WAITING, RESP_UNUSED, RESP_UNUSED, RESP_UNUSED])"
  using stats_add_record [of count3_config 0
      "\<lparr> h_timeout = 1000000000, h_last_send_time = 0,
         num_sent = 0, num_recv = 0, num_recv_total = 1,
         max_reply = 0, min_reply = 0, total_time = 0,
         num_sent_i = 0, num_recv_i = 0,
         max_reply_i = 0, min_reply_i = 0, total_time_i = 0,
         resp_times = Some [RESP_WAITING, RESP_UNUSED, RESP_UNUSED, RESP_UNUSED] \<rparr>"
      True 1000000 0]
    stats_add_record [of count3_config "- 1"
      "\<lparr> h_timeout = 1000000000, h_last_send_time = 0,
         num_sent = 0, num_recv = 0, num_recv_total = 0,
         max_reply = 0, min_reply = 0, total_time = 0,
         num_sent_i = 0, num_recv_i = 0,
         max_reply_i = 0, min_reply_i = 0, total_time_i = 0,
         resp_times = Some [RESP_WAITING, RESP_UNUSED, RESP_UNUSED, RESP_UNUSED] \<rparr>"
      False "- 1" 0]
  by (auto simp: count3_config_def)

section \<open>The response times of a new host (C9)\<close>

lemma add_addr_fill_length: "length (add_addr_fill n t i) = length i"
proof (induction n t i rule: add_addr_fill.induct)
  case (1 n t i)
  then show ?case by (subst add_addr_fill.simps) simp
qed

lemma add_addr_fill_below: "m < n \<Longrightarrow> add_addr_fill n t i ! m = i ! m"
proof (induction n t i rule: add_addr_fill.induct)
  case (1 n t i)
  then show ?case by (subst add_addr_fill.simps) simp
qed

lemma add_addr_fill_from:
  "n \<le> m \<Longrightarrow> m < t \<Longrightarrow> m < length i \<Longrightarrow> add_addr_fill n t i ! m = RESP_UNUSED"
proof (induction n t i rule: add_addr_fill.induct)
  case (1 n t i)
  show ?case
  proof (cases "n = m")
    case True
    then show ?thesis
      using "1.prems" by (subst add_addr_fill.simps) (simp add: add_addr_fill_below)
  next
    case False
    then show ?thesis
      using "1.prems" "1.IH" by (subst add_addr_fill.simps) simp
  qed
qed

lemma add_addr_fill_step:
  "n < t \<Longrightarrow> add_addr_fill n t i = add_addr_fill (Suc n) t (i[n := RESP_UNUSED])"
  by (subst add_addr_fill.simps) simp

lemma add_addr_fill_stop: "\<not> n < t \<Longrightarrow> add_addr_fill n t i = i"
  by (subst add_addr_fill.simps) simp

lemma add_addr_table:
  assumes "add_addr cfg a s = Inr s'"
  shows "\<exists>p. table s' = table s @ [p] \<and>
     resp_times p = (if loop_flag cfg then None
        else (case a of Alloc_failed \<Rightarrow> None
              | Allocated junk \<Rightarrow> Some (add_addr_fill 1 (trials cfg) (map junk [0 ..< trials cfg]))))"
  using assms
  by (auto simp: add_addr_def Let_def split: if_splits sum.splits allocation.splits)

text \<open>
  C9, as stated, has \<open>resp_times[0]\<close> equal to 0 after a host is added.  The array
  comes from \<open>malloc\<close>, and \<open>add_addr\<close> writes the cells from index 1 on only: with
  memory that holds sevens, cell 0 holds 7.
\<close>

theorem add_addr_resp_times_counterexample:
  "map_sum id (\<lambda>s. map resp_times (table s))
     (add_addr count3_config (Allocated junk7) (initial_state 1000))
   = Inr [Some [7, RESP_UNUSED, RESP_UNUSED, RESP_UNUSED]]"
  by (simp add: add_addr_def count3_config_def initial_state_def host_add_event_def
      event_slot_def ev_enqueue_def empty_queue_def zero_event_def c_rem_def c_div_def
      junk7_def upt_conv_Cons add_addr_fill_step add_addr_fill_stop)

text \<open>
  C9, amended: after a host is added with the loop flag unset (count mode and
  one-shot mode), its \<open>resp_times\<close> array has \<open>trials\<close> cells, every cell \<open>n\<close> with
  \<open>1 \<le> n < trials\<close> holds \<open>RESP_UNUSED\<close>, and cell 0 holds what the memory returned
  by \<open>malloc\<close> held: \<open>add_addr\<close> does not write it.
\<close>

theorem add_addr_resp_times:
  assumes "\<not> loop_flag cfg" and "add_addr cfg (Allocated junk) s = Inr s'"
  shows "\<exists>p r. table s' = table s @ [p] \<and> resp_times p = Some r \<and> length r = trials cfg
     \<and> (\<forall>n. 1 \<le> n \<and> n < trials cfg \<longrightarrow> r ! n = RESP_UNUSED)
     \<and> (0 < trials cfg \<longrightarrow> r ! 0 = junk 0)"
proof -
  obtain p where p: "table s' = table s @ [p]"
    "resp_times p = Some (add_addr_fill 1 (trials cfg) (map junk [0 ..< trials cfg]))"
    using add_addr_table [OF assms(2)] assms(1) by auto
  let ?r = "add_addr_fill 1 (trials cfg) (map junk [0 ..< trials cfg])"
  have "length ?r = trials cfg" by (simp add: add_addr_fill_length)
  moreover have "\<forall>n. 1 \<le> n \<and> n < trials cfg \<longrightarrow> ?r ! n = RESP_UNUSED"
    by (simp add: add_addr_fill_from)
  moreover have "0 < trials cfg \<longrightarrow> ?r ! 0 = junk 0"
    by (simp add: add_addr_fill_below)
  ultimately show ?thesis using p
    by (intro exI [of _ p] exI [of _ ?r]) simp
qed

theorem add_addr_resp_times_witness:
  "\<not> loop_flag count3_config \<and>
   (\<exists>s' p r. add_addr count3_config (Allocated junk0) (initial_state 1000) = Inr s'
      \<and> table s' = table (initial_state 1000) @ [p] \<and> resp_times p = Some r
      \<and> length r = trials count3_config \<and> r ! 1 = RESP_UNUSED \<and> r ! 0 = junk0 0)"
proof -
  have l: "\<not> loop_flag count3_config" by (simp add: count3_config_def)
  obtain s' where s': "add_addr count3_config (Allocated junk0) (initial_state 1000) = Inr s'"
    by (simp add: add_addr_def count3_config_def initial_state_def host_add_event_def
        event_slot_def ev_enqueue_def empty_queue_def zero_event_def c_rem_def c_div_def)
  have t: "trials count3_config = 4" by (simp add: count3_config_def)
  from add_addr_resp_times [OF l s'] obtain p r where
    pr: "table s' = table (initial_state 1000) @ [p]" "resp_times p = Some r"
      "length r = trials count3_config"
      "\<forall>n::nat. 1 \<le> n \<and> n < trials count3_config \<longrightarrow> r ! n = RESP_UNUSED"
      "0 < trials count3_config \<longrightarrow> r ! 0 = junk0 0"
    by (elim exE conjE)
  have "r ! 1 = RESP_UNUSED" using pr(4) t by simp
  moreover have "r ! 0 = junk0 0" using pr(5) t by simp
  ultimately show ?thesis using l s' pr(1-3) by blast
qed

section \<open>Effects of the operations on the queues\<close>

text \<open>
  The queue operations change the links of events and nothing else: the time, the
  host and the ping index of an event are written by \<open>host_add_event\<close> only, for the
  one event it enqueues.
\<close>

lemma ev_remove_fields:
  "ev_time (storage (ev_remove q r) x) = ev_time (storage q x)"
  "ev_host (storage (ev_remove q r) x) = ev_host (storage q x)"
  "ping_index (storage (ev_remove q r) x) = ping_index (storage q x)"
  by (simp_all add: ev_remove_def Let_def split: option.splits)

lemma ev_enqueue_fields:
  assumes "ev_enqueue q r = Some q'"
  shows "ev_time (storage q' x) = ev_time (storage q x)"
    and "ev_host (storage q' x) = ev_host (storage q x)"
    and "ping_index (storage q' x) = ping_index (storage q x)"
  using assms
  by (auto simp: ev_enqueue_def Let_def split: option.splits if_splits prod.splits)

lemma event_slot_Inl: "event_slot cfg n idx = Inl e \<Longrightarrow> e = DivisionByZero \<or> e = OutOfBounds"
  by (auto simp: event_slot_def split: if_splits)

lemma host_add_event_Inr:
  assumes "host_add_event cfg n idx t q = Inr q'"
  shows "\<exists>r. event_slot cfg n idx = Inr r
     \<and> ev_time (storage q' r) = t \<and> ev_host (storage q' r) = Some n
     \<and> ping_index (storage q' r) = idx
     \<and> (\<forall>x. x \<noteq> r \<longrightarrow> ev_time (storage q' x) = ev_time (storage q x)
                   \<and> ev_host (storage q' x) = ev_host (storage q x)
                   \<and> ping_index (storage q' x) = ping_index (storage q x))"
proof -
  obtain r where r: "event_slot cfg n idx = Inr r"
    using assms by (auto simp: host_add_event_def split: sum.splits)
  define q1 where "q1 = q\<lparr>storage := (storage q)(r := (storage q r)\<lparr>ev_host := Some n,
                            ping_index := idx, ev_time := t\<rparr>)\<rparr>"
  have e: "ev_enqueue q1 r = Some q'"
    using assms r by (auto simp: host_add_event_def Let_def q1_def split: option.splits)
  have "ev_time (storage q' x) = ev_time (storage q1 x)"
       "ev_host (storage q' x) = ev_host (storage q1 x)"
       "ping_index (storage q' x) = ping_index (storage q1 x)" for x
    using ev_enqueue_fields [OF e] by simp_all
  then show ?thesis using r by (simp add: q1_def)
qed

lemma host_add_event_Inl:
  "host_add_event cfg n idx t q = Inl e \<Longrightarrow> e \<noteq> NullPointer"
  using event_slot_Inl
  by (auto simp: host_add_event_def Let_def split: sum.splits option.splits)

lemma ev_remove_slot_Inl:
  "ev_remove_slot cfg n idx q = Inl e \<Longrightarrow> e \<noteq> NullPointer"
  using event_slot_Inl
  by (auto simp: ev_remove_slot_def split: sum.splits)

lemma host_add_event_index:
  assumes "host_add_event cfg n idx t q = Inr q'"
  shows "0 < event_storage_count cfg"
  using assms
  by (auto simp: host_add_event_def event_slot_def split: sum.splits if_splits)

section \<open>Effects of the operations on the state\<close>

lemma send_ping_Inr:
  assumes "send_ping cfg org clock res n index s = Inr s'"
  shows "n < length (table s)
    \<and> (\<exists>h'. table s' = (table s)[n := h']
          \<and> num_sent h' = (if res = Send_failed then to_int32 (num_sent (table s ! n) + 1)
                           else num_sent (table s ! n))
          \<and> num_recv h' = num_recv (table s ! n)
          \<and> num_recv_total h' = num_recv_total (table s ! n)
          \<and> h_timeout h' = h_timeout (table s ! n)
          \<and> resp_times h' =
               (if loop_flag cfg \<or> res = No_socket then resp_times (table s ! n)
                else map_option (\<lambda>r. r[nat index := (if res = Send_failed then RESP_ERROR else RESP_WAITING)])
                       (resp_times (table s ! n))))
    \<and> history s' = Send org n index (seqmap_next_id (seqmap s)) clock res # history s
    \<and> seqmap s' = snd (seqmap_add (seqmap s) n index clock)
    \<and> current_time_ns s' = clock
    \<and> last_send_time s' = (if res = No_socket then last_send_time s else clock)
    \<and> num_alive s' = num_alive s \<and> num_hosts s' = num_hosts s
    \<and> num_noaddress s' = num_noaddress s \<and> num_unreachable s' = num_unreachable s
    \<and> start_time s' = start_time s \<and> event_queue_ping s' = event_queue_ping s"
proof -
  have n: "n < length (table s)"
    using assms by (simp add: send_ping_def split: if_splits)
  show ?thesis
  proof (cases res)
    case No_socket
    then show ?thesis
      using assms n by (auto simp: send_ping_def seqmap_add_def Let_def)
  next
    case Send_failed
    show ?thesis
    proof (cases "loop_flag cfg")
      case True
      then show ?thesis
        using assms n Send_failed by (auto simp: send_ping_def seqmap_add_def Let_def)
    next
      case False
      then obtain h2 where
        h2: "resp_times_store ((table s ! n)\<lparr>h_last_send_time := clock,
               num_sent := to_int32 (num_sent (table s ! n) + 1),
               num_sent_i := to_int32 (num_sent_i (table s ! n) + 1)\<rparr>)
               index RESP_ERROR = Inr h2"
        using assms n Send_failed
        by (auto simp: send_ping_def seqmap_add_def Let_def split: sum.splits)
      from resp_times_store_Inr [OF h2] obtain r where
        r: "resp_times (table s ! n) = Some r" "0 \<le> index" "nat index < length r"
           "h2 = (table s ! n)\<lparr>h_last_send_time := clock,
               num_sent := to_int32 (num_sent (table s ! n) + 1),
               num_sent_i := to_int32 (num_sent_i (table s ! n) + 1),
               resp_times := Some (r[nat index := RESP_ERROR])\<rparr>"
        by auto
      show ?thesis
        using assms n Send_failed False h2 r(1,4)
        by (auto simp: send_ping_def seqmap_add_def Let_def)
    qed
  next
    case Send_ok
    then obtain q where
      q: "host_add_event cfg n index (clock + h_timeout (table s ! n)) (event_queue_timeout s) = Inr q"
      using assms n by (auto simp: send_ping_def seqmap_add_def Let_def split: sum.splits)
    show ?thesis
    proof (cases "loop_flag cfg")
      case True
      then show ?thesis
        using assms n Send_ok q by (auto simp: send_ping_def seqmap_add_def Let_def)
    next
      case False
      then obtain h2 where
        h2: "resp_times_store ((table s ! n)\<lparr>h_last_send_time := clock\<rparr>) index RESP_WAITING = Inr h2"
        using assms n Send_ok q
        by (auto simp: send_ping_def seqmap_add_def Let_def split: sum.splits)
      from resp_times_store_Inr [OF h2] obtain r where
        r: "resp_times (table s ! n) = Some r" "0 \<le> index" "nat index < length r"
           "h2 = (table s ! n)\<lparr>h_last_send_time := clock,
               resp_times := Some (r[nat index := RESP_WAITING])\<rparr>"
        by auto
      show ?thesis
        using assms n Send_ok False q h2 r(1,4)
        by (auto simp: send_ping_def seqmap_add_def Let_def)
    qed
  qed
qed

lemma send_ping_slot:
  assumes "send_ping cfg org clock res n index s = Inr s'" "\<not> loop_flag cfg" "res \<noteq> No_socket"
  shows "\<exists>r. resp_times (table s ! n) = Some r \<and> 0 \<le> index \<and> nat index < length r"
proof -
  have n: "n < length (table s)"
    using assms(1) by (simp add: send_ping_def split: if_splits)
  show ?thesis
  proof (cases res)
    case No_socket
    then show ?thesis using assms(3) by simp
  next
    case Send_failed
    then obtain h2 where
      "resp_times_store ((table s ! n)\<lparr>h_last_send_time := clock,
           num_sent := to_int32 (num_sent (table s ! n) + 1),
           num_sent_i := to_int32 (num_sent_i (table s ! n) + 1)\<rparr>)
           index RESP_ERROR = Inr h2"
      using assms(1,2) n
      by (auto simp: send_ping_def seqmap_add_def Let_def split: sum.splits)
    from resp_times_store_Inr [OF this] show ?thesis by auto
  next
    case Send_ok
    then obtain q where
      q: "host_add_event cfg n index (clock + h_timeout (table s ! n)) (event_queue_timeout s) = Inr q"
      using assms(1) n by (auto simp: send_ping_def seqmap_add_def Let_def split: sum.splits)
    then obtain h2 where
      "resp_times_store ((table s ! n)\<lparr>h_last_send_time := clock\<rparr>) index RESP_WAITING = Inr h2"
      using assms(1,2) n Send_ok
      by (auto simp: send_ping_def seqmap_add_def Let_def split: sum.splits)
    from resp_times_store_Inr [OF this] show ?thesis by auto
  qed
qed

lemma reply_verdict_Accepted:
  assumes "reply_verdict cfg h idx rtt d = Inr Accepted" "\<not> loop_flag cfg"
  shows "\<exists>r. resp_times h = Some r \<and> 0 \<le> idx \<and> nat idx < length r \<and> r ! nat idx < 0"
proof (cases "resp_times h")
  case None
  then show ?thesis
    using assms by (simp add: reply_verdict_def resp_times_load_def split: if_splits)
next
  case (Some r)
  then show ?thesis
    using assms
    by (cases "0 \<le> idx \<and> nat idx < length r")
       (auto simp: reply_verdict_def resp_times_load_def split: if_splits)
qed

lemma reply_verdict_Inl:
  assumes "reply_verdict cfg h idx rtt d = Inl e"
  shows "\<not> loop_flag cfg \<and>
     ((e = NullPointer \<and> resp_times h = None) \<or> (e = OutOfBounds \<and> resp_times h \<noteq> None))"
proof -
  have "\<not> loop_flag cfg" and "resp_times_load h idx = Inl e"
    using assms by (auto simp: reply_verdict_def split: if_splits sum.splits)
  then show ?thesis using resp_times_load_Inl by blast
qed

lemma accept_reply_Inr:
  assumes "accept_reply cfg n idx rtt s = Inr s'" "n < length (table s)"
  shows "(\<exists>h'. table s' = (table s)[n := h']
          \<and> num_sent h' = to_int32 (num_sent (table s ! n) + 1)
          \<and> num_recv h' = to_int32 (num_recv (table s ! n) + 1)
          \<and> num_recv_total h' = num_recv_total (table s ! n)
          \<and> h_timeout h' = timeout cfg
          \<and> resp_times h' =
               (if \<not> loop_flag cfg \<and> 0 \<le> idx
                then map_option (\<lambda>r. r[nat idx := rtt]) (resp_times (table s ! n))
                else resp_times (table s ! n)))
    \<and> num_alive s' = (if to_int32 (num_recv (table s ! n) + 1) = 1
                      then to_int32 (num_alive s + 1) else num_alive s)
    \<and> history s' = history s \<and> seqmap s' = seqmap s
    \<and> current_time_ns s' = current_time_ns s \<and> last_send_time s' = last_send_time s
    \<and> num_hosts s' = num_hosts s
    \<and> num_noaddress s' = num_noaddress s \<and> num_unreachable s' = num_unreachable s
    \<and> start_time s' = start_time s \<and> event_queue_ping s' = event_queue_ping s"
proof -
  obtain h1 nt where st: "stats_add cfg (table s ! n) idx True rtt (num_timeout s) = Inr (h1, nt)"
    using assms(1) by (auto simp: accept_reply_def split: sum.splits)
  obtain q where q: "ev_remove_slot cfg n idx (event_queue_timeout s) = Inr q"
    using assms(1) st by (auto simp: accept_reply_def split: sum.splits)
  note f = stats_add_Inr [OF st]
  show ?thesis
  proof (cases "num_recv h1 = 1")
    case True
    then show ?thesis
      using assms st q f
      by (cases "fast_reachable cfg \<and>
                 to_uint32 (to_int32 (num_alive s + 1)) \<ge> int (min_reachable cfg)")
         (auto simp: accept_reply_def Let_def)
  next
    case False
    then show ?thesis
      using assms st q f by (auto simp: accept_reply_def Let_def)
  qed
qed

lemma wait_for_reply_cases [consumes 1, case_names Dropped Matched]:
  assumes "wait_for_reply cfg pkt s = Inr s'"
  obtains (Dropped) "table s' = table s" "history s' = history s" "num_alive s' = num_alive s"
  | (Matched) n idx seq rtt vd h' v d where
      "pkt_decoded pkt = Some (seq, d)"
      "seqmap_fetch cfg (seqmap s) seq (pkt_clock pkt) = Some v"
      "n = host_nr v" "idx = ping_count v"
      "n < length (table s)" "table s' = (table s)[n := h']"
      "history s' = Reply n idx seq rtt vd # history s"
      "num_recv_total h' = to_int32 (num_recv_total (table s ! n) + 1)"
      "num_sent h' = (if vd = Accepted then to_int32 (num_sent (table s ! n) + 1)
                      else num_sent (table s ! n))"
      "num_recv h' = (if vd = Accepted then to_int32 (num_recv (table s ! n) + 1)
                      else num_recv (table s ! n))"
      "h_timeout h' = (if vd = Accepted then timeout cfg else h_timeout (table s ! n))"
      "resp_times h' =
         (if vd = Accepted \<and> \<not> loop_flag cfg \<and> 0 \<le> idx
          then map_option (\<lambda>r. r[nat idx := rtt]) (resp_times (table s ! n))
          else resp_times (table s ! n))"
      "num_alive s' =
         (if vd = Accepted \<and> to_int32 (num_recv (table s ! n) + 1) = 1
          then to_int32 (num_alive s + 1) else num_alive s)"
      "vd = Accepted \<and> \<not> loop_flag cfg \<longrightarrow>
         (\<exists>r. resp_times (table s ! n) = Some r \<and> 0 \<le> idx
            \<and> nat idx < length r \<and> r ! nat idx < 0)"
proof (cases "pkt_decoded pkt")
  case None
  then have "table s' = table s" "history s' = history s" "num_alive s' = num_alive s"
    using assms by (auto simp: wait_for_reply_def)
  then show ?thesis by (rule Dropped)
next
  case (Some sd)
  obtain seq d where sd: "sd = (seq, d)" by (cases sd)
  show ?thesis
  proof (cases "seqmap_fetch cfg (seqmap s) seq (pkt_clock pkt)")
    case None
    then have "table s' = table s" "history s' = history s" "num_alive s' = num_alive s"
      using assms Some sd by (auto simp: wait_for_reply_def)
    then show ?thesis by (rule Dropped)
  next
    case v: (Some v)
    define n where "n = host_nr v"
    define idx where "idx = ping_count v"
    define rtt where
      "rtt = (if pkt_recv_time pkt = 0 then pkt_clock pkt else pkt_recv_time pkt) - ping_ts v"
    define h where
      "h = (table s ! n)\<lparr>num_recv_total := to_int32 (num_recv_total (table s ! n) + 1)\<rparr>"
    define s2 where
      "s2 = s\<lparr>current_time_ns := pkt_clock pkt, table := (table s)[n := h],
              num_pingreceived := to_int32 (num_pingreceived s + 1)\<rparr>"
    have n: "n < length (table s)"
      using assms Some sd v by (auto simp: wait_for_reply_def Let_def n_def split: if_splits)
    obtain vd where vd: "reply_verdict cfg h idx rtt d = Inr vd"
      using assms Some sd v n
      by (auto simp: wait_for_reply_def Let_def n_def idx_def rtt_def h_def split: sum.splits)
    define s3 where "s3 = s2\<lparr>history := Reply n idx seq rtt vd # history s2\<rparr>"
    have res: "(if vd = Accepted then accept_reply cfg n idx rtt s3 else Inr s3) = Inr s'"
      using assms Some sd v n vd
      by (auto simp: wait_for_reply_def Let_def n_def idx_def rtt_def h_def s2_def s3_def
          split: if_splits)
    have rt: "resp_times h = resp_times (table s ! n)" by (simp add: h_def)
    have slot: "vd = Accepted \<and> \<not> loop_flag cfg \<longrightarrow>
        (\<exists>r. resp_times (table s ! n) = Some r \<and> 0 \<le> idx \<and> nat idx < length r \<and> r ! nat idx < 0)"
      using reply_verdict_Accepted [of cfg h idx rtt d] vd rt by auto
    show ?thesis
    proof (cases "vd = Accepted")
      case False
      then have "s' = s3" using res by simp
      then show ?thesis
        using False Some sd v n
        by (intro Matched [of seq d v n idx h rtt vd])
           (simp_all add: s3_def s2_def h_def n_def idx_def)
    next
      case True
      then have acc: "accept_reply cfg n idx rtt s3 = Inr s'" using res by simp
      have n3: "n < length (table s3)" using n by (simp add: s3_def s2_def)
      have t3: "table s3 ! n = h" using n by (simp add: s3_def s2_def)
      from accept_reply_Inr [OF acc n3] obtain h' where
        h': "table s' = (table s3)[n := h']"
            "num_sent h' = to_int32 (num_sent h + 1)" "num_recv h' = to_int32 (num_recv h + 1)"
            "num_recv_total h' = num_recv_total h"
            "h_timeout h' = timeout cfg"
            "resp_times h' = (if \<not> loop_flag cfg \<and> 0 \<le> idx
                then map_option (\<lambda>r. r[nat idx := rtt]) (resp_times h) else resp_times h)"
        and rest: "num_alive s' = (if to_int32 (num_recv h + 1) = 1
                                   then to_int32 (num_alive s3 + 1) else num_alive s3)"
           "history s' = history s3"
        unfolding t3 by blast
      have tab: "table s' = (table s)[n := h']"
        using h'(1) by (simp add: s3_def s2_def)
      show ?thesis
        using True Some sd v n slot tab h'(2-6) rest
        by (intro Matched [of seq d v n idx h' rtt vd])
           (simp_all add: s3_def s2_def h_def n_def idx_def)
    qed
  qed
qed

lemma wait_for_reply_frame:
  assumes "wait_for_reply cfg pkt s = Inr s'"
  shows "current_time_ns s' = pkt_clock pkt" "seqmap s' = seqmap s"
    "last_send_time s' = last_send_time s" "start_time s' = start_time s"
    "event_queue_ping s' = event_queue_ping s" "num_hosts s' = num_hosts s"
    "num_noaddress s' = num_noaddress s" "num_unreachable s' = num_unreachable s"
    "length (table s') = length (table s)"
proof -
  have "current_time_ns s' = pkt_clock pkt \<and> seqmap s' = seqmap s
    \<and> last_send_time s' = last_send_time s \<and> start_time s' = start_time s
    \<and> event_queue_ping s' = event_queue_ping s \<and> num_hosts s' = num_hosts s
    \<and> num_noaddress s' = num_noaddress s \<and> num_unreachable s' = num_unreachable s
    \<and> length (table s') = length (table s)"
  proof (cases "pkt_decoded pkt")
    case None
    then show ?thesis using assms by (auto simp: wait_for_reply_def)
  next
    case (Some sd)
    obtain seq d where sd: "sd = (seq, d)" by (cases sd)
    show ?thesis
    proof (cases "seqmap_fetch cfg (seqmap s) seq (pkt_clock pkt)")
      case None
      then show ?thesis using assms Some sd by (auto simp: wait_for_reply_def)
    next
      case v: (Some v)
      define n where "n = host_nr v"
      define idx where "idx = ping_count v"
      define rtt where
        "rtt = (if pkt_recv_time pkt = 0 then pkt_clock pkt else pkt_recv_time pkt) - ping_ts v"
      define h where
        "h = (table s ! n)\<lparr>num_recv_total := to_int32 (num_recv_total (table s ! n) + 1)\<rparr>"
      define s2 where
        "s2 = s\<lparr>current_time_ns := pkt_clock pkt, table := (table s)[n := h],
                num_pingreceived := to_int32 (num_pingreceived s + 1)\<rparr>"
      have n: "n < length (table s)"
        using assms Some sd v by (auto simp: wait_for_reply_def Let_def n_def split: if_splits)
      obtain vd where vd: "reply_verdict cfg h idx rtt d = Inr vd"
        using assms Some sd v n
        by (auto simp: wait_for_reply_def Let_def n_def idx_def rtt_def h_def split: sum.splits)
      define s3 where "s3 = s2\<lparr>history := Reply n idx seq rtt vd # history s2\<rparr>"
      have res: "(if vd = Accepted then accept_reply cfg n idx rtt s3 else Inr s3) = Inr s'"
        using assms Some sd v n vd
        by (auto simp: wait_for_reply_def Let_def n_def idx_def rtt_def h_def s2_def s3_def
            split: if_splits)
      show ?thesis
      proof (cases "vd = Accepted")
        case False
        then have "s' = s3" using res by simp
        then show ?thesis by (simp add: s3_def s2_def)
      next
        case True
        then have acc: "accept_reply cfg n idx rtt s3 = Inr s'" using res by simp
        have n3: "n < length (table s3)" using n by (simp add: s3_def s2_def)
        from accept_reply_Inr [OF acc n3] obtain h' where
          "table s' = (table s3)[n := h']"
          and "seqmap s' = seqmap s3"
           "current_time_ns s' = current_time_ns s3" "last_send_time s' = last_send_time s3"
           "num_hosts s' = num_hosts s3" "num_noaddress s' = num_noaddress s3"
           "num_unreachable s' = num_unreachable s3" "start_time s' = start_time s3"
           "event_queue_ping s' = event_queue_ping s3"
          by blast
        then show ?thesis by (simp add: s3_def s2_def)
      qed
    qed
  qed
  then show "current_time_ns s' = pkt_clock pkt" "seqmap s' = seqmap s"
    "last_send_time s' = last_send_time s" "start_time s' = start_time s"
    "event_queue_ping s' = event_queue_ping s" "num_hosts s' = num_hosts s"
    "num_noaddress s' = num_noaddress s" "num_unreachable s' = num_unreachable s"
    "length (table s') = length (table s)"
    by simp_all
qed

lemma timeout_event_cases:
  assumes "timeout_event cfg inp ev s = Inr s'"
  shows "\<exists>n h1 nt. ev_host ev = Some n \<and> n < length (table s)
     \<and> stats_add cfg (table s ! n) (ping_index ev) False (- 1) (num_timeout s) = Inr (h1, nt)
     \<and> (let s1 = s\<lparr>table := (table s)[n := h1], num_timeout := nt,
                     history := Timed_out n (ping_index ev) # history s\<rparr>;
             again = (\<not> loop_flag cfg \<and> \<not> count_flag cfg
                      \<and> to_uint32 (num_sent h1) < to_uint32 (int (retry cfg) + 1))
         in (\<not> again \<and> s' = s1) \<or>
            (again \<and>
             send_ping cfg Retry (in_send_clock inp) (in_send_result inp) n (ping_index ev)
               (if backoff_flag cfg
                then s1\<lparr>table := (table s1)[n :=
                         (table s1 ! n)\<lparr>h_timeout := backoff_mul (backoff cfg) (h_timeout h1)\<rparr>]\<rparr>
                else s1) = Inr s'))"
proof -
  obtain n where h: "ev_host ev = Some n"
    using assms by (auto simp: timeout_event_def split: option.splits)
  have n: "n < length (table s)"
    using assms h by (simp add: timeout_event_def split: if_splits)
  obtain h1 nt where
    st: "stats_add cfg (table s ! n) (ping_index ev) False (- 1) (num_timeout s) = Inr (h1, nt)"
    using assms h n by (auto simp: timeout_event_def split: sum.splits)
  show ?thesis
    using assms h n st
    by (auto simp: timeout_event_def Let_def split: if_splits)
qed

lemma ping_event_cases:
  assumes "ping_event cfg inp s = Inr s'"
  shows "s' = s \<or>
    (\<exists>r n s1.
        q_first (event_queue_ping s) = Some r
      \<and> ev_time (storage (event_queue_ping s) r) \<le> current_time_ns s
      \<and> interval cfg \<le> current_time_ns s - last_send_time s
      \<and> ev_host (storage (event_queue_ping s) r) = Some n
      \<and> send_ping cfg Ping_event (in_send_clock inp) (in_send_result inp) n
           (ping_index (storage (event_queue_ping s) r))
           (s\<lparr>event_queue_ping := ev_remove (event_queue_ping s) r\<rparr>) = Inr s1
      \<and> (s' = s1 \<or>
          (\<exists>q1. host_add_event cfg n (to_int32 (ping_index (storage (event_queue_ping s) r) + 1))
                  (ev_time (storage (event_queue_ping s) r) + perhost_interval cfg)
                  (event_queue_ping s1) = Inr q1
             \<and> s' = s1\<lparr>event_queue_ping := q1\<rparr>)))"
proof (cases "q_first (event_queue_ping s)")
  case None
  then show ?thesis using assms by (simp add: ping_event_def)
next
  case (Some r)
  define q where "q = ev_remove (event_queue_ping s) r"
  show ?thesis
  proof (cases "ev_time (storage (event_queue_ping s) r) - current_time_ns s \<le> 0
                \<and> \<not> current_time_ns s - last_send_time s < interval cfg")
    case False
    then show ?thesis using assms Some by (auto simp: ping_event_def split: if_splits)
  next
    case True
    then obtain n where n: "ev_host (storage q r) = Some n"
      using assms Some by (auto simp: ping_event_def Let_def q_def split: option.splits)
    obtain s1 where
      s1: "send_ping cfg Ping_event (in_send_clock inp) (in_send_result inp) n
             (ping_index (storage q r)) (s\<lparr>event_queue_ping := q\<rparr>) = Inr s1"
      using assms Some True n
      by (auto simp: ping_event_def Let_def q_def split: sum.splits)
    have "event_queue_ping s1 = q" using send_ping_Inr [OF s1] by simp
    then have g: "storage (event_queue_ping s1) r = storage q r" by simp
    have res: "(if loop_flag cfg \<or>
                   (count_flag cfg \<and> to_uint32 (ping_index (storage q r) + 1) < int (count cfg))
                then (case host_add_event cfg n (to_int32 (ping_index (storage q r) + 1))
                             (ev_time (storage q r) + perhost_interval cfg) (event_queue_ping s1) of
                        Inl e \<Rightarrow> Inl e
                      | Inr q1 \<Rightarrow> Inr (s1\<lparr>event_queue_ping := q1\<rparr>))
                else Inr s1) = Inr s'"
      using assms Some True n s1 g
      by (auto simp: ping_event_def Let_def q_def split: if_splits)
    have alt: "s' = s1 \<or>
          (\<exists>q1. host_add_event cfg n (to_int32 (ping_index (storage q r) + 1))
                  (ev_time (storage q r) + perhost_interval cfg) (event_queue_ping s1) = Inr q1
             \<and> s' = s1\<lparr>event_queue_ping := q1\<rparr>)"
      using res by (auto split: if_splits sum.splits)
    show ?thesis
      using Some True n s1 alt unfolding q_def
      by (intro disjI2 exI [of _ r] exI [of _ n] exI [of _ s1]) (simp add: ev_remove_fields)
  qed
qed

lemma main_loop_body_cases:
  assumes "main_loop_body cfg inp s = Inr (c, s')"
  shows "(\<exists>r. q_first (event_queue_timeout s) = Some r
            \<and> ev_time (storage (event_queue_timeout s) r) \<le> current_time_ns s
            \<and> timeout_event cfg inp (storage (ev_remove (event_queue_timeout s) r) r)
                 (s\<lparr>event_queue_timeout := ev_remove (event_queue_timeout s) r\<rparr>) = Inr s')
    \<or> (\<exists>s1. ping_event cfg inp s = Inr s1
          \<and> (s' = s1
             \<or> s' = s1\<lparr>finish_requested := (finish_requested s1 \<or> in_sigint inp)\<rparr>
             \<or> (\<exists>s3. wait_for_replies cfg (in_packets inp)
                        (s1\<lparr>finish_requested := (finish_requested s1 \<or> in_sigint inp)\<rparr>) = Inr s3
                  \<and> (s' = print_report cfg inp (s3\<lparr>current_time_ns := in_wake_clock inp\<rparr>)
                     \<or> s' = print_report cfg inp
                          (print_per_system_splits cfg (in_snapshot_clock inp)
                             (s3\<lparr>current_time_ns := in_wake_clock inp\<rparr>))))))"
proof (cases "case q_first (event_queue_timeout s) of
                None \<Rightarrow> None
              | Some r \<Rightarrow>
                  if ev_time (storage (event_queue_timeout s) r) - current_time_ns s \<le> 0
                  then Some r else None")
  case (Some r)
  have q: "q_first (event_queue_timeout s) = Some r"
      "ev_time (storage (event_queue_timeout s) r) \<le> current_time_ns s"
    using Some by (auto split: option.splits if_splits)
  show ?thesis
    using assms Some q
    by (auto simp: main_loop_body_def Let_def split: sum.splits)
next
  case None
  then obtain s1 where s1: "ping_event cfg inp s = Inr s1"
    using assms by (auto simp: main_loop_body_def split: sum.splits)
  show ?thesis
    using assms None s1
    by (auto simp: main_loop_body_def Let_def split: if_splits sum.splits)
qed

section \<open>Invariants of the main loop\<close>

text \<open>
  A property of the state is kept by \<open>main_loop\<close> if it does not depend on the
  queues, the clock, the report time and \<open>finish_requested\<close> and is kept by
  \<open>send_ping\<close>, by the statistics update of a timeout, by the backoff, by
  \<open>wait_for_reply\<close> and by the reset of the interval statistics.  A property that
  depends on more is kept if the two branches of the loop body keep it.
\<close>

lemma wait_for_replies_preserves:
  assumes reply: "\<And>pkt s s'. wait_for_reply cfg pkt s = Inr s' \<Longrightarrow> P s \<Longrightarrow> P s'"
    and "P s" "wait_for_replies cfg pkts s = Inr s'"
  shows "P s'"
  using assms(2,3)
proof (induction pkts arbitrary: s)
  case Nil
  then show ?case by simp
next
  case (Cons p ps)
  then obtain s1 where s1: "wait_for_reply cfg p s = Inr s1" "wait_for_replies cfg ps s1 = Inr s'"
    by (auto split: sum.splits)
  have "P s1" using reply s1(1) Cons.prems(1) by blast
  then show ?case using Cons.IH s1(2) by blast
qed

lemma print_per_system_splits_preserves:
  assumes fr_now: "\<And>s c. P (s\<lparr>current_time_ns := c\<rparr>) = P s"
    and reset: "\<And>s. P s \<Longrightarrow> P (for_hosts stats_reset_interval s)"
    and "P s"
  shows "P (print_per_system_splits cfg c s)"
  using assms by (simp add: print_per_system_splits_def Let_def)

lemma print_report_preserves:
  assumes fr_now: "\<And>s c. P (s\<lparr>current_time_ns := c\<rparr>) = P s"
    and fr_nrt: "\<And>s c. P (s\<lparr>next_report_time := c\<rparr>) = P s"
    and reset: "\<And>s. P s \<Longrightarrow> P (for_hosts stats_reset_interval s)"
    and "P s"
  shows "P (print_report cfg inp s)"
proof -
  have "P (print_per_system_splits cfg (in_report_clock inp) s)"
    using fr_now reset \<open>P s\<close> by (rule print_per_system_splits_preserves)
  moreover have "P (print_netdata s)"
    using reset \<open>P s\<close> by (simp add: print_netdata_def)
  ultimately show ?thesis
    using \<open>P s\<close> fr_nrt by (simp add: print_report_def Let_def)
qed

lemma timeout_event_preserves:
  assumes send: "\<And>clock res n idx s s'.
        send_ping cfg Retry clock res n idx s = Inr s' \<Longrightarrow> P s \<Longrightarrow> P s'"
    and tmo: "\<And>s n idx h1 nt.
        stats_add cfg (table s ! n) idx False (- 1) (num_timeout s) = Inr (h1, nt) \<Longrightarrow>
        n < length (table s) \<Longrightarrow> P s \<Longrightarrow>
        P (s\<lparr>table := (table s)[n := h1], num_timeout := nt,
              history := Timed_out n idx # history s\<rparr>)"
    and backoff: "\<And>s n x. n < length (table s) \<Longrightarrow> P s \<Longrightarrow>
        P (s\<lparr>table := (table s)[n := (table s ! n)\<lparr>h_timeout := x\<rparr>]\<rparr>)"
    and "P s" "timeout_event cfg inp ev s = Inr s'"
  shows "P s'"
proof -
  from timeout_event_cases [OF assms(5)] obtain n h1 nt where
    n: "n < length (table s)"
    and st: "stats_add cfg (table s ! n) (ping_index ev) False (- 1) (num_timeout s) = Inr (h1, nt)"
    and alt: "let s1 = s\<lparr>table := (table s)[n := h1], num_timeout := nt,
                     history := Timed_out n (ping_index ev) # history s\<rparr>;
             again = (\<not> loop_flag cfg \<and> \<not> count_flag cfg
                      \<and> to_uint32 (num_sent h1) < to_uint32 (int (retry cfg) + 1))
         in (\<not> again \<and> s' = s1) \<or>
            (again \<and>
             send_ping cfg Retry (in_send_clock inp) (in_send_result inp) n (ping_index ev)
               (if backoff_flag cfg
                then s1\<lparr>table := (table s1)[n :=
                         (table s1 ! n)\<lparr>h_timeout := backoff_mul (backoff cfg) (h_timeout h1)\<rparr>]\<rparr>
                else s1) = Inr s')"
    by blast
  define s1 where "s1 = s\<lparr>table := (table s)[n := h1], num_timeout := nt,
                     history := Timed_out n (ping_index ev) # history s\<rparr>"
  define s2 where "s2 = (if backoff_flag cfg
                then s1\<lparr>table := (table s1)[n :=
                         (table s1 ! n)\<lparr>h_timeout := backoff_mul (backoff cfg) (h_timeout h1)\<rparr>]\<rparr>
                else s1)"
  have p1: "P s1" unfolding s1_def using st n \<open>P s\<close> by (rule tmo)
  have n1: "n < length (table s1)" using n by (simp add: s1_def)
  have "P (s1\<lparr>table := (table s1)[n :=
                 (table s1 ! n)\<lparr>h_timeout := backoff_mul (backoff cfg) (h_timeout h1)\<rparr>]\<rparr>)"
    using n1 p1 by (rule backoff)
  then have p2: "P s2" using p1 by (simp add: s2_def)
  from alt have "s' = s1 \<or>
      send_ping cfg Retry (in_send_clock inp) (in_send_result inp) n (ping_index ev) s2 = Inr s'"
    unfolding s1_def [symmetric] s2_def [symmetric] Let_def by blast
  then show ?thesis using p1 p2 send by blast
qed

lemma ping_event_preserves:
  assumes fr_pq: "\<And>s q. P (s\<lparr>event_queue_ping := q\<rparr>) = P s"
    and send: "\<And>clock res n idx s s'.
        send_ping cfg Ping_event clock res n idx s = Inr s' \<Longrightarrow> P s \<Longrightarrow> P s'"
    and "P s" "ping_event cfg inp s = Inr s'"
  shows "P s'"
proof -
  from ping_event_cases [OF assms(4)] show ?thesis
  proof
    assume "s' = s" then show ?thesis using \<open>P s\<close> by simp
  next
    assume "\<exists>r n s1.
        q_first (event_queue_ping s) = Some r
      \<and> ev_time (storage (event_queue_ping s) r) \<le> current_time_ns s
      \<and> interval cfg \<le> current_time_ns s - last_send_time s
      \<and> ev_host (storage (event_queue_ping s) r) = Some n
      \<and> send_ping cfg Ping_event (in_send_clock inp) (in_send_result inp) n
           (ping_index (storage (event_queue_ping s) r))
           (s\<lparr>event_queue_ping := ev_remove (event_queue_ping s) r\<rparr>) = Inr s1
      \<and> (s' = s1 \<or>
          (\<exists>q1. host_add_event cfg n (to_int32 (ping_index (storage (event_queue_ping s) r) + 1))
                  (ev_time (storage (event_queue_ping s) r) + perhost_interval cfg)
                  (event_queue_ping s1) = Inr q1
             \<and> s' = s1\<lparr>event_queue_ping := q1\<rparr>))"
    then obtain r n s1 where
      sp: "send_ping cfg Ping_event (in_send_clock inp) (in_send_result inp) n
           (ping_index (storage (event_queue_ping s) r))
           (s\<lparr>event_queue_ping := ev_remove (event_queue_ping s) r\<rparr>) = Inr s1"
      and alt: "s' = s1 \<or> (\<exists>q. s' = s1\<lparr>event_queue_ping := q\<rparr>)"
      by blast
    have "P (s\<lparr>event_queue_ping := ev_remove (event_queue_ping s) r\<rparr>)"
      using \<open>P s\<close> fr_pq by simp
    then have "P s1" using sp send by blast
    then show ?thesis using alt fr_pq by auto
  qed
qed

lemma main_loop_body_branches:
  assumes fr_fin: "\<And>s b. P (s\<lparr>finish_requested := b\<rparr>) = P s"
    and fr_now: "\<And>s c. P (s\<lparr>current_time_ns := c\<rparr>) = P s"
    and fr_nrt: "\<And>s c. P (s\<lparr>next_report_time := c\<rparr>) = P s"
    and tev: "\<And>r s1. q_first (event_queue_timeout s) = Some r \<Longrightarrow>
        ev_time (storage (event_queue_timeout s) r) \<le> current_time_ns s \<Longrightarrow>
        timeout_event cfg inp (storage (ev_remove (event_queue_timeout s) r) r)
          (s\<lparr>event_queue_timeout := ev_remove (event_queue_timeout s) r\<rparr>) = Inr s1 \<Longrightarrow> P s1"
    and pev: "\<And>s1. ping_event cfg inp s = Inr s1 \<Longrightarrow> P s1"
    and reply: "\<And>pkt s s'. wait_for_reply cfg pkt s = Inr s' \<Longrightarrow> P s \<Longrightarrow> P s'"
    and reset: "\<And>s. P s \<Longrightarrow> P (for_hosts stats_reset_interval s)"
    and "main_loop_body cfg inp s = Inr (c, s')"
  shows "P s'"
proof -
  from main_loop_body_cases [OF assms(8)] show ?thesis
  proof
    assume "\<exists>r. q_first (event_queue_timeout s) = Some r
            \<and> ev_time (storage (event_queue_timeout s) r) \<le> current_time_ns s
            \<and> timeout_event cfg inp (storage (ev_remove (event_queue_timeout s) r) r)
                 (s\<lparr>event_queue_timeout := ev_remove (event_queue_timeout s) r\<rparr>) = Inr s'"
    then show ?thesis using tev by blast
  next
    assume "\<exists>s1. ping_event cfg inp s = Inr s1
          \<and> (s' = s1
             \<or> s' = s1\<lparr>finish_requested := (finish_requested s1 \<or> in_sigint inp)\<rparr>
             \<or> (\<exists>s3. wait_for_replies cfg (in_packets inp)
                        (s1\<lparr>finish_requested := (finish_requested s1 \<or> in_sigint inp)\<rparr>) = Inr s3
                  \<and> (s' = print_report cfg inp (s3\<lparr>current_time_ns := in_wake_clock inp\<rparr>)
                     \<or> s' = print_report cfg inp
                          (print_per_system_splits cfg (in_snapshot_clock inp)
                             (s3\<lparr>current_time_ns := in_wake_clock inp\<rparr>)))))"
    then obtain s1 where pe: "ping_event cfg inp s = Inr s1"
      and alt: "s' = s1
             \<or> s' = s1\<lparr>finish_requested := (finish_requested s1 \<or> in_sigint inp)\<rparr>
             \<or> (\<exists>s3. wait_for_replies cfg (in_packets inp)
                        (s1\<lparr>finish_requested := (finish_requested s1 \<or> in_sigint inp)\<rparr>) = Inr s3
                  \<and> (s' = print_report cfg inp (s3\<lparr>current_time_ns := in_wake_clock inp\<rparr>)
                     \<or> s' = print_report cfg inp
                          (print_per_system_splits cfg (in_snapshot_clock inp)
                             (s3\<lparr>current_time_ns := in_wake_clock inp\<rparr>))))"
      by blast
    have p1: "P s1" using pe by (rule pev)
    then have p2: "P (s1\<lparr>finish_requested := (finish_requested s1 \<or> in_sigint inp)\<rparr>)"
      using fr_fin by simp
    {
      fix s3
      assume w: "wait_for_replies cfg (in_packets inp)
                   (s1\<lparr>finish_requested := (finish_requested s1 \<or> in_sigint inp)\<rparr>) = Inr s3"
      have "P s3" using reply p2 w by (rule wait_for_replies_preserves)
      then have p4: "P (s3\<lparr>current_time_ns := in_wake_clock inp\<rparr>)" using fr_now by simp
      have p5: "P (print_per_system_splits cfg (in_snapshot_clock inp)
                  (s3\<lparr>current_time_ns := in_wake_clock inp\<rparr>))"
        using fr_now reset p4 by (rule print_per_system_splits_preserves)
      have "P (print_report cfg inp (s3\<lparr>current_time_ns := in_wake_clock inp\<rparr>))"
        using fr_now fr_nrt reset p4 by (rule print_report_preserves)
      moreover have "P (print_report cfg inp
                          (print_per_system_splits cfg (in_snapshot_clock inp)
                             (s3\<lparr>current_time_ns := in_wake_clock inp\<rparr>)))"
        using fr_now fr_nrt reset p5 by (rule print_report_preserves)
      ultimately have "P (print_report cfg inp (s3\<lparr>current_time_ns := in_wake_clock inp\<rparr>))
        \<and> P (print_report cfg inp
                          (print_per_system_splits cfg (in_snapshot_clock inp)
                             (s3\<lparr>current_time_ns := in_wake_clock inp\<rparr>)))" by simp
    }
    then show ?thesis using alt p1 p2 by auto
  qed
qed

lemma main_loop_body_preserves:
  assumes fr_tq: "\<And>s q. P (s\<lparr>event_queue_timeout := q\<rparr>) = P s"
    and fr_pq: "\<And>s q. P (s\<lparr>event_queue_ping := q\<rparr>) = P s"
    and fr_fin: "\<And>s b. P (s\<lparr>finish_requested := b\<rparr>) = P s"
    and fr_now: "\<And>s c. P (s\<lparr>current_time_ns := c\<rparr>) = P s"
    and fr_nrt: "\<And>s c. P (s\<lparr>next_report_time := c\<rparr>) = P s"
    and send: "\<And>org clock res n idx s s'.
        send_ping cfg org clock res n idx s = Inr s' \<Longrightarrow> P s \<Longrightarrow> P s'"
    and tmo: "\<And>s n idx h1 nt.
        stats_add cfg (table s ! n) idx False (- 1) (num_timeout s) = Inr (h1, nt) \<Longrightarrow>
        n < length (table s) \<Longrightarrow> P s \<Longrightarrow>
        P (s\<lparr>table := (table s)[n := h1], num_timeout := nt,
              history := Timed_out n idx # history s\<rparr>)"
    and backoff: "\<And>s n x. n < length (table s) \<Longrightarrow> P s \<Longrightarrow>
        P (s\<lparr>table := (table s)[n := (table s ! n)\<lparr>h_timeout := x\<rparr>]\<rparr>)"
    and reply: "\<And>pkt s s'. wait_for_reply cfg pkt s = Inr s' \<Longrightarrow> P s \<Longrightarrow> P s'"
    and reset: "\<And>s. P s \<Longrightarrow> P (for_hosts stats_reset_interval s)"
    and "P s" "main_loop_body cfg inp s = Inr (c, s')"
  shows "P s'"
  using fr_fin fr_now fr_nrt
proof (rule main_loop_body_branches [where P = P, OF _ _ _ _ _ reply reset assms(12)])
  fix r s1
  assume te: "timeout_event cfg inp (storage (ev_remove (event_queue_timeout s) r) r)
          (s\<lparr>event_queue_timeout := ev_remove (event_queue_timeout s) r\<rparr>) = Inr s1"
  have "P (s\<lparr>event_queue_timeout := ev_remove (event_queue_timeout s) r\<rparr>)"
    using \<open>P s\<close> fr_tq by simp
  with send [of Retry] tmo backoff show "P s1" using te by (rule timeout_event_preserves)
next
  fix s1
  assume pe: "ping_event cfg inp s = Inr s1"
  from fr_pq send [of Ping_event] \<open>P s\<close> pe show "P s1" by (rule ping_event_preserves)
qed

lemma main_loop_preserves:
  assumes body: "\<And>inp s c s'. main_loop_body cfg inp s = Inr (c, s') \<Longrightarrow> P s \<Longrightarrow> P s'"
    and "P s" "main_loop cfg inps s = Inr (b, s')"
  shows "P s'"
  using assms(2,3)
proof (induction inps arbitrary: s)
  case Nil
  then show ?case by simp
next
  case (Cons inp inps)
  show ?case
  proof (cases "q_first (event_queue_ping s) = None \<and> q_first (event_queue_timeout s) = None")
    case True
    then show ?thesis using Cons.prems by simp
  next
    case False
    then obtain c s1 where b1: "main_loop_body cfg inp s = Inr (c, s1)"
      using Cons.prems(2) by (auto split: sum.splits)
    have p1: "P s1" using body b1 Cons.prems(1) by blast
    show ?thesis
    proof (cases c)
      case Continue
      then have "main_loop cfg inps s1 = Inr (b, s')"
        using Cons.prems(2) False b1 by simp
      then show ?thesis using Cons.IH p1 by blast
    next
      case Break
      then have "s' = s1" using Cons.prems(2) False b1 by simp
      then show ?thesis using p1 by simp
    qed
  qed
qed

section \<open>The events of the queues\<close>

text \<open>
  Every event that the queues point to has been written by \<open>host_add_event\<close>, so that
  its host is not the null pointer.
\<close>

lemma queue_written_empty: "queue_written empty_queue"
  by (simp add: queue_written_def empty_queue_def zero_event_def)

lemma queue_written_remove:
  assumes "queue_written q"
  shows "queue_written (ev_remove q r)"
proof -
  have h: "ev_host (storage (ev_remove q r) x) = ev_host (storage q x)" for x
    by (rule ev_remove_fields)
  have f: "q_first (ev_remove q r) = Some y \<Longrightarrow> ev_host (storage q y) \<noteq> None" for y
    using assms
    by (auto simp: ev_remove_def Let_def queue_written_def
             simp del: split_paired_All split_paired_Ex split: if_splits option.splits)
  have l: "q_last (ev_remove q r) = Some y \<Longrightarrow> ev_host (storage q y) \<noteq> None" for y
    using assms
    by (auto simp: ev_remove_def Let_def queue_written_def
             simp del: split_paired_All split_paired_Ex split: if_splits option.splits)
  have p: "ev_prev (storage (ev_remove q r) x) = Some y \<Longrightarrow> ev_host (storage q y) \<noteq> None" for x y
    using assms
    by (auto simp: ev_remove_def Let_def queue_written_def
             simp del: split_paired_All split_paired_Ex split: if_splits option.splits)
  have n: "ev_next (storage (ev_remove q r) x) = Some y \<Longrightarrow> ev_host (storage q y) \<noteq> None" for x y
    using assms
    by (auto simp: ev_remove_def Let_def queue_written_def
             simp del: split_paired_All split_paired_Ex split: if_splits option.splits)
  show ?thesis
    unfolding queue_written_def h using f l p n by blast
qed

lemma ev_scan_written:
  assumes "ev_scan st t i = Some (po, j)"
    and "\<forall>x r. ev_prev (st x) = Some r \<longrightarrow> ev_host (st r) \<noteq> None"
    and "ev_host (st i) \<noteq> None"
  shows "ev_host (st j) \<noteq> None \<and> (\<forall>p. po = Some p \<longrightarrow> ev_host (st p) \<noteq> None)"
proof -
  have "(\<forall>x r. ev_prev (st x) = Some r \<longrightarrow> ev_host (st r) \<noteq> None) \<longrightarrow>
        ev_host (st i) \<noteq> None \<longrightarrow>
        ev_host (st (snd (po, j))) \<noteq> None
        \<and> (\<forall>p. fst (po, j) = Some p \<longrightarrow> ev_host (st p) \<noteq> None)"
  proof (rule ev_scan.raw_induct [where P = "\<lambda>st t i y.
        (\<forall>x r. ev_prev (st x) = Some r \<longrightarrow> ev_host (st r) \<noteq> None) \<longrightarrow>
        ev_host (st i) \<noteq> None \<longrightarrow>
        ev_host (st (snd y)) \<noteq> None \<and> (\<forall>p. fst y = Some p \<longrightarrow> ev_host (st p) \<noteq> None)",
        OF _ assms(1)])
    fix f :: "(ev_ref \<Rightarrow> event) \<Rightarrow> int \<Rightarrow> ev_ref \<Rightarrow> (ev_ref option \<times> ev_ref) option"
      and st t i y
    assume ih: "\<And>st t i y. f st t i = Some y \<Longrightarrow>
        (\<forall>x r. ev_prev (st x) = Some r \<longrightarrow> ev_host (st r) \<noteq> None) \<longrightarrow>
        ev_host (st i) \<noteq> None \<longrightarrow>
        ev_host (st (snd y)) \<noteq> None \<and> (\<forall>p. fst y = Some p \<longrightarrow> ev_host (st p) \<noteq> None)"
      and eq: "(case ev_prev (st i) of
                  None \<Rightarrow> Some (None, i)
                | Some p \<Rightarrow> if t - ev_time (st p) \<ge> 0 then Some (Some p, i) else f st t p) = Some y"
    show "(\<forall>x r. ev_prev (st x) = Some r \<longrightarrow> ev_host (st r) \<noteq> None) \<longrightarrow>
        ev_host (st i) \<noteq> None \<longrightarrow>
        ev_host (st (snd y)) \<noteq> None \<and> (\<forall>p. fst y = Some p \<longrightarrow> ev_host (st p) \<noteq> None)"
    proof (intro impI)
      assume a: "\<forall>x r. ev_prev (st x) = Some r \<longrightarrow> ev_host (st r) \<noteq> None"
        and b: "ev_host (st i) \<noteq> None"
      show "ev_host (st (snd y)) \<noteq> None \<and> (\<forall>p. fst y = Some p \<longrightarrow> ev_host (st p) \<noteq> None)"
      proof (cases "ev_prev (st i)")
        case None
        then have "y = (None, i)" using eq by simp
        then show ?thesis using b by simp
      next
        case (Some p)
        have wp: "ev_host (st p) \<noteq> None" using a Some by blast
        show ?thesis
        proof (cases "t - ev_time (st p) \<ge> 0")
          case True
          then have "y = (Some p, i)" using eq Some by simp
          then show ?thesis using b wp by simp
        next
          case False
          then have "f st t p = Some y" using eq Some by simp
          from ih [OF this] a wp show ?thesis by blast
        qed
      qed
    qed
  qed
  then show ?thesis using assms(2,3) by simp
qed

lemma queue_written_enqueue:
  assumes "queue_written q" "ev_host (storage q r) \<noteq> None" "ev_enqueue q r = Some q'"
  shows "queue_written q'"
proof -
  have h: "ev_host (storage q' x) = ev_host (storage q x)" for x
    using assms(3) by (rule ev_enqueue_fields)
  show ?thesis
  proof (cases "q_last q")
    case None
    then have "q' = q\<lparr>storage := (storage q)(r := (storage q r)\<lparr>ev_next := None, ev_prev := None\<rparr>),
                      q_first := Some r, q_last := Some r\<rparr>"
      using assms(3) by (simp add: ev_enqueue_def Let_def)
    then show ?thesis
      using assms(1,2)
      by (auto simp: queue_written_def simp del: split_paired_All split_paired_Ex)
  next
    case (Some l)
    have wl: "ev_host (storage q l) \<noteq> None" using assms(1) Some by (simp add: queue_written_def)
    show ?thesis
    proof (cases "ev_time (storage q r) - ev_time (storage q l) \<ge> 0")
      case True
      then have "q' = q\<lparr>storage := ((storage q)(r := (storage q r)\<lparr>ev_next := None, ev_prev := Some l\<rparr>))
                           (l := (((storage q)(r := (storage q r)\<lparr>ev_next := None, ev_prev := Some l\<rparr>)) l)
                               \<lparr>ev_next := Some r\<rparr>),
                        q_last := Some r\<rparr>"
        using assms(3) Some by (simp add: ev_enqueue_def Let_def)
      then show ?thesis
        using assms(1,2) wl
        by (auto simp: queue_written_def simp del: split_paired_All split_paired_Ex)
    next
      case False
      then obtain po j where sc: "ev_scan (storage q) (ev_time (storage q r)) l = Some (po, j)"
        using assms(3) Some by (auto simp: ev_enqueue_def Let_def split: option.splits)
      have pw: "\<forall>x y. ev_prev (storage q x) = Some y \<longrightarrow> ev_host (storage q y) \<noteq> None"
        using assms(1) by (simp add: queue_written_def)
      from ev_scan_written [OF sc pw wl]
      have wj: "ev_host (storage q j) \<noteq> None"
        and wp: "\<And>p. po = Some p \<Longrightarrow> ev_host (storage q p) \<noteq> None"
        by blast+
      show ?thesis
      proof (cases po)
        case None
        then have "q' = q\<lparr>storage := ((storage q)(r := (storage q r)\<lparr>ev_prev := None, ev_next := Some j\<rparr>))
                           (j := (((storage q)(r := (storage q r)\<lparr>ev_prev := None, ev_next := Some j\<rparr>)) j)
                               \<lparr>ev_prev := Some r\<rparr>),
                        q_first := Some r\<rparr>"
          using assms(3) Some False sc by (simp add: ev_enqueue_def Let_def)
        then show ?thesis
          using assms(1,2) wj
          by (auto simp: queue_written_def simp del: split_paired_All split_paired_Ex)
      next
        case p: (Some p)
        then have "q' = q\<lparr>storage := (((storage q)(r := (storage q r)\<lparr>ev_prev := Some p, ev_next := Some j\<rparr>))
                           (j := (((storage q)(r := (storage q r)\<lparr>ev_prev := Some p, ev_next := Some j\<rparr>)) j)
                               \<lparr>ev_prev := Some r\<rparr>))
                           (p := ((((storage q)(r := (storage q r)\<lparr>ev_prev := Some p, ev_next := Some j\<rparr>))
                           (j := (((storage q)(r := (storage q r)\<lparr>ev_prev := Some p, ev_next := Some j\<rparr>)) j)
                               \<lparr>ev_prev := Some r\<rparr>)) p)\<lparr>ev_next := Some r\<rparr>)\<rparr>"
          using assms(3) Some False sc by (simp add: ev_enqueue_def Let_def)
        then show ?thesis
          using assms(1,2) wj wp [OF p]
          by (auto simp: queue_written_def simp del: split_paired_All split_paired_Ex)
      qed
    qed
  qed
qed

lemma queue_written_add:
  assumes "queue_written q" "host_add_event cfg n idx t q = Inr q'"
  shows "queue_written q'"
proof -
  obtain r where r: "event_slot cfg n idx = Inr r"
    using assms(2) by (auto simp: host_add_event_def split: sum.splits)
  define q1 where "q1 = q\<lparr>storage := (storage q)(r := (storage q r)\<lparr>ev_host := Some n,
                            ping_index := idx, ev_time := t\<rparr>)\<rparr>"
  have e: "ev_enqueue q1 r = Some q'"
    using assms(2) r by (auto simp: host_add_event_def Let_def q1_def split: option.splits)
  have "queue_written q1"
    using assms(1)
    by (auto simp: queue_written_def q1_def simp del: split_paired_All split_paired_Ex)
  moreover have "ev_host (storage q1 r) \<noteq> None" by (simp add: q1_def)
  ultimately show ?thesis using e by (rule queue_written_enqueue)
qed

section \<open>The state after startup\<close>

text \<open>
  \<open>main_startup\<close> ends in a state where \<open>fresh_state\<close> holds, \<open>last_send_time\<close> is 0 and
  \<open>num_noaddress\<close> is the number of targets without an address.
\<close>

lemma add_addr_fresh:
  assumes "fresh_state cfg clock s" "add_addr cfg a s = Inr s'"
  shows "fresh_state cfg clock s' \<and> num_noaddress s' = num_noaddress s"
proof -
  obtain r where r: "(if \<not> loop_flag cfg
            then (case a of
                    Alloc_failed \<Rightarrow> Inl (Exit 4)
                  | Allocated junk \<Rightarrow>
                      Inr (Some (add_addr_fill 1 (trials cfg) (map junk [0 ..< trials cfg]))))
            else Inr None) = Inr r"
    using assms(2) by (auto simp: add_addr_def split: sum.splits)
  then have rn: "r = None \<longleftrightarrow> loop_flag cfg"
    by (auto split: if_splits allocation.splits)
  obtain q where q: "host_add_event cfg (length (table s)) 0 (current_time_ns s)
                    (event_queue_ping s) = Inr q"
    using assms(2) r by (auto simp: add_addr_def Let_def split: sum.splits)
  have s': "s' = s\<lparr>table := table s @
        [\<lparr> h_timeout = timeout cfg, h_last_send_time = 0,
            num_sent = 0, num_recv = 0, num_recv_total = 0,
            max_reply = 0, min_reply = 0, total_time = 0,
            num_sent_i = 0, num_recv_i = 0,
            max_reply_i = 0, min_reply_i = 0, total_time_i = 0,
            resp_times = r \<rparr>], event_queue_ping := q,
        num_hosts := to_int32 (num_hosts s + 1)\<rparr>"
    using assms(2) r q by (simp add: add_addr_def Let_def)
  from host_add_event_Inr [OF q] obtain x where
    x: "ev_time (storage q x) = current_time_ns s" "ping_index (storage q x) = 0"
       "\<forall>y. y \<noteq> x \<longrightarrow> ev_time (storage q y) = ev_time (storage (event_queue_ping s) y)
                   \<and> ev_host (storage q y) = ev_host (storage (event_queue_ping s) y)
                   \<and> ping_index (storage q y) = ping_index (storage (event_queue_ping s) y)"
    by blast
  have ev: "ev_time (storage q y) = clock \<and> ping_index (storage q y) = 0"
    if "ev_host (storage q y) \<noteq> None" for y
  proof (cases "y = x")
    case True
    then show ?thesis using x(1,2) assms(1) by (simp add: fresh_state_def)
  next
    case False
    with x(3) have e: "ev_time (storage q y) = ev_time (storage (event_queue_ping s) y)"
        "ev_host (storage q y) = ev_host (storage (event_queue_ping s) y)"
        "ping_index (storage q y) = ping_index (storage (event_queue_ping s) y)"
      by blast+
    have "\<forall>r. ev_host (storage (event_queue_ping s) r) \<noteq> None \<longrightarrow>
         ev_time (storage (event_queue_ping s) r) = clock
       \<and> ping_index (storage (event_queue_ping s) r) = 0"
      using assms(1) unfolding fresh_state_def by blast
    then show ?thesis using that unfolding e by blast
  qed
  have old: "history s = []" "seqmap s = seqmap_init" "num_alive s = 0" "num_unreachable s = 0"
    "num_hosts s = to_int32 (int (length (table s)))"
    "current_time_ns s = clock" "start_time s = clock"
    "\<forall>h \<in> set (table s).
         num_sent h = 0 \<and> num_recv h = 0 \<and> num_recv_total h = 0
       \<and> h_timeout h = timeout cfg
       \<and> (resp_times h = None \<longleftrightarrow> loop_flag cfg)"
    "queues_written s"
    using assms(1) unfolding fresh_state_def by blast+
  have "fresh_state cfg clock s'"
    unfolding fresh_state_def
  proof (intro conjI)
    have "queue_written q"
      using old(9) q by (auto simp: queues_written_def intro: queue_written_add)
    then show "queues_written s'"
      unfolding s' using old(9) by (simp add: queues_written_def)
    show "num_hosts s' = to_int32 (int (length (table s')))"
      unfolding s' using old(5) by (simp add: to_int32_Suc)
    show "\<forall>r. ev_host (storage (event_queue_ping s') r) \<noteq> None \<longrightarrow>
         ev_time (storage (event_queue_ping s') r) = clock
       \<and> ping_index (storage (event_queue_ping s') r) = 0"
      unfolding s' using ev by simp
    show "\<forall>h \<in> set (table s').
         num_sent h = 0 \<and> num_recv h = 0 \<and> num_recv_total h = 0
       \<and> h_timeout h = timeout cfg
       \<and> (resp_times h = None \<longleftrightarrow> loop_flag cfg)"
      unfolding s' using old(8) rn by auto
  qed (simp_all add: s' old)
  then show ?thesis by (simp add: s')
qed

lemma add_addrs_fresh:
  "fresh_state cfg clock s \<Longrightarrow> add_addrs cfg as s = Inr s' \<Longrightarrow>
   fresh_state cfg clock s' \<and> num_noaddress s' = num_noaddress s"
proof (induction as arbitrary: s)
  case Nil
  then show ?case by simp
next
  case (Cons a as)
  then obtain s1 where s1: "add_addr cfg a s = Inr s1" "add_addrs cfg as s1 = Inr s'"
    by (auto split: sum.splits)
  from add_addr_fresh [OF Cons.prems(1) s1(1)] Cons.IH [OF _ s1(2)] show ?case by simp
qed

lemma add_names_fresh:
  "fresh_state cfg clock s \<Longrightarrow> num_noaddress s = to_int32 (int k) \<Longrightarrow>
   add_names cfg rs s = Inr s' \<Longrightarrow>
   fresh_state cfg clock s' \<and> num_noaddress s' = to_int32 (int (k + unresolved rs))"
proof (induction rs arbitrary: s k)
  case Nil
  then show ?case by simp
next
  case (Cons r rs)
  then obtain s1 where s1: "add_name cfg r s = Inr s1" "add_names cfg rs s1 = Inr s'"
    by (auto split: sum.splits)
  show ?case
  proof (cases r)
    case No_address
    then have e: "s1 = s\<lparr>num_noaddress := to_int32 (num_noaddress s + 1)\<rparr>"
      using s1(1) by (simp add: add_name_def)
    have f: "fresh_state cfg clock s1"
      using Cons.prems(1) unfolding e by (simp add: fresh_state_def queues_written_def)
    have n: "num_noaddress s1 = to_int32 (int (Suc k))"
      unfolding e using Cons.prems(2) by (simp add: to_int32_Suc)
    from Cons.IH [OF f n s1(2)] show ?thesis using No_address by simp
  next
    case (Addresses as)
    then have "add_addrs cfg as s = Inr s1" using s1(1) by (simp add: add_name_def)
    from add_addrs_fresh [OF Cons.prems(1) this]
    have f: "fresh_state cfg clock s1" and n: "num_noaddress s1 = to_int32 (int k)"
      using Cons.prems(2) by simp_all
    from Cons.IH [OF f n s1(2)] show ?thesis using Addresses by simp
  qed
qed

lemma main_startup_fresh:
  assumes "main_startup cfg clock targets = Inr s0"
  shows "fresh_state cfg clock s0 \<and> last_send_time s0 = 0
       \<and> num_noaddress s0 = to_int32 (int (unresolved targets))"
proof -
  have i: "fresh_state cfg clock (initial_state clock)"
    by (simp add: fresh_state_def initial_state_def queues_written_def queue_written_empty
        to_int32_def)
       (simp add: empty_queue_def zero_event_def)
  have k: "num_noaddress (initial_state clock) = to_int32 (int 0)"
    by (simp add: initial_state_def to_int32_def)
  obtain s where s: "add_names cfg targets (initial_state clock) = Inr s"
    using assms by (auto simp: main_startup_def split: sum.splits)
  from add_names_fresh [OF i k s]
  have f: "fresh_state cfg clock s" and n: "num_noaddress s = to_int32 (int (unresolved targets))"
    by simp_all
  have "s0 = s\<lparr>next_report_time :=
                         (if report_interval cfg \<noteq> 0
                          then current_time_ns s + report_interval cfg
                          else next_report_time s),
                       last_send_time := 0,
                       seqmap := seqmap_init\<rparr>"
    using assms s by (simp add: main_startup_def split: if_splits)
  then show ?thesis using f n by (simp add: fresh_state_def queues_written_def)
qed

section \<open>Loops over the hosts\<close>

text \<open>
  What \<open>for_hosts\<close> keeps, and how the number of hosts with a property changes when
  one entry of the table is replaced.
\<close>

lemma for_hosts_length: "length (table (for_hosts f s)) = length (table s)"
  by (simp add: for_hosts_def)

lemma for_hosts_nth:
  "n < length (table s) \<Longrightarrow>
   table (for_hosts f s) ! n = (if n < nat (num_hosts s) then f (table s ! n) else table s ! n)"
  by (auto simp: for_hosts_def nth_append min_def)

lemma for_hosts_map:
  assumes "\<And>h. g (f h) = g h"
  shows "map g (table (for_hosts f s)) = map g (table s)"
proof -
  have "map g (table (for_hosts f s)) =
        map g (take (nat (num_hosts s)) (table s)) @ map g (drop (nat (num_hosts s)) (table s))"
    by (simp add: for_hosts_def assms o_def)
  also have "\<dots> = map g (table s)"
    by (simp only: map_append [symmetric] append_take_drop_id)
  finally show ?thesis .
qed

lemma for_hosts_frame:
  "history (for_hosts f s) = history s" "seqmap (for_hosts f s) = seqmap s"
  "num_alive (for_hosts f s) = num_alive s" "num_hosts (for_hosts f s) = num_hosts s"
  "num_noaddress (for_hosts f s) = num_noaddress s"
  "num_unreachable (for_hosts f s) = num_unreachable s"
  by (simp_all add: for_hosts_def)

lemma stats_reset_interval_frame:
  "num_sent (stats_reset_interval h) = num_sent h"
  "num_recv (stats_reset_interval h) = num_recv h"
  "num_recv_total (stats_reset_interval h) = num_recv_total h"
  "resp_times (stats_reset_interval h) = resp_times h"
  "h_timeout (stats_reset_interval h) = h_timeout h"
  by (simp_all add: stats_reset_interval_def)

lemma count_update:
  "n < length t \<Longrightarrow>
   int (length (filter P (t[n := h]))) =
     int (length (filter P t)) + (if P h then 1 else 0) - (if P (t ! n) then 1 else 0)"
proof (induction t arbitrary: n)
  case Nil
  then show ?case by simp
next
  case (Cons a t)
  show ?case
  proof (cases n)
    case 0
    then show ?thesis by simp
  next
    case (Suc m)
    then have "m < length t" using Cons.prems by simp
    from Cons.IH [OF this] show ?thesis using Suc by (auto split: if_splits)
  qed
qed

lemma count_map: "length (filter P (map g t)) = length (filter (\<lambda>h. P (g h)) t)"
  by (induction t) auto

section \<open>Example runs\<close>

text \<open>
  The example configurations are the ones that \<open>main\<close> computes for their options.
  The example runs are evaluated by rewriting with the definitions of the operations;
  each lemma gives the states of a run and what the later sections read from them.
\<close>

lemma example_configs:
  "main_config example_constants [] = Inr default_config"
  "main_config example_constants [Opt_c 3] = Inr count3_config"
  "main_config example_constants [Opt_C 3] = Inr rtts_config"
  "main_config example_constants [Opt_t 5000000] = Inr oneshot_config"
  "main_config example_constants [Opt_l] = Inr loop_config"
  by (simp_all add: main_config_def main_settings_def initial_config_def example_constants_def
      default_config_def count3_config_def rtts_config_def oneshot_config_def loop_config_def
      to_uint32_def
      main_event_storage_count_def to_int32_def c_div_def)

lemmas eval_defs = main_startup_def add_name_def add_addr_def initial_state_def
  host_add_event_def event_slot_def ev_enqueue_def ev_remove_def empty_queue_def
  zero_event_def c_rem_def c_div_def to_int32_def to_int64_def seqmap_init_def
  add_addr_fill_step add_addr_fill_stop upt_conv_Cons main_loop_body_def ping_event_def
  timeout_event_def send_ping_def seqmap_add_def wait_for_reply_def reply_verdict_def
  accept_reply_def seqmap_fetch_def stats_add_def resp_times_store_def resp_times_load_def
  next_wait_time_def print_report_def print_per_system_splits_def ev_remove_slot_def
  to_uint32_def RESP_UNUSED_def RESP_WAITING_def RESP_ERROR_def RESP_TIMEOUT_def
  reply_packet_def pass_def junk0_def

lemmas float_defs = backoff_mul_def float_of_int64_def float_mult_def float_round_def
  int64_of_float_def bit_length_0 bit_length_pos

lemma map_sum_Inr: "map_sum id f x = Inr y \<Longrightarrow> \<exists>z. x = Inr z \<and> f z = y"
  by (cases x) auto

lemma run_Inr:
  "(case a of Inl e \<Rightarrow> Inl e | Inr s0 \<Rightarrow> g s0) = Inr y \<Longrightarrow> \<exists>s0. a = Inr s0 \<and> g s0 = Inr y"
  by (cases a) auto

lemma run_states:
  assumes "map_sum id (\<lambda>(b, s). (b, f s))
             (case a of Inl e \<Rightarrow> Inl e | Inr s0 \<Rightarrow> g s0) = Inr (b, y)"
  shows "\<exists>s0 s. a = Inr s0 \<and> g s0 = Inr (b, s) \<and> f s = y"
proof -
  from map_sum_Inr [OF assms] obtain z where
    z: "(case a of Inl e \<Rightarrow> Inl e | Inr s0 \<Rightarrow> g s0) = Inr z"
    and p: "(\<lambda>(b, s). (b, f s)) z = (b, y)"
    by blast
  from run_Inr [OF z] obtain s0 where "a = Inr s0" "g s0 = Inr z" by blast
  then show ?thesis using p by (cases z) auto
qed

lemma late_run:
  "\<exists>s0 s. main_startup count3_config 100000000000 [Addresses [Allocated junk0]] = Inr s0
     \<and> main_loop count3_config late_inputs s0 = Inr (True, s)
     \<and> (history s, map num_sent (table s), map num_recv (table s),
        map num_recv_total (table s), num_alive s, num_hosts s, num_noaddress s) =
       ([Reply 0 2 2 1000000 Accepted, Send Ping_event 0 2 2 102000000000 Send_ok,
         Reply 0 1 1 1000000 Accepted, Send Ping_event 0 1 1 101005000000 Send_ok,
         Reply 0 0 0 1000000 Accepted, Send Ping_event 0 0 0 100000000000 Send_ok],
        [3], [3], [3], 1, 1, 0)"
  by (rule run_states) (simp add: eval_defs count3_config_def late_inputs_def)

lemma silent_run:
  "\<exists>s0 s. main_startup oneshot_config 100000000000 [Addresses [Allocated junk0]] = Inr s0
     \<and> main_loop oneshot_config silent_inputs s0 = Inr (False, s)
     \<and> (history s, map num_sent (table s), map num_recv (table s)) =
       ([Send Retry 0 0 1 100005000000 Send_ok, Timed_out 0 0,
         Send Ping_event 0 0 0 100000000000 Send_ok],
        [1], [0])"
  by (rule run_states)
     (simp add: eval_defs float_defs oneshot_config_def silent_inputs_def)

lemma duplicate_run:
  "\<exists>s0 s. main_startup loop_config 100000000000 [Addresses [Allocated junk0]] = Inr s0
     \<and> main_loop loop_config duplicate_inputs s0 = Inr (False, s)
     \<and> (history s, map num_recv (table s), map num_recv_total (table s),
        map resp_times (table s)) =
       ([Reply 0 0 0 2000000 Accepted, Reply 0 0 0 1000000 Accepted,
         Send Ping_event 0 0 0 100000000000 Send_ok],
        [2], [2], [None])"
  by (rule run_states) (simp add: eval_defs loop_config_def duplicate_inputs_def)

lemma repeated_run:
  "\<exists>s0 s. main_startup count3_config 100000000000 [Addresses [Allocated junk0]] = Inr s0
     \<and> main_loop count3_config duplicate_inputs s0 = Inr (False, s)
     \<and> (history s, map num_recv (table s), map num_recv_total (table s)) =
       ([Reply 0 0 0 2000000 Duplicate, Reply 0 0 0 1000000 Accepted,
         Send Ping_event 0 0 0 100000000000 Send_ok],
        [1], [2])"
  by (rule run_states) (simp add: eval_defs count3_config_def duplicate_inputs_def)

lemma unanswered_run:
  "\<exists>s0 s. main_startup default_config 100000000000 [Addresses [Allocated junk0]] = Inr s0
     \<and> main_loop default_config unanswered_inputs s0 = Inr (False, s)
     \<and> (history s, map num_sent (table s), map h_timeout (table s)) =
       ([Send Retry 0 0 2 101250000000 Send_ok, Timed_out 0 0,
         Send Retry 0 0 1 100500000000 Send_ok, Timed_out 0 0,
         Send Ping_event 0 0 0 100000000000 Send_ok],
        [2], [1124999936])"
  by (rule run_states)
     (simp add: eval_defs float_defs default_config_def unanswered_inputs_def)

lemma stalled_run:
  "\<exists>s0 s. main_startup loop_config 100000000000 [Addresses [Allocated junk0]] = Inr s0
     \<and> main_loop loop_config stalled_inputs s0 = Inr (False, s)
     \<and> (history s, map num_sent (table s), map num_recv (table s)) =
       ([Timed_out 0 2, Send Ping_event 0 2 2 102000000000 Send_ok,
         Send Ping_event 0 1 1 101510000000 Send_ok,
         Send Ping_event 0 0 0 101500000000 Send_ok],
        [1], [0])"
  by (rule run_states) (simp add: eval_defs loop_config_def stalled_inputs_def)

lemma rtts_run:
  "\<exists>s0 s. main_startup rtts_config 100000000000 [Addresses [Allocated junk0]] = Inr s0
     \<and> main_loop rtts_config late_inputs s0 = Inr (True, s)
     \<and> (history s, map num_recv (table s), num_noaddress s) =
       ([Reply 0 2 2 1000000 Accepted, Send Ping_event 0 2 2 102000000000 Send_ok,
         Reply 0 1 1 1000000 Accepted, Send Ping_event 0 1 1 101005000000 Send_ok,
         Reply 0 0 0 1000000 Accepted, Send Ping_event 0 0 0 100000000000 Send_ok],
        [3], 0)"
  by (rule run_states) (simp add: eval_defs rtts_config_def late_inputs_def)

lemma answered_run:
  "\<exists>s0 s. main_startup default_config 100000000000 [Addresses [Allocated junk0]] = Inr s0
     \<and> main_loop default_config answered_inputs s0 = Inr (True, s)
     \<and> (history s, map h_timeout (table s)) =
       ([Reply 0 0 1 100000000 Accepted, Send Retry 0 0 1 100500000000 Send_ok, Timed_out 0 0,
         Send Ping_event 0 0 0 100000000000 Send_ok],
        [500000000])"
  by (rule run_states)
     (simp add: eval_defs float_defs default_config_def answered_inputs_def)

section \<open>Counts over the history\<close>

lemma accepted_replies_Cons:
  "accepted_replies n (a # hist) = accepted_replies n hist + (if accepted_for n a then 1 else 0)"
  by (simp add: accepted_replies_def)

lemma timeouts_handled_Cons:
  "timeouts_handled n (a # hist) = timeouts_handled n hist + (if timeout_for n a then 1 else 0)"
  by (simp add: timeouts_handled_def)

lemma send_errors_Cons:
  "send_errors n (a # hist) = send_errors n hist + (if send_error_for n a then 1 else 0)"
  by (simp add: send_errors_def)

lemma matched_replies_Cons:
  "matched_replies n (a # hist) = matched_replies n hist + (if reply_for n a then 1 else 0)"
  by (simp add: matched_replies_def)

lemma counts_nonneg:
  "0 \<le> accepted_replies n hist" "0 \<le> timeouts_handled n hist" "0 \<le> send_errors n hist"
  "0 \<le> matched_replies n hist"
  by (simp_all add: accepted_replies_def timeouts_handled_def send_errors_def
      matched_replies_def)

lemma accepted_le_matched: "accepted_replies n hist \<le> matched_replies n hist"
proof (induction hist)
  case Nil
  then show ?case by (simp add: accepted_replies_def matched_replies_def)
next
  case (Cons a hist)
  have "accepted_for n a \<Longrightarrow> reply_for n a" by (cases a) auto
  then show ?case using Cons by (auto simp: accepted_replies_Cons matched_replies_Cons)
qed

section \<open>The arrays of response times\<close>

lemma allocated_update:
  assumes "allocated_unless_loop cfg s" "n < length (table s)" "table s' = (table s)[n := h']"
    and "resp_times h' = None \<longleftrightarrow> resp_times (table s ! n) = None"
  shows "allocated_unless_loop cfg s'"
  using assms(1,2,4) unfolding allocated_unless_loop_def assms(3)
  by (auto simp: nth_list_update)

lemma allocated_send:
  assumes "send_ping cfg org clock res n idx s = Inr s'" "allocated_unless_loop cfg s"
  shows "allocated_unless_loop cfg s'"
proof -
  from send_ping_Inr [OF assms(1)] obtain h' where
    "n < length (table s)" "table s' = (table s)[n := h']"
    "resp_times h' =
       (if loop_flag cfg \<or> res = No_socket then resp_times (table s ! n)
        else map_option (\<lambda>r. r[nat idx := (if res = Send_failed then RESP_ERROR else RESP_WAITING)])
               (resp_times (table s ! n)))"
    by blast
  then show ?thesis
    using allocated_update [of cfg s n s' h'] assms(2) by simp
qed

lemma allocated_timeout:
  assumes "stats_add cfg (table s ! n) idx False (- 1) (num_timeout s) = Inr (h1, nt)"
    and "n < length (table s)" "allocated_unless_loop cfg s"
  shows "allocated_unless_loop cfg (s\<lparr>table := (table s)[n := h1], num_timeout := nt,
              history := Timed_out n idx # history s\<rparr>)"
proof -
  have "resp_times h1 = None \<longleftrightarrow> resp_times (table s ! n) = None"
    using stats_add_Inr [OF assms(1)] by simp
  then show ?thesis
    using allocated_update [of cfg s n _ h1] assms(2,3) by simp
qed

lemma allocated_backoff:
  assumes "n < length (table s)" "allocated_unless_loop cfg s"
  shows "allocated_unless_loop cfg (s\<lparr>table := (table s)[n := (table s ! n)\<lparr>h_timeout := x\<rparr>]\<rparr>)"
  using allocated_update [of cfg s n _ "(table s ! n)\<lparr>h_timeout := x\<rparr>"] assms by simp

lemma allocated_reply:
  assumes "wait_for_reply cfg pkt s = Inr s'" "allocated_unless_loop cfg s"
  shows "allocated_unless_loop cfg s'"
  using assms(1)
proof (cases rule: wait_for_reply_cases)
  case Dropped
  then show ?thesis using assms(2) by (simp add: allocated_unless_loop_def)
next
  case (Matched n idx seq rtt vd h' v d)
  have "resp_times h' = None \<longleftrightarrow> resp_times (table s ! n) = None"
    unfolding Matched(12) by simp
  with assms(2) Matched(5,6) show ?thesis by (rule allocated_update)
qed

lemma allocated_reset:
  assumes "allocated_unless_loop cfg s"
  shows "allocated_unless_loop cfg (for_hosts stats_reset_interval s)"
  using assms
  by (simp add: allocated_unless_loop_def for_hosts_length for_hosts_nth
      stats_reset_interval_frame)

lemma allocated_body:
  assumes "main_loop_body cfg inp s = Inr (c, s')" "allocated_unless_loop cfg s"
  shows "allocated_unless_loop cfg s'"
proof (rule main_loop_body_preserves [where P = "allocated_unless_loop cfg",
      OF _ _ _ _ _ _ _ _ _ _ assms(2,1)])
  show "\<And>s q. allocated_unless_loop cfg (s\<lparr>event_queue_timeout := q\<rparr>) = allocated_unless_loop cfg s"
    by (simp add: allocated_unless_loop_def)
  show "\<And>s q. allocated_unless_loop cfg (s\<lparr>event_queue_ping := q\<rparr>) = allocated_unless_loop cfg s"
    by (simp add: allocated_unless_loop_def)
  show "\<And>s b. allocated_unless_loop cfg (s\<lparr>finish_requested := b\<rparr>) = allocated_unless_loop cfg s"
    by (simp add: allocated_unless_loop_def)
  show "\<And>s c. allocated_unless_loop cfg (s\<lparr>current_time_ns := c\<rparr>) = allocated_unless_loop cfg s"
    by (simp add: allocated_unless_loop_def)
  show "\<And>s c. allocated_unless_loop cfg (s\<lparr>next_report_time := c\<rparr>) = allocated_unless_loop cfg s"
    by (simp add: allocated_unless_loop_def)
qed (fact allocated_send allocated_timeout allocated_backoff allocated_reply allocated_reset)+

lemma allocated_run:
  assumes "main_startup cfg clock targets = Inr s0" "main_loop cfg inps s0 = Inr (b, s)"
  shows "allocated_unless_loop cfg s0 \<and> allocated_unless_loop cfg s"
proof -
  have "fresh_state cfg clock s0" using main_startup_fresh [OF assms(1)] by simp
  then have i: "allocated_unless_loop cfg s0"
    by (auto simp: fresh_state_def allocated_unless_loop_def)
  with allocated_body have "allocated_unless_loop cfg s" using assms(2) by (rule main_loop_preserves)
  then show ?thesis using i by simp
qed

section \<open>The exit status (C1)\<close>

lemma alive_counted_update:
  assumes inv: "alive_counted s" and n: "n < length (table s)"
    and tab: "table s' = (table s)[n := h']"
    and acc: "\<And>m. accepted_replies m (history s') =
                accepted_replies m (history s) + (if a \<and> m = n then 1 else 0)"
    and rc: "num_recv h' = (if a then to_int32 (num_recv (table s ! n) + 1)
                            else num_recv (table s ! n))"
    and al: "num_alive s' = (if a \<and> to_int32 (num_recv (table s ! n) + 1) = 1
                             then to_int32 (num_alive s + 1) else num_alive s)"
    and fr: "num_hosts s' = num_hosts s" "num_unreachable s' = num_unreachable s"
  shows "alive_counted s'"
proof -
  have old: "\<And>m. m < length (table s) \<Longrightarrow>
               num_recv (table s ! m) = to_int32 (accepted_replies m (history s))"
    using inv by (simp add: alive_counted_def)
  have len: "length (table s') = length (table s)" by (simp add: tab)
  have new: "num_recv (table s' ! m) = to_int32 (accepted_replies m (history s'))"
    if "m < length (table s')" for m
  proof (cases "m = n")
    case True
    then show ?thesis
      using old [OF n] n rc unfolding tab acc by (simp add: to_int32_step)
  next
    case False
    then show ?thesis using old [of m] that unfolding tab acc by simp
  qed
  have alive: "num_alive s' = to_int32 (int (length (filter (\<lambda>h. num_recv h \<noteq> 0) (table s'))))"
    if b': "\<forall>m < length (table s'). accepted_replies m (history s') < 2 ^ 31"
  proof -
    have b: "\<forall>m < length (table s). accepted_replies m (history s) < 2 ^ 31"
    proof (intro allI impI)
      fix m assume "m < length (table s)"
      then have "accepted_replies m (history s') < 2 ^ 31" using b' len by simp
      then show "accepted_replies m (history s) < 2 ^ 31" unfolding acc by (simp split: if_splits)
    qed
    then have a0: "num_alive s = to_int32 (int (length (filter (\<lambda>h. num_recv h \<noteq> 0) (table s))))"
      using inv by (simp add: alive_counted_def)
    have rn: "num_recv (table s ! n) = accepted_replies n (history s)"
      using old [OF n] b n counts_nonneg(1) [of n "history s"] by (simp add: to_int32_id)
    have cnt: "int (length (filter (\<lambda>h. num_recv h \<noteq> 0) (table s'))) =
             int (length (filter (\<lambda>h. num_recv h \<noteq> 0) (table s)))
               + (if num_recv h' \<noteq> 0 then 1 else 0)
               - (if num_recv (table s ! n) \<noteq> 0 then 1 else 0)"
      unfolding tab using n by (rule count_update)
    show ?thesis
    proof (cases a)
      case False
      then show ?thesis using a0 al rc cnt by simp
    next
      case True
      have "accepted_replies n (history s') < 2 ^ 31" using b' n len by simp
      then have lt: "accepted_replies n (history s) + 1 < 2 ^ 31" using True unfolding acc by simp
      have ge: "0 \<le> accepted_replies n (history s)" by (rule counts_nonneg)
      have r': "num_recv h' = accepted_replies n (history s) + 1"
        using rc True rn lt ge by (simp add: to_int32_id)
      have one: "to_int32 (num_recv (table s ! n) + 1) = 1 \<longleftrightarrow> num_recv (table s ! n) = 0"
        using rn lt ge by (simp add: to_int32_id)
      show ?thesis
      proof (cases "num_recv (table s ! n) = 0")
        case z: True
        then have "int (length (filter (\<lambda>h. num_recv h \<noteq> 0) (table s'))) =
            int (length (filter (\<lambda>h. num_recv h \<noteq> 0) (table s))) + 1"
          using cnt r' ge by simp
        then show ?thesis using al True one z a0 by (simp add: to_int32_step)
      next
        case nz: False
        then have "int (length (filter (\<lambda>h. num_recv h \<noteq> 0) (table s'))) =
            int (length (filter (\<lambda>h. num_recv h \<noteq> 0) (table s)))"
          using cnt r' ge by simp
        then show ?thesis using al True one nz a0 by simp
      qed
    qed
  qed
  show ?thesis
    unfolding alive_counted_def
    using new alive inv fr len by (simp add: alive_counted_def)
qed

lemma alive_counted_send:
  assumes "send_ping cfg org clock res n idx s = Inr s'" "alive_counted s"
  shows "alive_counted s'"
proof -
  from send_ping_Inr [OF assms(1)] obtain h' where
    f: "n < length (table s)" "table s' = (table s)[n := h']"
    "num_recv h' = num_recv (table s ! n)"
    "history s' = Send org n idx (seqmap_next_id (seqmap s)) clock res # history s"
    "num_alive s' = num_alive s" "num_hosts s' = num_hosts s"
    "num_unreachable s' = num_unreachable s"
    by blast
  show ?thesis
    by (rule alive_counted_update [where a = False, OF assms(2) f(1,2)])
       (simp_all add: f accepted_replies_Cons)
qed

lemma alive_counted_timeout:
  assumes "stats_add cfg (table s ! n) idx False (- 1) (num_timeout s) = Inr (h1, nt)"
    and "n < length (table s)" "alive_counted s"
  shows "alive_counted (s\<lparr>table := (table s)[n := h1], num_timeout := nt,
              history := Timed_out n idx # history s\<rparr>)"
proof -
  have r: "num_recv h1 = num_recv (table s ! n)"
    using stats_add_Inr [OF assms(1)] by simp
  show ?thesis
    by (rule alive_counted_update [where a = False and n = n and h' = h1, OF assms(3,2)])
       (simp_all add: r accepted_replies_Cons)
qed

lemma alive_counted_backoff:
  assumes "n < length (table s)" "alive_counted s"
  shows "alive_counted (s\<lparr>table := (table s)[n := (table s ! n)\<lparr>h_timeout := x\<rparr>]\<rparr>)"
  by (rule alive_counted_update [where a = False and n = n
        and h' = "(table s ! n)\<lparr>h_timeout := x\<rparr>", OF assms(2,1)]) simp_all

lemma alive_counted_reply:
  assumes "wait_for_reply cfg pkt s = Inr s'" "alive_counted s"
  shows "alive_counted s'"
proof -
  note fr = wait_for_reply_frame [OF assms(1)]
  from assms(1) show ?thesis
  proof (cases rule: wait_for_reply_cases)
    case Dropped
    then show ?thesis using assms(2) fr by (simp add: alive_counted_def)
  next
    case (Matched n idx seq rtt vd h' v d)
    show ?thesis
      by (rule alive_counted_update [where a = "vd = Accepted", OF assms(2) Matched(5,6)])
         (simp_all add: Matched(7,10,13) fr accepted_replies_Cons)
  qed
qed

lemma alive_counted_reset:
  assumes "alive_counted s"
  shows "alive_counted (for_hosts stats_reset_interval s)"
proof -
  have m: "map num_recv (table (for_hosts stats_reset_interval s)) = map num_recv (table s)"
    by (rule for_hosts_map) (simp add: stats_reset_interval_frame)
  have c: "length (filter (\<lambda>h. num_recv h \<noteq> 0) t) = length (filter (\<lambda>x. x \<noteq> 0) (map num_recv t))"
    for t :: "host_entry list" by (simp only: count_map)
  have n: "num_recv (table (for_hosts stats_reset_interval s) ! n) = num_recv (table s ! n)"
    if "n < length (table s)" for n
    using that by (simp add: for_hosts_nth stats_reset_interval_frame)
  show ?thesis
    using assms unfolding alive_counted_def c m
    by (simp add: for_hosts_frame for_hosts_length n)
qed

lemma alive_counted_body:
  assumes "main_loop_body cfg inp s = Inr (c, s')" "alive_counted s"
  shows "alive_counted s'"
proof (rule main_loop_body_preserves [where P = alive_counted, OF _ _ _ _ _ _ _ _ _ _ assms(2,1)])
  show "\<And>s q. alive_counted (s\<lparr>event_queue_timeout := q\<rparr>) = alive_counted s"
    by (simp add: alive_counted_def)
  show "\<And>s q. alive_counted (s\<lparr>event_queue_ping := q\<rparr>) = alive_counted s"
    by (simp add: alive_counted_def)
  show "\<And>s b. alive_counted (s\<lparr>finish_requested := b\<rparr>) = alive_counted s"
    by (simp add: alive_counted_def)
  show "\<And>s c. alive_counted (s\<lparr>current_time_ns := c\<rparr>) = alive_counted s"
    by (simp add: alive_counted_def)
  show "\<And>s c. alive_counted (s\<lparr>next_report_time := c\<rparr>) = alive_counted s"
    by (simp add: alive_counted_def)
qed (fact alive_counted_send alive_counted_timeout alive_counted_backoff
       alive_counted_reply alive_counted_reset)+

lemma alive_counted_run:
  assumes "main_startup cfg clock targets = Inr s0" "main_loop cfg inps s0 = Inr (b, s)"
  shows "alive_counted s"
proof -
  have "fresh_state cfg clock s0" using main_startup_fresh [OF assms(1)] by simp
  then have "alive_counted s0"
    by (auto simp: fresh_state_def alive_counted_def filter_empty_conv accepted_replies_def
        to_int32_def)
  with alive_counted_body show ?thesis using assms(2) by (rule main_loop_preserves)
qed

lemma noaddress_run:
  assumes "main_startup cfg clock targets = Inr s0" "main_loop cfg inps s0 = Inr (b, s)"
  shows "num_noaddress s = to_int32 (int (unresolved targets))"
proof -
  have i: "num_noaddress s0 = to_int32 (int (unresolved targets))"
    using main_startup_fresh [OF assms(1)] by simp
  have "\<And>inp s c s'. main_loop_body cfg inp s = Inr (c, s') \<Longrightarrow>
          num_noaddress s = to_int32 (int (unresolved targets)) \<Longrightarrow>
          num_noaddress s' = to_int32 (int (unresolved targets))"
  proof -
    fix inp s c s'
    assume b: "main_loop_body cfg inp s = Inr (c, s')"
      and p: "num_noaddress s = to_int32 (int (unresolved targets))"
    show "num_noaddress s' = to_int32 (int (unresolved targets))"
    proof (rule main_loop_body_preserves
        [where P = "\<lambda>s. num_noaddress s = to_int32 (int (unresolved targets))",
         OF _ _ _ _ _ _ _ _ _ _ p b])
      show "\<And>org clock res n idx s s'.
        send_ping cfg org clock res n idx s = Inr s' \<Longrightarrow>
        num_noaddress s = to_int32 (int (unresolved targets)) \<Longrightarrow>
        num_noaddress s' = to_int32 (int (unresolved targets))"
        using send_ping_Inr by simp
      show "\<And>pkt s s'. wait_for_reply cfg pkt s = Inr s' \<Longrightarrow>
        num_noaddress s = to_int32 (int (unresolved targets)) \<Longrightarrow>
        num_noaddress s' = to_int32 (int (unresolved targets))"
        using wait_for_reply_frame(7) by simp
    qed (simp_all add: for_hosts_def)
  qed
  then show ?thesis using i assms(2) by (rule main_loop_preserves)
qed

lemma tot_up_unreachables_count:
  "tot_up_unreachables hosts (to_int32 x) =
     to_int32 (x + int (length (filter (\<lambda>h. num_recv h = 0) hosts)))"
proof (induction hosts arbitrary: x)
  case Nil
  then show ?case by simp
next
  case (Cons h hosts)
  show ?case
  proof (cases "num_recv h = 0")
    case True
    have "tot_up_unreachables (h # hosts) (to_int32 x) =
          tot_up_unreachables hosts (to_int32 (x + 1))"
      using True by (simp add: to_int32_step)
    also have "\<dots> = to_int32 (x + 1 + int (length (filter (\<lambda>h. num_recv h = 0) hosts)))"
      by (rule Cons.IH)
    also have "\<dots> = to_int32 (x + int (length (filter (\<lambda>h. num_recv h = 0) (h # hosts))))"
      using True by (simp add: ac_simps)
    finally show ?thesis .
  next
    case False
    then show ?thesis using Cons.IH [of x] by simp
  qed
qed

lemma resp_times_loads_Inr:
  "resp_times h \<noteq> None \<Longrightarrow> resp_times_loads h js = Inr ()"
  by (induction js) auto

lemma print_per_system_stats_Inr:
  "report_all_rtts_flag cfg \<longrightarrow> (\<forall>h \<in> set hosts. resp_times h \<noteq> None) \<Longrightarrow>
   print_per_system_stats cfg hosts = Inr ()"
  by (induction hosts) (auto simp: resp_times_loads_Inr)

lemma main_option_flags:
  assumes "main_option x c = Inr c'" "report_all_rtts_flag c \<longrightarrow> count_flag c"
  shows "report_all_rtts_flag c' \<longrightarrow> count_flag c'"
  using assms by (cases x) (auto split: if_splits)

lemma main_options_flags:
  "main_options xs c = Inr c' \<Longrightarrow> report_all_rtts_flag c \<longrightarrow> count_flag c \<Longrightarrow>
   report_all_rtts_flag c' \<longrightarrow> count_flag c'"
proof (induction xs arbitrary: c)
  case Nil
  then show ?case by simp
next
  case (Cons x xs)
  then obtain c1 where c1: "main_option x c = Inr c1" "main_options xs c1 = Inr c'"
    by (auto split: sum.splits)
  have "report_all_rtts_flag c1 \<longrightarrow> count_flag c1"
    using c1(1) Cons.prems(2) by (rule main_option_flags)
  with Cons.IH c1(2) show ?case by blast
qed

lemma main_config_flags:
  assumes "main_config k opts = Inr cfg"
  shows "\<not> (count_flag cfg \<and> loop_flag cfg) \<and> (report_all_rtts_flag cfg \<longrightarrow> count_flag cfg)"
proof -
  obtain c where c: "main_options opts (initial_config k) = Inr c" "main_settings k c = Inr cfg"
    using assms by (auto simp: main_config_def split: sum.splits)
  have f: "report_all_rtts_flag c \<longrightarrow> count_flag c"
    using c(1) by (rule main_options_flags) (simp add: initial_config_def)
  have "count_flag cfg = count_flag c \<and> loop_flag cfg = loop_flag c
      \<and> report_all_rtts_flag cfg = report_all_rtts_flag c \<and> \<not> (count_flag c \<and> loop_flag c)"
    using c(2) by (auto simp: main_settings_def Let_def split: if_splits sum.splits)
  then show ?thesis using f by simp
qed

lemma finish_Inr:
  assumes "report_all_rtts_flag cfg \<longrightarrow>
             (\<forall>h \<in> set (take (nat (num_hosts s)) (table s)). resp_times h \<noteq> None)"
  shows "finish cfg s =
     Inr (if min_reachable cfg \<noteq> 0 then
            (if to_uint32 (num_hosts s
                  - tot_up_unreachables (take (nat (num_hosts s)) (table s)) (num_unreachable s))
                \<ge> int (min_reachable cfg)
             then 0 else 1)
          else if num_noaddress s \<noteq> 0 then 2
          else if num_alive s \<noteq> num_hosts s then 1
          else 0)"
  using print_per_system_stats_Inr [OF assms]
  by (simp add: finish_def Let_def)

text \<open>
  C1: for a configuration that \<open>main\<close> computes, after \<open>main_startup\<close> and any run of
  \<open>main_loop\<close>, \<open>finish\<close> exits with a status that is a function of the counters: with
  a threshold \<open>min_reachable\<close> other than 0 the status is 0 if at least that many hosts
  have \<open>num_recv\<close> other than 0 and 1 otherwise; else it is 2 if \<open>num_noaddress > 0\<close>;
  else 1 if some host has \<open>num_recv = 0\<close>; else 0.  Some host has \<open>num_recv = 0\<close>
  exactly if \<open>num_alive\<close> differs from \<open>num_hosts\<close>.  The counters are \<open>int\<close>s: the
  number of hosts, the number of targets without an address and the number of
  replies accepted for a host are taken to be below \<open>2 ^ 31\<close>.
\<close>

theorem finish_status:
  assumes "main_config k opts = Inr cfg"
    and "main_startup cfg clock targets = Inr s0"
    and "main_loop cfg inps s0 = Inr (b, s)"
    and "length (table s) < 2 ^ 31"
    and "unresolved targets < 2 ^ 31"
    and "\<forall>n < length (table s). accepted_replies n (history s) < 2 ^ 31"
  shows "finish cfg s =
           Inr (if min_reachable cfg \<noteq> 0
                then (if int (min_reachable cfg)
                           \<le> int (length (filter (\<lambda>h. num_recv h \<noteq> 0) (table s)))
                      then 0 else 1)
                else if 0 < num_noaddress s then 2
                else if \<exists>h \<in> set (table s). num_recv h = 0 then 1
                else 0)
       \<and> ((\<exists>h \<in> set (table s). num_recv h = 0) \<longleftrightarrow> num_alive s \<noteq> num_hosts s)"
proof -
  have inv: "alive_counted s" using assms(2,3) by (rule alive_counted_run)
  let ?alive = "length (filter (\<lambda>h. num_recv h \<noteq> 0) (table s))"
  let ?dead = "length (filter (\<lambda>h. num_recv h = 0) (table s))"
  have sum: "?alive + ?dead = length (table s)"
    using sum_length_filter_compl [of "\<lambda>h. num_recv h \<noteq> 0" "table s"] by simp
  have len: "int (length (table s)) < 2 ^ 31" using assms(4) by simp
  have nh: "num_hosts s = int (length (table s))"
    using inv len by (simp add: alive_counted_def to_int32_id)
  have hosts: "take (nat (num_hosts s)) (table s) = table s"
    using nh by simp
  have al: "num_alive s = int ?alive"
  proof -
    have "num_alive s = to_int32 (int ?alive)"
      using inv assms(6) by (simp add: alive_counted_def)
    moreover have "int ?alive < 2 ^ 31" using sum len by linarith
    ultimately show ?thesis by (simp add: to_int32_id)
  qed
  have "num_unreachable s = to_int32 0" using inv by (simp add: alive_counted_def to_int32_def)
  then have "tot_up_unreachables (table s) (num_unreachable s) = to_int32 (0 + int ?dead)"
    by (simp only: tot_up_unreachables_count)
  moreover have "int ?dead < 2 ^ 31" using sum len by linarith
  ultimately have dead: "tot_up_unreachables (table s) (num_unreachable s) = int ?dead"
    by (simp add: to_int32_id)
  have reach: "num_hosts s - tot_up_unreachables (table s) (num_unreachable s) = int ?alive"
    using nh dead sum by linarith
  have "int ?alive < 2 ^ 31" using sum len by linarith
  then have "int ?alive < 2 ^ 32" by simp
  then have u: "to_uint32 (int ?alive) = int ?alive"
    by (simp add: to_uint32_def)
  have d0: "(\<exists>h \<in> set (table s). num_recv h = 0) \<longleftrightarrow> ?dead \<noteq> 0"
    by (auto simp: filter_empty_conv)
  have eqv: "(\<exists>h \<in> set (table s). num_recv h = 0) \<longleftrightarrow> num_alive s \<noteq> num_hosts s"
    unfolding d0 al nh using sum by linarith
  have "num_noaddress s = to_int32 (int (unresolved targets))"
    using assms(2,3) by (rule noaddress_run)
  moreover have "int (unresolved targets) < 2 ^ 31" using assms(5) by simp
  ultimately have "num_noaddress s = int (unresolved targets)" by (simp add: to_int32_id)
  then have na: "num_noaddress s \<noteq> 0 \<longleftrightarrow> 0 < num_noaddress s" by simp
  have "allocated_unless_loop cfg s" using allocated_run [OF assms(2,3)] by simp
  moreover have "report_all_rtts_flag cfg \<longrightarrow> \<not> loop_flag cfg"
    using main_config_flags [OF assms(1)] by blast
  ultimately have "report_all_rtts_flag cfg \<longrightarrow>
             (\<forall>h \<in> set (take (nat (num_hosts s)) (table s)). resp_times h \<noteq> None)"
    unfolding hosts by (auto simp: allocated_unless_loop_def in_set_conv_nth)
  from finish_Inr [OF this] show ?thesis
    using eqv unfolding hosts reach u na by simp
qed

theorem finish_status_witness:
  "\<exists>s0 s. main_config example_constants [Opt_C 3] = Inr rtts_config
     \<and> main_startup rtts_config 100000000000 [Addresses [Allocated junk0]] = Inr s0
     \<and> main_loop rtts_config late_inputs s0 = Inr (True, s)
     \<and> length (table s) < 2 ^ 31
     \<and> unresolved [Addresses [Allocated junk0]] < 2 ^ 31
     \<and> (\<forall>n < length (table s). accepted_replies n (history s) < 2 ^ 31)
     \<and> report_all_rtts_flag rtts_config
     \<and> finish rtts_config s = Inr 0"
proof -
  from rtts_run obtain s0 s where
    r: "main_startup rtts_config 100000000000 [Addresses [Allocated junk0]] = Inr s0"
       "main_loop rtts_config late_inputs s0 = Inr (True, s)"
    and f: "(history s, map num_recv (table s), num_noaddress s) =
       ([Reply 0 2 2 1000000 Accepted, Send Ping_event 0 2 2 102000000000 Send_ok,
         Reply 0 1 1 1000000 Accepted, Send Ping_event 0 1 1 101005000000 Send_ok,
         Reply 0 0 0 1000000 Accepted, Send Ping_event 0 0 0 100000000000 Send_ok],
        [3], 0)"
    by (elim exE conjE)
  have t: "\<exists>h. table s = [h] \<and> num_recv h = 3" using f by auto
  then have n: "length (table s) < 2 ^ 31" by auto
  have u: "unresolved [Addresses [Allocated junk0]] < 2 ^ 31" by simp
  have a: "\<forall>n < length (table s). accepted_replies n (history s) < 2 ^ 31"
    using f by (simp add: accepted_replies_def)
  have c: "min_reachable rtts_config = 0" "report_all_rtts_flag rtts_config"
    by (simp_all add: rtts_config_def)
  note m = example_configs(3)
  from finish_status [OF m r n u a] have "finish rtts_config s = Inr 0"
    using t f c by auto
  then show ?thesis using m r n u a c by blast
qed

section \<open>Conservation of the counters (C4)\<close>

lemma counters_conserved_update:
  assumes "counters_conserved s" "n < length (table s)" "table s' = (table s)[n := h']"
    and "history s' = a # history s"
    and "num_sent h' =
           (if accepted_for n a \<or> timeout_for n a \<or> send_error_for n a
            then to_int32 (num_sent (table s ! n) + 1) else num_sent (table s ! n))"
    and "num_recv h' =
           (if accepted_for n a then to_int32 (num_recv (table s ! n) + 1)
            else num_recv (table s ! n))"
    and "\<And>m. m \<noteq> n \<Longrightarrow> \<not> accepted_for m a \<and> \<not> timeout_for m a \<and> \<not> send_error_for m a"
  shows "counters_conserved s'"
  unfolding counters_conserved_def
proof (intro allI impI)
  fix m
  assume "m < length (table s')"
  then have m: "m < length (table s)" by (simp add: assms(3))
  have old: "num_sent (table s ! m) =
          to_int32 (accepted_replies m (history s) + timeouts_handled m (history s)
                    + send_errors m (history s))"
      "num_recv (table s ! m) = to_int32 (accepted_replies m (history s))"
    using assms(1) m by (simp_all add: counters_conserved_def)
  show "num_sent (table s' ! m) =
          to_int32 (accepted_replies m (history s') + timeouts_handled m (history s')
                    + send_errors m (history s'))
      \<and> num_recv (table s' ! m) = to_int32 (accepted_replies m (history s'))"
  proof (cases "m = n")
    case True
    define X where "X = accepted_replies n (history s) + timeouts_handled n (history s)
                   + send_errors n (history s)"
    define X' where "X' = accepted_replies n (a # history s) + timeouts_handled n (a # history s)
                   + send_errors n (a # history s)"
    have one: "(if accepted_for n a then 1 else 0) + (if timeout_for n a then 1 else 0)
             + (if send_error_for n a then 1 else 0) =
             (if accepted_for n a \<or> timeout_for n a \<or> send_error_for n a then 1 else (0::int))"
      by (cases a) auto
    have sum: "X' = X + (if accepted_for n a \<or> timeout_for n a \<or> send_error_for n a
                         then 1 else 0)"
      unfolding one [symmetric] X_def X'_def
      by (simp add: accepted_replies_Cons timeouts_handled_Cons send_errors_Cons)
    have o1: "num_sent (table s ! n) = to_int32 X"
      using old(1) True by (simp add: X_def)
    have ns: "num_sent h' = to_int32 X'"
    proof (cases "accepted_for n a \<or> timeout_for n a \<or> send_error_for n a")
      case k: True
      then have "num_sent h' = to_int32 (to_int32 X + 1)" using assms(5) o1 by simp
      also have "\<dots> = to_int32 (X + 1)" by (rule to_int32_step)
      finally show ?thesis using sum k by simp
    next
      case k: False
      then show ?thesis using assms(5) o1 sum by simp
    qed
    have o2: "num_recv (table s ! n) = to_int32 (accepted_replies n (history s))"
      using old(2) True by simp
    have nr: "num_recv h' = to_int32 (accepted_replies n (a # history s))"
    proof (cases "accepted_for n a")
      case k: True
      then have "num_recv h' = to_int32 (to_int32 (accepted_replies n (history s)) + 1)"
        using assms(6) o2 by simp
      also have "\<dots> = to_int32 (accepted_replies n (history s) + 1)" by (rule to_int32_step)
      finally show ?thesis using k by (simp add: accepted_replies_Cons)
    next
      case k: False
      then show ?thesis using assms(6) o2 by (simp add: accepted_replies_Cons)
    qed
    show ?thesis
      using ns nr m True unfolding assms(3,4) X'_def by simp
  next
    case False
    then show ?thesis
      using old m assms(7) [OF False] unfolding assms(3,4)
      by (simp add: accepted_replies_Cons timeouts_handled_Cons send_errors_Cons)
  qed
qed

lemma counters_conserved_touch:
  assumes "counters_conserved s" "n < length (table s)" "table s' = (table s)[n := h']"
    and "history s' = history s"
    and "num_sent h' = num_sent (table s ! n)" "num_recv h' = num_recv (table s ! n)"
  shows "counters_conserved s'"
  using assms(1,2,5,6) unfolding counters_conserved_def assms(3,4)
  by (auto simp: nth_list_update)

lemma counters_conserved_send:
  assumes "send_ping cfg org clock res n idx s = Inr s'" "counters_conserved s"
  shows "counters_conserved s'"
proof -
  from send_ping_Inr [OF assms(1)] obtain h' where
    f: "n < length (table s)" "table s' = (table s)[n := h']"
    "num_sent h' = (if res = Send_failed then to_int32 (num_sent (table s ! n) + 1)
                    else num_sent (table s ! n))"
    "num_recv h' = num_recv (table s ! n)"
    "history s' = Send org n idx (seqmap_next_id (seqmap s)) clock res # history s"
    by blast
  show ?thesis
    by (rule counters_conserved_update [OF assms(2) f(1,2,5)]) (simp_all add: f(3,4))
qed

lemma counters_conserved_timeout:
  assumes "stats_add cfg (table s ! n) idx False (- 1) (num_timeout s) = Inr (h1, nt)"
    and "n < length (table s)" "counters_conserved s"
  shows "counters_conserved (s\<lparr>table := (table s)[n := h1], num_timeout := nt,
              history := Timed_out n idx # history s\<rparr>)"
proof -
  have f: "num_sent h1 = to_int32 (num_sent (table s ! n) + 1)"
    "num_recv h1 = num_recv (table s ! n)"
    using stats_add_Inr [OF assms(1)] by simp_all
  show ?thesis
    by (rule counters_conserved_update [where n = n and h' = h1 and a = "Timed_out n idx",
          OF assms(3,2)]) (simp_all add: f)
qed

lemma counters_conserved_backoff:
  assumes "n < length (table s)" "counters_conserved s"
  shows "counters_conserved (s\<lparr>table := (table s)[n := (table s ! n)\<lparr>h_timeout := x\<rparr>]\<rparr>)"
  using counters_conserved_touch [of s n _ "(table s ! n)\<lparr>h_timeout := x\<rparr>"] assms by simp

lemma counters_conserved_reply:
  assumes "wait_for_reply cfg pkt s = Inr s'" "counters_conserved s"
  shows "counters_conserved s'"
  using assms(1)
proof (cases rule: wait_for_reply_cases)
  case Dropped
  then show ?thesis using assms(2) by (simp add: counters_conserved_def)
next
  case (Matched n idx seq rtt vd h' v d)
  show ?thesis
    by (rule counters_conserved_update [OF assms(2) Matched(5,6,7)])
       (simp_all add: Matched(9,10))
qed

lemma counters_conserved_reset:
  assumes "counters_conserved s"
  shows "counters_conserved (for_hosts stats_reset_interval s)"
  using assms
  by (simp add: counters_conserved_def for_hosts_length for_hosts_nth for_hosts_frame
      stats_reset_interval_frame)

lemma counters_conserved_body:
  assumes "main_loop_body cfg inp s = Inr (c, s')" "counters_conserved s"
  shows "counters_conserved s'"
proof (rule main_loop_body_preserves [where P = counters_conserved, OF _ _ _ _ _ _ _ _ _ _ assms(2,1)])
  show "\<And>s q. counters_conserved (s\<lparr>event_queue_timeout := q\<rparr>) = counters_conserved s"
    by (simp add: counters_conserved_def)
  show "\<And>s q. counters_conserved (s\<lparr>event_queue_ping := q\<rparr>) = counters_conserved s"
    by (simp add: counters_conserved_def)
  show "\<And>s b. counters_conserved (s\<lparr>finish_requested := b\<rparr>) = counters_conserved s"
    by (simp add: counters_conserved_def)
  show "\<And>s c. counters_conserved (s\<lparr>current_time_ns := c\<rparr>) = counters_conserved s"
    by (simp add: counters_conserved_def)
  show "\<And>s c. counters_conserved (s\<lparr>next_report_time := c\<rparr>) = counters_conserved s"
    by (simp add: counters_conserved_def)
qed (fact counters_conserved_send counters_conserved_timeout counters_conserved_backoff
       counters_conserved_reply counters_conserved_reset)+

lemma counters_conserved_run:
  assumes "main_startup cfg clock targets = Inr s0" "main_loop cfg inps s0 = Inr (b, s)"
  shows "counters_conserved s"
proof -
  have "fresh_state cfg clock s0" using main_startup_fresh [OF assms(1)] by simp
  then have "counters_conserved s0"
    by (auto simp: fresh_state_def counters_conserved_def timeouts_handled_def
        send_errors_def accepted_replies_def to_int32_def)
  with counters_conserved_body show ?thesis using assms(2) by (rule main_loop_preserves)
qed

text \<open>
  C4: after \<open>main_startup\<close> and a run of \<open>main_loop\<close>, when the loop is left as at any
  earlier point, every host's \<open>num_sent\<close> is the sum of its \<open>num_recv\<close>, of the number
  of timeout events handled for it and of the number of its failed sends, and its
  \<open>num_recv\<close> is the number of replies accepted for it.  The counters are \<open>int\<close>s: the
  sum is taken to be below \<open>2 ^ 31\<close>.
\<close>

theorem counters_conservation:
  assumes "main_startup cfg clock targets = Inr s0"
    and "main_loop cfg inps s0 = Inr (b, s)"
    and "n < length (table s)"
    and "accepted_replies n (history s) + timeouts_handled n (history s)
           + send_errors n (history s) < 2 ^ 31"
  shows "num_sent (table s ! n) =
           num_recv (table s ! n) + timeouts_handled n (history s) + send_errors n (history s)
       \<and> num_recv (table s ! n) = accepted_replies n (history s)"
proof -
  have inv: "num_sent (table s ! n) =
          to_int32 (accepted_replies n (history s) + timeouts_handled n (history s)
                    + send_errors n (history s))"
      "num_recv (table s ! n) = to_int32 (accepted_replies n (history s))"
    using counters_conserved_run [OF assms(1,2)] assms(3)
    by (simp_all add: counters_conserved_def)
  note ge = counts_nonneg(1-3) [of n "history s"]
  have "accepted_replies n (history s) < 2 ^ 31" using assms(4) ge by linarith
  then have r: "num_recv (table s ! n) = accepted_replies n (history s)"
    using inv(2) ge(1) by (simp add: to_int32_id)
  have "0 \<le> accepted_replies n (history s) + timeouts_handled n (history s)
           + send_errors n (history s)" using ge by linarith
  then have "num_sent (table s ! n) =
          accepted_replies n (history s) + timeouts_handled n (history s)
            + send_errors n (history s)"
    using inv(1) assms(4) by (simp add: to_int32_id)
  then show ?thesis using r by simp
qed

theorem counters_conservation_witness:
  "(\<exists>s0 s. main_startup oneshot_config 100000000000 [Addresses [Allocated junk0]] = Inr s0
     \<and> main_loop oneshot_config silent_inputs s0 = Inr (False, s)
     \<and> 0 < length (table s)
     \<and> accepted_replies 0 (history s) + timeouts_handled 0 (history s)
         + send_errors 0 (history s) < 2 ^ 31
     \<and> num_sent (table s ! 0) = 1 \<and> num_recv (table s ! 0) = 0
     \<and> timeouts_handled 0 (history s) = 1 \<and> send_errors 0 (history s) = 0
     \<and> accepted_replies 0 (history s) = 0)
 \<and> (\<exists>s0 s. main_startup loop_config 100000000000 [Addresses [Allocated junk0]] = Inr s0
     \<and> main_loop loop_config stalled_inputs s0 = Inr (False, s)
     \<and> 0 < length (table s)
     \<and> accepted_replies 0 (history s) + timeouts_handled 0 (history s)
         + send_errors 0 (history s) < 2 ^ 31
     \<and> num_sent (table s ! 0) = 1 \<and> num_recv (table s ! 0) = 0
     \<and> timeouts_handled 0 (history s) = 1 \<and> send_errors 0 (history s) = 0
     \<and> accepted_replies 0 (history s) = 0)"
proof
  from silent_run obtain s0 s where
    r: "main_startup oneshot_config 100000000000 [Addresses [Allocated junk0]] = Inr s0"
       "main_loop oneshot_config silent_inputs s0 = Inr (False, s)"
    and f: "(history s, map num_sent (table s), map num_recv (table s)) =
       ([Send Retry 0 0 1 100005000000 Send_ok, Timed_out 0 0,
         Send Ping_event 0 0 0 100000000000 Send_ok],
        [1], [0])"
    by (elim exE conjE)
  have n: "0 < length (table s)" using f by auto
  have t: "timeouts_handled 0 (history s) = 1" "send_errors 0 (history s) = 0"
    "accepted_replies 0 (history s) = 0"
    using f by (simp_all add: timeouts_handled_def send_errors_def accepted_replies_def)
  have l: "accepted_replies 0 (history s) + timeouts_handled 0 (history s)
         + send_errors 0 (history s) < 2 ^ 31"
    by (simp add: t)
  from counters_conservation [OF r n l]
  show "\<exists>s0 s. main_startup oneshot_config 100000000000 [Addresses [Allocated junk0]] = Inr s0
     \<and> main_loop oneshot_config silent_inputs s0 = Inr (False, s)
     \<and> 0 < length (table s)
     \<and> accepted_replies 0 (history s) + timeouts_handled 0 (history s)
         + send_errors 0 (history s) < 2 ^ 31
     \<and> num_sent (table s ! 0) = 1 \<and> num_recv (table s ! 0) = 0
     \<and> timeouts_handled 0 (history s) = 1 \<and> send_errors 0 (history s) = 0
     \<and> accepted_replies 0 (history s) = 0"
    using r n l t by auto
next
  from stalled_run obtain s0 s where
    r: "main_startup loop_config 100000000000 [Addresses [Allocated junk0]] = Inr s0"
       "main_loop loop_config stalled_inputs s0 = Inr (False, s)"
    and f: "(history s, map num_sent (table s), map num_recv (table s)) =
       ([Timed_out 0 2, Send Ping_event 0 2 2 102000000000 Send_ok,
         Send Ping_event 0 1 1 101510000000 Send_ok,
         Send Ping_event 0 0 0 101500000000 Send_ok],
        [1], [0])"
    by (elim exE conjE)
  have n: "0 < length (table s)" using f by auto
  have t: "timeouts_handled 0 (history s) = 1" "send_errors 0 (history s) = 0"
    "accepted_replies 0 (history s) = 0"
    using f by (simp_all add: timeouts_handled_def send_errors_def accepted_replies_def)
  have l: "accepted_replies 0 (history s) + timeouts_handled 0 (history s)
         + send_errors 0 (history s) < 2 ^ 31"
    by (simp add: t)
  from counters_conservation [OF r n l]
  show "\<exists>s0 s. main_startup loop_config 100000000000 [Addresses [Allocated junk0]] = Inr s0
     \<and> main_loop loop_config stalled_inputs s0 = Inr (False, s)
     \<and> 0 < length (table s)
     \<and> accepted_replies 0 (history s) + timeouts_handled 0 (history s)
         + send_errors 0 (history s) < 2 ^ 31
     \<and> num_sent (table s ! 0) = 1 \<and> num_recv (table s ! 0) = 0
     \<and> timeouts_handled 0 (history s) = 1 \<and> send_errors 0 (history s) = 0
     \<and> accepted_replies 0 (history s) = 0"
    using r n l t by auto
qed

section \<open>The queues during a run\<close>

lemma send_ping_queues:
  assumes "send_ping cfg org clock res n idx s = Inr s'"
  shows "event_queue_ping s' = event_queue_ping s
       \<and> (event_queue_timeout s' = event_queue_timeout s
          \<or> (\<exists>t. host_add_event cfg n idx t (event_queue_timeout s) = Inr (event_queue_timeout s')))"
proof -
  have n: "n < length (table s)"
    using assms by (simp add: send_ping_def split: if_splits)
  show ?thesis
  proof (cases res)
    case No_socket
    then show ?thesis using assms n by (auto simp: send_ping_def seqmap_add_def Let_def)
  next
    case Send_failed
    then show ?thesis
      using assms n by (auto simp: send_ping_def seqmap_add_def Let_def split: sum.splits)
  next
    case Send_ok
    then show ?thesis
      using assms n by (auto simp: send_ping_def seqmap_add_def Let_def split: sum.splits)
  qed
qed

lemma accept_reply_queues:
  assumes "accept_reply cfg n idx rtt s = Inr s'"
  shows "event_queue_ping s' = event_queue_ping s
       \<and> (\<exists>r. event_queue_timeout s' = ev_remove (event_queue_timeout s) r)"
proof -
  obtain h1 nt where st: "stats_add cfg (table s ! n) idx True rtt (num_timeout s) = Inr (h1, nt)"
    using assms by (auto simp: accept_reply_def split: sum.splits)
  obtain q where q: "ev_remove_slot cfg n idx (event_queue_timeout s) = Inr q"
    using assms st by (auto simp: accept_reply_def split: sum.splits)
  obtain r where r: "q = ev_remove (event_queue_timeout s) r"
    using q by (auto simp: ev_remove_slot_def split: sum.splits)
  have "event_queue_ping s' = event_queue_ping s \<and> event_queue_timeout s' = q"
    using assms st q by (auto simp: accept_reply_def Let_def split: if_splits)
  then show ?thesis using r by blast
qed

lemma wait_for_reply_queues:
  assumes "wait_for_reply cfg pkt s = Inr s'"
  shows "event_queue_ping s' = event_queue_ping s
       \<and> (event_queue_timeout s' = event_queue_timeout s
          \<or> (\<exists>r. event_queue_timeout s' = ev_remove (event_queue_timeout s) r))"
proof (cases "pkt_decoded pkt")
  case None
  then show ?thesis using assms by (auto simp: wait_for_reply_def Let_def)
next
  case (Some a)
  obtain seq d where a: "a = (seq, d)" by (cases a)
  show ?thesis
  proof (cases "seqmap_fetch cfg (seqmap s) seq (pkt_clock pkt)")
    case None
    then show ?thesis using assms Some a by (auto simp: wait_for_reply_def Let_def)
  next
    case v: (Some v)
    define s2 where "s2 = s\<lparr>current_time_ns := pkt_clock pkt,
        table := (table s)[host_nr v := (table s ! host_nr v)\<lparr>num_recv_total :=
                    to_int32 (num_recv_total (table s ! host_nr v) + 1)\<rparr>],
        num_pingreceived := to_int32 (num_pingreceived s + 1)\<rparr>"
    have q2: "event_queue_ping s2 = event_queue_ping s"
      "event_queue_timeout s2 = event_queue_timeout s"
      by (simp_all add: s2_def)
    have "(\<exists>vd rtt. s' = s2\<lparr>history := Reply (host_nr v) (ping_count v) seq rtt vd # history s2\<rparr>)
        \<or> (\<exists>vd rtt. accept_reply cfg (host_nr v) (ping_count v) rtt
               (s2\<lparr>history := Reply (host_nr v) (ping_count v) seq rtt vd # history s2\<rparr>) = Inr s')"
      using assms Some a v unfolding s2_def
      by (auto simp: wait_for_reply_def Let_def split: sum.splits if_splits)
    then show ?thesis
    proof (elim disjE exE)
      fix vd rtt
      assume "s' = s2\<lparr>history := Reply (host_nr v) (ping_count v) seq rtt vd # history s2\<rparr>"
      then show ?thesis using q2 by simp
    next
      fix vd rtt
      assume "accept_reply cfg (host_nr v) (ping_count v) rtt
               (s2\<lparr>history := Reply (host_nr v) (ping_count v) seq rtt vd # history s2\<rparr>) = Inr s'"
      from accept_reply_queues [OF this] show ?thesis using q2 by simp
    qed
  qed
qed

lemma queues_written_send:
  assumes "send_ping cfg org clock res n idx s = Inr s'" "queues_written s"
  shows "queues_written s'"
  using send_ping_queues [OF assms(1)] assms(2)
  by (auto simp: queues_written_def intro: queue_written_add)

lemma queues_written_reply:
  assumes "wait_for_reply cfg pkt s = Inr s'" "queues_written s"
  shows "queues_written s'"
  using wait_for_reply_queues [OF assms(1)] assms(2)
  by (auto simp: queues_written_def intro: queue_written_remove)

lemma queues_written_timeout_event:
  assumes "timeout_event cfg inp ev s = Inr s'" "queues_written s"
  shows "queues_written s'"
proof (rule timeout_event_preserves [where P = queues_written, OF _ _ _ assms(2,1)])
  show "\<And>clock res n idx s s'.
        send_ping cfg Retry clock res n idx s = Inr s' \<Longrightarrow> queues_written s \<Longrightarrow> queues_written s'"
    by (rule queues_written_send)
qed (simp_all add: queues_written_def)

lemma queues_written_ping_event:
  assumes "ping_event cfg inp s = Inr s'" "queues_written s"
  shows "queues_written s'"
proof -
  from ping_event_cases [OF assms(1)] show ?thesis
  proof
    assume "s' = s" then show ?thesis using assms(2) by simp
  next
    assume "\<exists>r n s1.
        q_first (event_queue_ping s) = Some r
      \<and> ev_time (storage (event_queue_ping s) r) \<le> current_time_ns s
      \<and> interval cfg \<le> current_time_ns s - last_send_time s
      \<and> ev_host (storage (event_queue_ping s) r) = Some n
      \<and> send_ping cfg Ping_event (in_send_clock inp) (in_send_result inp) n
           (ping_index (storage (event_queue_ping s) r))
           (s\<lparr>event_queue_ping := ev_remove (event_queue_ping s) r\<rparr>) = Inr s1
      \<and> (s' = s1 \<or>
          (\<exists>q1. host_add_event cfg n (to_int32 (ping_index (storage (event_queue_ping s) r) + 1))
                  (ev_time (storage (event_queue_ping s) r) + perhost_interval cfg)
                  (event_queue_ping s1) = Inr q1
             \<and> s' = s1\<lparr>event_queue_ping := q1\<rparr>))"
    then obtain r n s1 where
      sp: "send_ping cfg Ping_event (in_send_clock inp) (in_send_result inp) n
           (ping_index (storage (event_queue_ping s) r))
           (s\<lparr>event_queue_ping := ev_remove (event_queue_ping s) r\<rparr>) = Inr s1"
      and alt: "s' = s1 \<or>
          (\<exists>q1 i t. host_add_event cfg n i t (event_queue_ping s1) = Inr q1
             \<and> s' = s1\<lparr>event_queue_ping := q1\<rparr>)"
      by blast
    have "queues_written (s\<lparr>event_queue_ping := ev_remove (event_queue_ping s) r\<rparr>)"
      using assms(2) by (simp add: queues_written_def queue_written_remove)
    with sp have "queues_written s1" by (rule queues_written_send)
    then show ?thesis
      using alt by (auto simp: queues_written_def intro: queue_written_add)
  qed
qed

lemma queues_written_body:
  assumes "main_loop_body cfg inp s = Inr (c, s')" "queues_written s"
  shows "queues_written s'"
proof (rule main_loop_body_branches [where P = queues_written, OF _ _ _ _ _ _ _ assms(1)])
  fix r s1
  assume "timeout_event cfg inp (storage (ev_remove (event_queue_timeout s) r) r)
          (s\<lparr>event_queue_timeout := ev_remove (event_queue_timeout s) r\<rparr>) = Inr s1"
  moreover have "queues_written (s\<lparr>event_queue_timeout := ev_remove (event_queue_timeout s) r\<rparr>)"
    using assms(2) by (simp add: queues_written_def queue_written_remove)
  ultimately show "queues_written s1" by (rule queues_written_timeout_event)
next
  fix s1
  assume "ping_event cfg inp s = Inr s1"
  then show "queues_written s1" using assms(2) by (rule queues_written_ping_event)
next
  show "\<And>pkt s s'. wait_for_reply cfg pkt s = Inr s' \<Longrightarrow> queues_written s \<Longrightarrow> queues_written s'"
    by (rule queues_written_reply)
qed (simp_all add: queues_written_def for_hosts_def)

section \<open>Loop mode and the response times (C10)\<close>

lemma send_ping_loop:
  assumes "loop_flag cfg"
  shows "send_ping cfg org clock res n idx s \<noteq> Inl NullPointer"
proof
  assume a: "send_ping cfg org clock res n idx s = Inl NullPointer"
  then have n: "n < length (table s)" by (simp add: send_ping_def split: if_splits)
  show False
  proof (cases res)
    case No_socket
    then show ?thesis using a n by (simp add: send_ping_def seqmap_add_def Let_def)
  next
    case Send_failed
    then show ?thesis using a n assms by (simp add: send_ping_def seqmap_add_def Let_def)
  next
    case Send_ok
    then show ?thesis
      using a n assms host_add_event_Inl
      by (auto simp: send_ping_def seqmap_add_def Let_def split: sum.splits)
  qed
qed

lemma stats_add_loop:
  "loop_flag cfg \<Longrightarrow> stats_add cfg h idx succ lat nt \<noteq> Inl NullPointer"
  using stats_add_Inl by blast

lemma accept_reply_loop:
  assumes "loop_flag cfg"
  shows "accept_reply cfg n idx rtt s \<noteq> Inl NullPointer"
proof
  assume a: "accept_reply cfg n idx rtt s = Inl NullPointer"
  show False
  proof (cases "stats_add cfg (table s ! n) idx True rtt (num_timeout s)")
    case (Inl e)
    then show ?thesis using a stats_add_loop [OF assms] by (auto simp: accept_reply_def)
  next
    case (Inr p)
    obtain h1 nt where p: "p = (h1, nt)" by (cases p)
    show ?thesis
    proof (cases "ev_remove_slot cfg n idx (event_queue_timeout s)")
      case (Inl e)
      then show ?thesis using a Inr p ev_remove_slot_Inl by (auto simp: accept_reply_def)
    next
      case q: (Inr q)
      then show ?thesis using a Inr p
        by (auto simp: accept_reply_def Let_def split: if_splits)
    qed
  qed
qed

lemma wait_for_reply_loop:
  assumes "loop_flag cfg"
  shows "wait_for_reply cfg pkt s \<noteq> Inl NullPointer"
proof
  assume a: "wait_for_reply cfg pkt s = Inl NullPointer"
  have rv: "reply_verdict cfg h idx rtt d \<noteq> Inl NullPointer" for h idx rtt d
    using reply_verdict_Inl assms by blast
  show False
    using a rv accept_reply_loop [OF assms]
    by (auto simp: wait_for_reply_def Let_def split: option.splits if_splits sum.splits)
qed

lemma wait_for_replies_loop:
  "loop_flag cfg \<Longrightarrow> wait_for_replies cfg pkts s \<noteq> Inl NullPointer"
proof (induction pkts arbitrary: s)
  case Nil
  then show ?case by simp
next
  case (Cons p ps)
  then show ?case
    using wait_for_reply_loop [of cfg p s] by (auto split: sum.splits)
qed

lemma timeout_event_loop:
  assumes "loop_flag cfg" "ev_host ev \<noteq> None"
  shows "timeout_event cfg inp ev s \<noteq> Inl NullPointer"
  using stats_add_loop [OF assms(1)] assms
  by (auto simp: timeout_event_def Let_def split: sum.splits if_splits option.splits)

lemma ping_event_loop:
  assumes "loop_flag cfg" "queues_written s"
  shows "ping_event cfg inp s \<noteq> Inl NullPointer"
proof (cases "q_first (event_queue_ping s)")
  case None
  then show ?thesis by (simp add: ping_event_def)
next
  case (Some r)
  then have "ev_host (storage (event_queue_ping s) r) \<noteq> None"
    using assms(2) by (simp add: queues_written_def queue_written_def)
  then obtain n where n: "ev_host (storage (ev_remove (event_queue_ping s) r) r) = Some n"
    by (auto simp: ev_remove_fields)
  show ?thesis
    using Some n send_ping_loop [OF assms(1)] host_add_event_Inl
    by (auto simp: ping_event_def Let_def split: sum.splits if_splits)
qed

lemma main_loop_body_loop:
  assumes "loop_flag cfg" "queues_written s"
  shows "main_loop_body cfg inp s \<noteq> Inl NullPointer"
proof
  assume a: "main_loop_body cfg inp s = Inl NullPointer"
  have te: "timeout_event cfg inp (storage (ev_remove (event_queue_timeout s) r) r) s1
              \<noteq> Inl NullPointer"
    if "q_first (event_queue_timeout s) = Some r" for r s1
  proof -
    have "ev_host (storage (event_queue_timeout s) r) \<noteq> None"
      using assms(2) that by (simp add: queues_written_def queue_written_def)
    then have "ev_host (storage (ev_remove (event_queue_timeout s) r) r) \<noteq> None"
      by (simp add: ev_remove_fields)
    with assms(1) show ?thesis by (rule timeout_event_loop)
  qed
  show False
    using a te ping_event_loop [OF assms] wait_for_replies_loop [OF assms(1)]
    by (auto simp: main_loop_body_def Let_def split: sum.splits if_splits option.splits)
qed

lemma main_loop_loop:
  "loop_flag cfg \<Longrightarrow> queues_written s \<Longrightarrow> main_loop cfg inps s \<noteq> Inl NullPointer"
proof (induction inps arbitrary: s)
  case Nil
  then show ?case by simp
next
  case (Cons inp inps)
  show ?case
  proof (cases "main_loop_body cfg inp s")
    case (Inl e)
    then show ?thesis
      using main_loop_body_loop [OF Cons.prems, of inp] by auto
  next
    case (Inr p)
    obtain c s1 where p: "p = (c, s1)" by (cases p)
    have "queues_written s1" using Inr Cons.prems(2) unfolding p by (rule queues_written_body)
    from Cons.IH [OF Cons.prems(1) this] show ?thesis
      using Inr p by (cases c) auto
  qed
qed

lemma finish_quiet:
  "\<not> report_all_rtts_flag cfg \<Longrightarrow> \<exists>status. finish cfg s = Inr status"
  using finish_Inr [of cfg s] by auto

text \<open>
  C10: for a configuration that \<open>main\<close> computes with the loop flag set, every host has the
  null pointer for \<open>resp_times\<close> after startup and after any run of \<open>main_loop\<close>.
  \<open>stats_add\<close>, \<open>send_ping\<close> and \<open>wait_for_reply\<close> never dereference a null pointer,
  on any state, and neither do \<open>main_loop\<close> and \<open>finish\<close>: a read or write of
  \<open>resp_times\<close> would, so there is none.
\<close>

theorem loop_mode_resp_times:
  assumes "main_config k opts = Inr cfg" and "loop_flag cfg"
    and "main_startup cfg clock targets = Inr s0"
  shows "(\<forall>h \<in> set (table s0). resp_times h = None)
       \<and> stats_add cfg h idx succ lat nt \<noteq> Inl NullPointer
       \<and> send_ping cfg org c res n i s \<noteq> Inl NullPointer
       \<and> wait_for_reply cfg pkt s \<noteq> Inl NullPointer
       \<and> main_loop cfg inps s0 \<noteq> Inl NullPointer
       \<and> (main_loop cfg inps s0 = Inr (b, s') \<longrightarrow>
            (\<forall>h \<in> set (table s'). resp_times h = None) \<and> finish cfg s' \<noteq> Inl NullPointer)"
proof -
  have fr: "fresh_state cfg clock s0" using main_startup_fresh [OF assms(3)] by simp
  then have a: "\<forall>h \<in> set (table s0). resp_times h = None"
    using assms(2) by (simp add: fresh_state_def)
  have w: "queues_written s0" using fr by (simp add: fresh_state_def)
  have "\<not> report_all_rtts_flag cfg"
    using main_config_flags [OF assms(1)] assms(2) by auto
  then have f: "finish cfg s' \<noteq> Inl NullPointer"
    using finish_quiet [of cfg s'] by auto
  have r: "\<forall>h \<in> set (table s'). resp_times h = None" if "main_loop cfg inps s0 = Inr (b, s')"
    using allocated_run [OF assms(3) that] assms(2)
    by (auto simp: allocated_unless_loop_def in_set_conv_nth)
  show ?thesis
    using a f r stats_add_loop [OF assms(2)] send_ping_loop [OF assms(2)]
      wait_for_reply_loop [OF assms(2)] main_loop_loop [OF assms(2) w]
    by blast
qed

theorem loop_mode_resp_times_witness:
  "\<exists>s0 s. main_config example_constants [Opt_l] = Inr loop_config
     \<and> loop_flag loop_config
     \<and> main_startup loop_config 100000000000 [Addresses [Allocated junk0]] = Inr s0
     \<and> main_loop loop_config duplicate_inputs s0 = Inr (False, s)
     \<and> (\<forall>h \<in> set (table s0). resp_times h = None)
     \<and> (\<forall>h \<in> set (table s). resp_times h = None)
     \<and> finish loop_config s \<noteq> Inl NullPointer"
proof -
  have c: "main_config example_constants [Opt_l] = Inr loop_config"
    by (simp add: main_config_def main_settings_def initial_config_def example_constants_def
        loop_config_def to_uint32_def main_event_storage_count_def to_int32_def c_div_def)
  have l: "loop_flag loop_config" by (simp add: loop_config_def)
  from duplicate_run obtain s0 s where
    r: "main_startup loop_config 100000000000 [Addresses [Allocated junk0]] = Inr s0"
       "main_loop loop_config duplicate_inputs s0 = Inr (False, s)"
    by blast
  from loop_mode_resp_times [OF c l r(1), of _ _ _ _ _ _ _ _ _ _ _ _ duplicate_inputs False s]
  show ?thesis using c l r by blast
qed

section \<open>Replies and the sequence map (C7)\<close>

lemma correlated_update:
  assumes "correlated s" "n < length (table s)" "table s' = (table s)[n := h']"
    and "history s' = a # history s"
    and "seqmap_map (seqmap s') = sent_with_seq (a # history s)"
    and "replies_matched (a # history s)"
    and "num_recv_total h' =
           (if reply_for n a then to_int32 (num_recv_total (table s ! n) + 1)
            else num_recv_total (table s ! n))"
    and "\<And>m. m \<noteq> n \<Longrightarrow> \<not> reply_for m a"
  shows "correlated s'"
  unfolding correlated_def
proof (intro conjI allI impI)
  show "seqmap_map (seqmap s') = sent_with_seq (history s')" using assms(4,5) by simp
  show "replies_matched (history s')" using assms(4,6) by simp
next
  fix m
  assume "m < length (table s')"
  then have m: "m < length (table s)" by (simp add: assms(3))
  have old: "num_recv_total (table s ! m) = to_int32 (matched_replies m (history s))"
    using assms(1) m by (simp add: correlated_def)
  show "num_recv_total (table s' ! m) = to_int32 (matched_replies m (history s'))"
  proof (cases "m = n")
    case True
    then show ?thesis
      using old m assms(7) unfolding assms(3,4)
      by (simp add: matched_replies_Cons to_int32_step)
  next
    case False
    then show ?thesis
      using old m assms(8) [OF False] unfolding assms(3,4) by (simp add: matched_replies_Cons)
  qed
qed

lemma sent_with_seq_skip:
  "sent_with_seq (Timed_out n i # rest) = sent_with_seq rest"
  "sent_with_seq (Reply n i q rtt v # rest) = sent_with_seq rest"
  by (simp_all add: fun_eq_iff)

lemma correlated_send:
  assumes "send_ping cfg org clock res n idx s = Inr s'" "correlated s"
  shows "correlated s'"
proof -
  from send_ping_Inr [OF assms(1)] obtain h' where
    f: "n < length (table s)" "table s' = (table s)[n := h']"
    "num_recv_total h' = num_recv_total (table s ! n)"
    "history s' = Send org n idx (seqmap_next_id (seqmap s)) clock res # history s"
    "seqmap s' = snd (seqmap_add (seqmap s) n idx clock)"
    by blast
  have m: "seqmap_map (seqmap s') =
      sent_with_seq (Send org n idx (seqmap_next_id (seqmap s)) clock res # history s)"
    using assms(2) unfolding f(5) by (auto simp: correlated_def seqmap_add_def)
  have r: "replies_matched (Send org n idx (seqmap_next_id (seqmap s)) clock res # history s)"
    using assms(2) by (simp add: correlated_def)
  show ?thesis
    using assms(2) f(1,2,4) m r
    by (rule correlated_update) (simp_all add: f(3))
qed

lemma correlated_timeout:
  assumes "stats_add cfg (table s ! n) idx False (- 1) (num_timeout s) = Inr (h1, nt)"
    and "n < length (table s)" "correlated s"
  shows "correlated (s\<lparr>table := (table s)[n := h1], num_timeout := nt,
              history := Timed_out n idx # history s\<rparr>)"
proof -
  have t: "num_recv_total h1 = num_recv_total (table s ! n)"
    using stats_add_Inr [OF assms(1)] by simp
  have m: "seqmap_map (seqmap s) = sent_with_seq (Timed_out n idx # history s)"
    using assms(3) by (simp add: correlated_def sent_with_seq_skip)
  have r: "replies_matched (Timed_out n idx # history s)"
    using assms(3) by (simp add: correlated_def)
  show ?thesis
    by (rule correlated_update [where s = s and n = n and h' = h1 and a = "Timed_out n idx"])
       (use assms(2,3) t m r in simp_all)
qed

lemma correlated_backoff:
  assumes "n < length (table s)" "correlated s"
  shows "correlated (s\<lparr>table := (table s)[n := (table s ! n)\<lparr>h_timeout := x\<rparr>]\<rparr>)"
  using assms unfolding correlated_def by (auto simp: nth_list_update)

lemma seqmap_fetch_Some:
  "seqmap_fetch cfg m seq now = Some v \<Longrightarrow> seqmap_map m seq = Some v"
  by (auto simp: seqmap_fetch_def split: option.splits if_splits)

lemma correlated_reply:
  assumes "wait_for_reply cfg pkt s = Inr s'" "correlated s"
  shows "correlated s'"
proof -
  have sm: "seqmap s' = seqmap s" using wait_for_reply_frame [OF assms(1)] by simp
  from assms(1) show ?thesis
  proof (cases rule: wait_for_reply_cases)
    case Dropped
    then show ?thesis using assms(2) sm by (simp add: correlated_def)
  next
    case (Matched n idx seq rtt vd h' v d)
    have e: "sent_with_seq (history s) seq = Some v"
      using seqmap_fetch_Some [OF Matched(2)] assms(2) by (simp add: correlated_def)
    have m: "seqmap_map (seqmap s') = sent_with_seq (Reply n idx seq rtt vd # history s)"
      using assms(2) sm by (simp add: correlated_def sent_with_seq_skip)
    have r: "replies_matched (Reply n idx seq rtt vd # history s)"
      using assms(2) e Matched(3,4) by (simp add: correlated_def)
    show ?thesis
      using assms(2) Matched(5,6,7) m r
      by (rule correlated_update) (simp_all add: Matched(8))
  qed
qed

lemma correlated_reset:
  assumes "correlated s"
  shows "correlated (for_hosts stats_reset_interval s)"
  using assms
  by (simp add: correlated_def for_hosts_length for_hosts_nth for_hosts_frame
      stats_reset_interval_frame)

lemma correlated_body:
  assumes "main_loop_body cfg inp s = Inr (c, s')" "correlated s"
  shows "correlated s'"
proof (rule main_loop_body_preserves [where P = correlated, OF _ _ _ _ _ _ _ _ _ _ assms(2,1)])
  show "\<And>s q. correlated (s\<lparr>event_queue_timeout := q\<rparr>) = correlated s"
    by (simp add: correlated_def)
  show "\<And>s q. correlated (s\<lparr>event_queue_ping := q\<rparr>) = correlated s"
    by (simp add: correlated_def)
  show "\<And>s b. correlated (s\<lparr>finish_requested := b\<rparr>) = correlated s"
    by (simp add: correlated_def)
  show "\<And>s c. correlated (s\<lparr>current_time_ns := c\<rparr>) = correlated s"
    by (simp add: correlated_def)
  show "\<And>s c. correlated (s\<lparr>next_report_time := c\<rparr>) = correlated s"
    by (simp add: correlated_def)
qed (fact correlated_send correlated_timeout correlated_backoff
       correlated_reply correlated_reset)+

lemma correlated_run:
  assumes "main_startup cfg clock targets = Inr s0" "main_loop cfg inps s0 = Inr (b, s)"
  shows "correlated s"
proof -
  have "fresh_state cfg clock s0" using main_startup_fresh [OF assms(1)] by simp
  then have "correlated s0"
    by (auto simp: fresh_state_def correlated_def matched_replies_def seqmap_init_def
        to_int32_def)
  with correlated_body show ?thesis using assms(2) by (rule main_loop_preserves)
qed

lemma slots_hold_update:
  assumes "slots_hold s" "n < length (table s)" "table s' = (table s)[n := h']"
    and "history s' = a # history s"
    and cell: "\<And>idx. slot_accepted n idx (a # history s) \<Longrightarrow>
        \<exists>r. resp_times h' = Some r \<and> 0 \<le> idx \<and> nat idx < length r \<and> 0 \<le> r ! nat idx"
    and other: "\<And>m idx. m \<noteq> n \<Longrightarrow> slot_accepted m idx (a # history s) \<Longrightarrow>
        slot_accepted m idx (history s)"
    and nda: "no_double_accept (a # history s)"
  shows "slots_hold s'"
  unfolding slots_hold_def
proof (intro conjI allI impI)
  show "no_double_accept (history s')" using nda assms(4) by simp
next
  fix m idx
  assume m': "m < length (table s')" and sa: "slot_accepted m idx (history s')"
  have m: "m < length (table s)" using m' by (simp add: assms(3))
  show "\<exists>r. resp_times (table s' ! m) = Some r \<and> 0 \<le> idx \<and> nat idx < length r
           \<and> 0 \<le> r ! nat idx"
  proof (cases "m = n")
    case True
    then show ?thesis using cell [of idx] sa m unfolding assms(3,4) by simp
  next
    case False
    have "slot_accepted m idx (history s)"
      using other [OF False] sa unfolding assms(4) by simp
    then show ?thesis
      using assms(1) m False unfolding assms(3) by (simp add: slots_hold_def)
  qed
qed

lemma slots_hold_cell:
  assumes "slots_hold s" "n < length (table s)" "slot_accepted n idx (history s)"
  shows "\<exists>r. resp_times (table s ! n) = Some r \<and> 0 \<le> idx \<and> nat idx < length r
           \<and> 0 \<le> r ! nat idx"
  using assms by (simp add: slots_hold_def)

lemma slots_hold_send:
  assumes "\<not> loop_flag cfg" "send_ping cfg org clock res n idx s = Inr s'" "slots_hold s"
  shows "slots_hold s'"
proof -
  from send_ping_Inr [OF assms(2)] obtain h' where
    f: "n < length (table s)" "table s' = (table s)[n := h']"
    "resp_times h' =
       (if loop_flag cfg \<or> res = No_socket then resp_times (table s ! n)
        else map_option (\<lambda>r. r[nat idx := (if res = Send_failed then RESP_ERROR else RESP_WAITING)])
               (resp_times (table s ! n)))"
    "history s' = Send org n idx (seqmap_next_id (seqmap s)) clock res # history s"
    by blast
  let ?a = "Send org n idx (seqmap_next_id (seqmap s)) clock res"
  show ?thesis
    using assms(3) f(1,2,4)
  proof (rule slots_hold_update)
    show "no_double_accept (?a # history s)"
      using assms(3) by (simp add: slots_hold_def)
    show "\<And>m i. m \<noteq> n \<Longrightarrow> slot_accepted m i (?a # history s) \<Longrightarrow> slot_accepted m i (history s)"
      by simp
    fix i
    assume sa: "slot_accepted n i (?a # history s)"
    then have old: "slot_accepted n i (history s)" and ne: "\<not> (i = idx \<and> res \<noteq> No_socket)"
      by (auto split: if_splits)
    from slots_hold_cell [OF assms(3) f(1) old] obtain r where
      r: "resp_times (table s ! n) = Some r" "0 \<le> i" "nat i < length r" "0 \<le> r ! nat i"
      by blast
    show "\<exists>r. resp_times h' = Some r \<and> 0 \<le> i \<and> nat i < length r \<and> 0 \<le> r ! nat i"
    proof (cases "res = No_socket")
      case True
      then show ?thesis using r f(3) by simp
    next
      case False
      then have "0 \<le> idx" using send_ping_slot [OF assms(2,1)] by auto
      then have "nat idx \<noteq> nat i" using ne False r(2) by auto
      then show ?thesis using r f(3) False assms(1) by simp
    qed
  qed
qed

lemma slots_hold_timeout:
  assumes "\<not> loop_flag cfg"
    and "stats_add cfg (table s ! n) idx False (- 1) (num_timeout s) = Inr (h1, nt)"
    and "n < length (table s)" "slots_hold s"
  shows "slots_hold (s\<lparr>table := (table s)[n := h1], num_timeout := nt,
              history := Timed_out n idx # history s\<rparr>)"
proof (rule slots_hold_update [where s = s and n = n and h' = h1 and a = "Timed_out n idx"])
  show "slots_hold s" "n < length (table s)" by fact+
  show "table (s\<lparr>table := (table s)[n := h1], num_timeout := nt,
              history := Timed_out n idx # history s\<rparr>) = (table s)[n := h1]" by simp
  show "history (s\<lparr>table := (table s)[n := h1], num_timeout := nt,
              history := Timed_out n idx # history s\<rparr>) = Timed_out n idx # history s" by simp
  show "no_double_accept (Timed_out n idx # history s)"
    using assms(4) by (simp add: slots_hold_def)
  show "\<And>m i. m \<noteq> n \<Longrightarrow> slot_accepted m i (Timed_out n idx # history s) \<Longrightarrow>
          slot_accepted m i (history s)"
    by simp
  fix i
  assume sa: "slot_accepted n i (Timed_out n idx # history s)"
  then have old: "slot_accepted n i (history s)" and ne: "i \<noteq> idx"
    by (auto split: if_splits)
  from slots_hold_cell [OF assms(4,3) old] obtain r where
    r: "resp_times (table s ! n) = Some r" "0 \<le> i" "nat i < length r" "0 \<le> r ! nat i"
    by blast
  have rt: "resp_times h1 =
          (if \<not> loop_flag cfg \<and> 0 \<le> idx
           then map_option (\<lambda>r. r[nat idx := (if False then - 1 else RESP_TIMEOUT)])
                  (resp_times (table s ! n))
           else resp_times (table s ! n))"
    using stats_add_Inr [OF assms(2)] by simp
  show "\<exists>r. resp_times h1 = Some r \<and> 0 \<le> i \<and> nat i < length r \<and> 0 \<le> r ! nat i"
  proof (cases "0 \<le> idx")
    case True
    then have "nat idx \<noteq> nat i" using ne r(2) by auto
    then show ?thesis using r rt True by simp
  next
    case False
    then show ?thesis using r rt by simp
  qed
qed

lemma slots_hold_backoff:
  assumes "n < length (table s)" "slots_hold s"
  shows "slots_hold (s\<lparr>table := (table s)[n := (table s ! n)\<lparr>h_timeout := x\<rparr>]\<rparr>)"
  using assms unfolding slots_hold_def by (auto simp: nth_list_update)

lemma slots_hold_reply:
  assumes "\<not> loop_flag cfg" "wait_for_reply cfg pkt s = Inr s'" "slots_hold s"
  shows "slots_hold s'"
  using assms(2)
proof (cases rule: wait_for_reply_cases)
  case Dropped
  then show ?thesis using assms(3) by (simp add: slots_hold_def)
next
  case (Matched n idx seq rtt vd h' v d)
  have f: "n < length (table s)" "table s' = (table s)[n := h']"
      "history s' = Reply n idx seq rtt vd # history s"
      "resp_times h' =
           (if vd = Accepted \<and> 0 \<le> idx
            then map_option (\<lambda>r. r[nat idx := rtt]) (resp_times (table s ! n))
            else resp_times (table s ! n))"
    using Matched(5,6,7,12) assms(1) by simp_all
  have acc: "vd = Accepted \<longrightarrow>
            (\<exists>r. resp_times (table s ! n) = Some r \<and> 0 \<le> idx
               \<and> nat idx < length r \<and> r ! nat idx < 0)"
    using Matched(14) assms(1) by simp
  let ?a = "Reply n idx seq rtt vd"
  show ?thesis
    using assms(3) f(1,2,3)
  proof (rule slots_hold_update)
    show "no_double_accept (?a # history s)"
      using assms(3) acc slots_hold_cell [OF assms(3) f(1), of idx]
      by (auto simp: slots_hold_def)
    show "\<And>m i. m \<noteq> n \<Longrightarrow> slot_accepted m i (?a # history s) \<Longrightarrow> slot_accepted m i (history s)"
      by simp
    fix i
    assume sa: "slot_accepted n i (?a # history s)"
    show "\<exists>r. resp_times h' = Some r \<and> 0 \<le> i \<and> nat i < length r \<and> 0 \<le> r ! nat i"
    proof (cases "vd = Accepted")
      case False
      then have "slot_accepted n i (history s)" using sa by simp
      from slots_hold_cell [OF assms(3) f(1) this] show ?thesis using f(4) False by simp
    next
      case True
      then obtain r where
        r: "resp_times (table s ! n) = Some r" "0 \<le> idx" "nat idx < length r"
        using acc by blast
      show ?thesis
      proof (cases "i = idx")
        case same: True
        then have "0 \<le> rtt" using sa True by simp
        then show ?thesis using r f(4) True same by simp
      next
        case diff: False
        then have "slot_accepted n i (history s)" using sa by simp
        from slots_hold_cell [OF assms(3) f(1) this] obtain r' where
          r': "resp_times (table s ! n) = Some r'" "0 \<le> i" "nat i < length r'" "0 \<le> r' ! nat i"
          by blast
        have "nat idx \<noteq> nat i" using diff r(2) r'(2) by auto
        then show ?thesis using r r' f(4) True by simp
      qed
    qed
  qed
qed

lemma slots_hold_reset:
  assumes "slots_hold s"
  shows "slots_hold (for_hosts stats_reset_interval s)"
  using assms
  by (simp add: slots_hold_def for_hosts_length for_hosts_nth for_hosts_frame
      stats_reset_interval_frame)

lemma slots_hold_body:
  assumes "\<not> loop_flag cfg" "main_loop_body cfg inp s = Inr (c, s')" "slots_hold s"
  shows "slots_hold s'"
proof (rule main_loop_body_preserves [where P = slots_hold, OF _ _ _ _ _ _ _ _ _ _ assms(3,2)])
  show "\<And>s q. slots_hold (s\<lparr>event_queue_timeout := q\<rparr>) = slots_hold s"
    by (simp add: slots_hold_def)
  show "\<And>s q. slots_hold (s\<lparr>event_queue_ping := q\<rparr>) = slots_hold s"
    by (simp add: slots_hold_def)
  show "\<And>s b. slots_hold (s\<lparr>finish_requested := b\<rparr>) = slots_hold s"
    by (simp add: slots_hold_def)
  show "\<And>s c. slots_hold (s\<lparr>current_time_ns := c\<rparr>) = slots_hold s"
    by (simp add: slots_hold_def)
  show "\<And>s c. slots_hold (s\<lparr>next_report_time := c\<rparr>) = slots_hold s"
    by (simp add: slots_hold_def)
  show "\<And>org clock res n idx s s'.
        send_ping cfg org clock res n idx s = Inr s' \<Longrightarrow> slots_hold s \<Longrightarrow> slots_hold s'"
    using assms(1) by (rule slots_hold_send)
  show "\<And>s n idx h1 nt.
        stats_add cfg (table s ! n) idx False (- 1) (num_timeout s) = Inr (h1, nt) \<Longrightarrow>
        n < length (table s) \<Longrightarrow> slots_hold s \<Longrightarrow>
        slots_hold (s\<lparr>table := (table s)[n := h1], num_timeout := nt,
              history := Timed_out n idx # history s\<rparr>)"
    using assms(1) by (rule slots_hold_timeout)
  show "\<And>pkt s s'. wait_for_reply cfg pkt s = Inr s' \<Longrightarrow> slots_hold s \<Longrightarrow> slots_hold s'"
    using assms(1) by (rule slots_hold_reply)
qed (fact slots_hold_backoff slots_hold_reset)+

lemma slots_hold_run:
  assumes "\<not> loop_flag cfg" "main_startup cfg clock targets = Inr s0"
    and "main_loop cfg inps s0 = Inr (b, s)"
  shows "slots_hold s"
proof -
  have "fresh_state cfg clock s0" using main_startup_fresh [OF assms(2)] by simp
  then have i: "slots_hold s0"
    by (simp add: fresh_state_def slots_hold_def)
  have "\<And>inp s c s'. main_loop_body cfg inp s = Inr (c, s') \<Longrightarrow> slots_hold s
          \<Longrightarrow> slots_hold s'"
    using assms(1) by (rule slots_hold_body)
  then show ?thesis using i assms(3) by (rule main_loop_preserves)
qed

text \<open>
  C7 as stated fails in loop mode, where no array of response times exists and
  \<open>wait_for_reply\<close> skips the test for a duplicate: with \<open>-l\<close>, one target and one ping
  whose reply arrives twice, both replies are accepted and \<open>num_recv\<close> is 2 after a
  single send.
\<close>

theorem duplicate_reply_counterexample:
  "map_sum id
     (\<lambda>(b, s). (send_times (history s), map num_recv_total (table s), map num_recv (table s)))
     (case main_startup loop_config 100000000000 [Addresses [Allocated junk0]] of
        Inl e \<Rightarrow> Inl e
      | Inr s0 \<Rightarrow> main_loop loop_config duplicate_inputs s0) =
   Inr ([(0, 100000000000)], [2], [2])"
  by (simp add: eval_defs loop_config_def duplicate_inputs_def)

text \<open>
  C7, amended: after \<open>main_startup\<close> and a run of \<open>main_loop\<close>, every reply of the
  history is matched to the host and ping of the latest earlier send with its
  sequence number; \<open>num_recv_total\<close> of a host is the number of replies matched to
  it and \<open>num_recv\<close> the number of those that were accepted; and with the loop flag
  unset no reply is accepted for a ping whose latest action is an accepted reply
  with a round-trip time that is not negative.  The counters are \<open>int\<close>s: the number
  of replies matched to the host is taken to be below \<open>2 ^ 31\<close>.
\<close>

theorem replies_correlated:
  assumes "main_startup cfg clock targets = Inr s0"
    and "main_loop cfg inps s0 = Inr (b, s)"
    and "n < length (table s)"
    and "matched_replies n (history s) < 2 ^ 31"
  shows "replies_matched (history s)
       \<and> num_recv_total (table s ! n) = matched_replies n (history s)
       \<and> num_recv (table s ! n) = accepted_replies n (history s)
       \<and> (\<not> loop_flag cfg \<longrightarrow> no_double_accept (history s))"
proof -
  have "correlated s" using assms(1,2) by (rule correlated_run)
  then have a: "replies_matched (history s)"
      "num_recv_total (table s ! n) = to_int32 (matched_replies n (history s))"
    using assms(3) by (simp_all add: correlated_def)
  have t: "num_recv_total (table s ! n) = matched_replies n (history s)"
    using a(2) assms(4) counts_nonneg(4) [of n "history s"] by (simp add: to_int32_id)
  have "counters_conserved s" using assms(1,2) by (rule counters_conserved_run)
  then have "num_recv (table s ! n) = to_int32 (accepted_replies n (history s))"
    using assms(3) by (simp add: counters_conserved_def)
  moreover have "accepted_replies n (history s) < 2 ^ 31"
    using accepted_le_matched [of n "history s"] assms(4) by linarith
  ultimately have c: "num_recv (table s ! n) = accepted_replies n (history s)"
    using counts_nonneg(1) [of n "history s"] by (simp add: to_int32_id)
  have "no_double_accept (history s)" if "\<not> loop_flag cfg"
    using slots_hold_run [OF that assms(1,2)] by (simp add: slots_hold_def)
  then show ?thesis using a(1) t c by blast
qed

theorem replies_correlated_witness:
  "\<exists>s0 s. main_startup count3_config 100000000000 [Addresses [Allocated junk0]] = Inr s0
     \<and> main_loop count3_config duplicate_inputs s0 = Inr (False, s)
     \<and> 0 < length (table s) \<and> matched_replies 0 (history s) < 2 ^ 31
     \<and> \<not> loop_flag count3_config
     \<and> replies_matched (history s) \<and> no_double_accept (history s)
     \<and> num_recv_total (table s ! 0) = 2 \<and> matched_replies 0 (history s) = 2
     \<and> num_recv (table s ! 0) = 1 \<and> accepted_replies 0 (history s) = 1"
proof -
  from repeated_run obtain s0 s where
    r: "main_startup count3_config 100000000000 [Addresses [Allocated junk0]] = Inr s0"
       "main_loop count3_config duplicate_inputs s0 = Inr (False, s)"
    and f: "(history s, map num_recv (table s), map num_recv_total (table s)) =
       ([Reply 0 0 0 2000000 Duplicate, Reply 0 0 0 1000000 Accepted,
         Send Ping_event 0 0 0 100000000000 Send_ok],
        [1], [2])"
    by (elim exE conjE)
  have n: "0 < length (table s)" using f by auto
  have l: "\<not> loop_flag count3_config" by (simp add: count3_config_def)
  have t: "matched_replies 0 (history s) = 2" "accepted_replies 0 (history s) = 1"
    using f by (simp_all add: matched_replies_def accepted_replies_def)
  have m: "matched_replies 0 (history s) < 2 ^ 31" by (simp add: t)
  from replies_correlated [OF r n m] show ?thesis
    using r n l t m by auto
qed

section \<open>Pacing of the sends (C2)\<close>

lemma paced_send_retry:
  assumes "send_ping cfg Retry clock res n idx s = Inr s'" "paced cfg s"
  shows "paced cfg s'"
proof -
  from send_ping_Inr [OF assms(1)] have
    "history s' = Send Retry n idx (seqmap_next_id (seqmap s)) clock res # history s"
    "last_send_time s' = (if res = No_socket then last_send_time s else clock)"
    "start_time s' = start_time s" "event_queue_ping s' = event_queue_ping s"
    by simp_all
  then show ?thesis using assms(2) by (simp add: paced_def)
qed

lemma paced_timeout:
  assumes "paced cfg s"
  shows "paced cfg (s\<lparr>table := t, num_timeout := nt, history := Timed_out n idx # history s\<rparr>)"
  using assms by (simp add: paced_def)

lemma paced_table:
  assumes "paced cfg s"
  shows "paced cfg (s\<lparr>table := t\<rparr>)"
  using assms by (simp add: paced_def)

lemma paced_reply:
  assumes "wait_for_reply cfg pkt s = Inr s'" "paced cfg s"
  shows "paced cfg s'"
proof -
  note fr = wait_for_reply_frame [OF assms(1)]
  from assms(1) show ?thesis
  proof (cases rule: wait_for_reply_cases)
    case Dropped
    then show ?thesis using assms(2) fr by (simp add: paced_def)
  next
    case (Matched n idx seq rtt vd h' v d)
    then show ?thesis using assms(2) fr by (simp add: paced_def)
  qed
qed

lemma paced_reset:
  assumes "paced cfg s"
  shows "paced cfg (for_hosts stats_reset_interval s)"
  using assms by (simp add: paced_def for_hosts_def)

lemma paced_slot:
  assumes "paced cfg s" "ev_host (storage (event_queue_ping s) r) \<noteq> None"
  shows "start_time s + ping_index (storage (event_queue_ping s) r) * perhost_interval cfg
           \<le> ev_time (storage (event_queue_ping s) r)"
    and "- (2 ^ 31) \<le> ping_index (storage (event_queue_ping s) r)"
    and "ping_index (storage (event_queue_ping s) r) < 2 ^ 31"
  using assms unfolding paced_def by blast+

lemma next_ping_due:
  fixes i p t start :: int
  assumes "start + i * p \<le> t" "- (2 ^ 31) \<le> i" "i < 2 ^ 31" "0 \<le> p"
  shows "start + to_int32 (i + 1) * p \<le> t + p"
proof -
  have "to_int32 (i + 1) \<le> i + 1"
    using assms(2,3) by (intro to_int32_le) simp_all
  then have "to_int32 (i + 1) * p \<le> (i + 1) * p"
    using assms(4) by (rule mult_right_mono)
  also have "\<dots> = i * p + p" by (simp add: algebra_simps)
  finally show ?thesis using assms(1) by linarith
qed

lemma paced_ping_event:
  assumes "ping_event cfg inp s = Inr s'" "paced cfg s"
    and "current_time_ns s \<le> in_send_clock inp" "0 \<le> perhost_interval cfg"
  shows "paced cfg s'"
proof -
  from ping_event_cases [OF assms(1)] show ?thesis
  proof
    assume "s' = s" then show ?thesis using assms(2) by simp
  next
    assume "\<exists>r n s1.
        q_first (event_queue_ping s) = Some r
      \<and> ev_time (storage (event_queue_ping s) r) \<le> current_time_ns s
      \<and> interval cfg \<le> current_time_ns s - last_send_time s
      \<and> ev_host (storage (event_queue_ping s) r) = Some n
      \<and> send_ping cfg Ping_event (in_send_clock inp) (in_send_result inp) n
           (ping_index (storage (event_queue_ping s) r))
           (s\<lparr>event_queue_ping := ev_remove (event_queue_ping s) r\<rparr>) = Inr s1
      \<and> (s' = s1 \<or>
          (\<exists>q1. host_add_event cfg n (to_int32 (ping_index (storage (event_queue_ping s) r) + 1))
                  (ev_time (storage (event_queue_ping s) r) + perhost_interval cfg)
                  (event_queue_ping s1) = Inr q1
             \<and> s' = s1\<lparr>event_queue_ping := q1\<rparr>))"
    then obtain r n s1 where
      due: "ev_time (storage (event_queue_ping s) r) \<le> current_time_ns s"
      and iv: "interval cfg \<le> current_time_ns s - last_send_time s"
      and host: "ev_host (storage (event_queue_ping s) r) = Some n"
      and sp: "send_ping cfg Ping_event (in_send_clock inp) (in_send_result inp) n
           (ping_index (storage (event_queue_ping s) r))
           (s\<lparr>event_queue_ping := ev_remove (event_queue_ping s) r\<rparr>) = Inr s1"
      and alt: "s' = s1 \<or>
          (\<exists>q1. host_add_event cfg n (to_int32 (ping_index (storage (event_queue_ping s) r) + 1))
                  (ev_time (storage (event_queue_ping s) r) + perhost_interval cfg)
                  (event_queue_ping s1) = Inr q1
             \<and> s' = s1\<lparr>event_queue_ping := q1\<rparr>)"
      by blast
    define idx where "idx = ping_index (storage (event_queue_ping s) r)"
    define t where "t = ev_time (storage (event_queue_ping s) r)"
    have w: "ev_host (storage (event_queue_ping s) r) \<noteq> None" using host by simp
    note sl = paced_slot [OF assms(2) w, folded idx_def t_def]
    from send_ping_Inr [OF sp] have f:
      "history s1 = Send Ping_event n idx (seqmap_next_id (seqmap s))
                      (in_send_clock inp) (in_send_result inp) # history s"
      "last_send_time s1 = (if in_send_result inp = No_socket then last_send_time s
                            else in_send_clock inp)"
      "start_time s1 = start_time s"
      "event_queue_ping s1 = ev_remove (event_queue_ping s) r"
      by (simp_all add: idx_def)
    have old: "last_send_time s = (case last_send (history s) of None \<Rightarrow> 0 | Some t \<Rightarrow> t)"
      "ping_events_paced (interval cfg) (history s)"
      "sent_when_due (start_time s) (perhost_interval cfg) (history s)"
      using assms(2) unfolding paced_def by blast+
    have slots: "\<forall>x. ev_host (storage (event_queue_ping s) x) \<noteq> None \<longrightarrow>
         start_time s + ping_index (storage (event_queue_ping s) x) * perhost_interval cfg
           \<le> ev_time (storage (event_queue_ping s) x)
       \<and> - (2 ^ 31) \<le> ping_index (storage (event_queue_ping s) x)
       \<and> ping_index (storage (event_queue_ping s) x) < 2 ^ 31"
      using assms(2) unfolding paced_def by blast
    have p1: "paced cfg s1"
      unfolding paced_def f
    proof (intro conjI)
      show "(if in_send_result inp = No_socket then last_send_time s else in_send_clock inp) =
          (case last_send (Send Ping_event n idx (seqmap_next_id (seqmap s))
                      (in_send_clock inp) (in_send_result inp) # history s) of
             None \<Rightarrow> 0 | Some t \<Rightarrow> t)"
        using old(1) by simp
      show "\<forall>x. ev_host (storage (ev_remove (event_queue_ping s) r) x) \<noteq> None \<longrightarrow>
         start_time s + ping_index (storage (ev_remove (event_queue_ping s) r) x)
             * perhost_interval cfg
           \<le> ev_time (storage (ev_remove (event_queue_ping s) r) x)
       \<and> - (2 ^ 31) \<le> ping_index (storage (ev_remove (event_queue_ping s) r) x)
       \<and> ping_index (storage (ev_remove (event_queue_ping s) r) x) < 2 ^ 31"
        using slots unfolding ev_remove_fields .
      show "ping_events_paced (interval cfg)
          (Send Ping_event n idx (seqmap_next_id (seqmap s))
                      (in_send_clock inp) (in_send_result inp) # history s)"
        using old(1,2) iv assms(3) by (auto split: option.splits)
      show "sent_when_due (start_time s) (perhost_interval cfg)
          (Send Ping_event n idx (seqmap_next_id (seqmap s))
                      (in_send_clock inp) (in_send_result inp) # history s)"
        using old(3) sl(1) due assms(3) by (simp add: t_def)
    qed
    show ?thesis
      using alt
    proof
      assume "s' = s1" then show ?thesis using p1 by simp
    next
      assume "\<exists>q1. host_add_event cfg n (to_int32 (ping_index (storage (event_queue_ping s) r) + 1))
                  (ev_time (storage (event_queue_ping s) r) + perhost_interval cfg)
                  (event_queue_ping s1) = Inr q1
             \<and> s' = s1\<lparr>event_queue_ping := q1\<rparr>"
      then obtain q1 where
        q1: "host_add_event cfg n (to_int32 (idx + 1)) (t + perhost_interval cfg)
                  (event_queue_ping s1) = Inr q1"
        and s': "s' = s1\<lparr>event_queue_ping := q1\<rparr>"
        unfolding idx_def t_def by blast
      from host_add_event_Inr [OF q1] obtain x where
        x: "ev_time (storage q1 x) = t + perhost_interval cfg"
           "ping_index (storage q1 x) = to_int32 (idx + 1)"
        and others: "\<forall>y. y \<noteq> x \<longrightarrow> ev_time (storage q1 y) = ev_time (storage (event_queue_ping s1) y)
                   \<and> ev_host (storage q1 y) = ev_host (storage (event_queue_ping s1) y)
                   \<and> ping_index (storage q1 y) = ping_index (storage (event_queue_ping s1) y)"
        by blast
      have new: "start_time s + ping_index (storage q1 y) * perhost_interval cfg
                   \<le> ev_time (storage q1 y)
               \<and> - (2 ^ 31) \<le> ping_index (storage q1 y) \<and> ping_index (storage q1 y) < 2 ^ 31"
        if "ev_host (storage q1 y) \<noteq> None" for y
      proof (cases "y = x")
        case True
        have "start_time s + to_int32 (idx + 1) * perhost_interval cfg \<le> t + perhost_interval cfg"
          using sl assms(4) by (rule next_ping_due)
        then show ?thesis using True x to_int32_range [of "idx + 1"] by simp
      next
        case False
        with others have e: "ev_time (storage q1 y) = ev_time (storage (event_queue_ping s1) y)"
            "ev_host (storage q1 y) = ev_host (storage (event_queue_ping s1) y)"
            "ping_index (storage q1 y) = ping_index (storage (event_queue_ping s1) y)"
          by blast+
        have "\<forall>x. ev_host (storage (event_queue_ping s1) x) \<noteq> None \<longrightarrow>
           start_time s1 + ping_index (storage (event_queue_ping s1) x) * perhost_interval cfg
             \<le> ev_time (storage (event_queue_ping s1) x)
         \<and> - (2 ^ 31) \<le> ping_index (storage (event_queue_ping s1) x)
         \<and> ping_index (storage (event_queue_ping s1) x) < 2 ^ 31"
          using p1 unfolding paced_def by blast
        then show ?thesis using that unfolding e f(3) by blast
      qed
      have rest: "last_send_time s1 = (case last_send (history s1) of None \<Rightarrow> 0 | Some t \<Rightarrow> t)"
        "ping_events_paced (interval cfg) (history s1)"
        "sent_when_due (start_time s1) (perhost_interval cfg) (history s1)"
        using p1 unfolding paced_def by blast+
      show ?thesis
        unfolding paced_def s' using rest new by (simp add: f(3))
    qed
  qed
qed

lemma paced_body:
  assumes "main_loop_body cfg inp s = Inr (c, s')" "paced cfg s"
    and "current_time_ns s \<le> in_send_clock inp" "0 \<le> perhost_interval cfg"
  shows "paced cfg s'"
proof (rule main_loop_body_branches [where P = "paced cfg", OF _ _ _ _ _ _ _ assms(1)])
  fix r s1
  assume te: "timeout_event cfg inp (storage (ev_remove (event_queue_timeout s) r) r)
          (s\<lparr>event_queue_timeout := ev_remove (event_queue_timeout s) r\<rparr>) = Inr s1"
  have p: "paced cfg (s\<lparr>event_queue_timeout := ev_remove (event_queue_timeout s) r\<rparr>)"
    using assms(2) by (simp add: paced_def)
  show "paced cfg s1"
  proof (rule timeout_event_preserves [where P = "paced cfg", OF _ _ _ p te])
    show "\<And>clock res n idx s s'.
        send_ping cfg Retry clock res n idx s = Inr s' \<Longrightarrow> paced cfg s \<Longrightarrow> paced cfg s'"
      by (rule paced_send_retry)
    show "\<And>s n idx h1 nt.
        stats_add cfg (table s ! n) idx False (- 1) (num_timeout s) = Inr (h1, nt) \<Longrightarrow>
        n < length (table s) \<Longrightarrow> paced cfg s \<Longrightarrow>
        paced cfg (s\<lparr>table := (table s)[n := h1], num_timeout := nt,
              history := Timed_out n idx # history s\<rparr>)"
      by (rule paced_timeout)
    show "\<And>s n x. n < length (table s) \<Longrightarrow> paced cfg s \<Longrightarrow>
        paced cfg (s\<lparr>table := (table s)[n := (table s ! n)\<lparr>h_timeout := x\<rparr>]\<rparr>)"
      by (rule paced_table)
  qed
next
  fix s1
  assume "ping_event cfg inp s = Inr s1"
  then show "paced cfg s1" using assms(2,3,4) by (rule paced_ping_event)
next
  show "\<And>pkt s s'. wait_for_reply cfg pkt s = Inr s' \<Longrightarrow> paced cfg s \<Longrightarrow> paced cfg s'"
    by (rule paced_reply)
  show "\<And>s. paced cfg s \<Longrightarrow> paced cfg (for_hosts stats_reset_interval s)"
    by (rule paced_reset)
qed (simp_all add: paced_def)

lemma timeout_event_clock:
  assumes "timeout_event cfg inp ev s = Inr s'"
  shows "current_time_ns s' = current_time_ns s \<or> current_time_ns s' = in_send_clock inp"
proof -
  from timeout_event_cases [OF assms] obtain n h1 nt where
    alt: "let s1 = s\<lparr>table := (table s)[n := h1], num_timeout := nt,
                     history := Timed_out n (ping_index ev) # history s\<rparr>;
             again = (\<not> loop_flag cfg \<and> \<not> count_flag cfg
                      \<and> to_uint32 (num_sent h1) < to_uint32 (int (retry cfg) + 1))
         in (\<not> again \<and> s' = s1) \<or>
            (again \<and>
             send_ping cfg Retry (in_send_clock inp) (in_send_result inp) n (ping_index ev)
               (if backoff_flag cfg
                then s1\<lparr>table := (table s1)[n :=
                         (table s1 ! n)\<lparr>h_timeout := backoff_mul (backoff cfg) (h_timeout h1)\<rparr>]\<rparr>
                else s1) = Inr s')"
    by blast
  define s1 where "s1 = s\<lparr>table := (table s)[n := h1], num_timeout := nt,
                     history := Timed_out n (ping_index ev) # history s\<rparr>"
  from alt have "s' = s1 \<or>
      (\<exists>s2. send_ping cfg Retry (in_send_clock inp) (in_send_result inp) n (ping_index ev) s2
               = Inr s')"
    unfolding s1_def [symmetric] Let_def by blast
  then show ?thesis
  proof
    assume "s' = s1" then show ?thesis by (simp add: s1_def)
  next
    assume "\<exists>s2. send_ping cfg Retry (in_send_clock inp) (in_send_result inp) n (ping_index ev) s2
               = Inr s'"
    then obtain s2 where "send_ping cfg Retry (in_send_clock inp) (in_send_result inp) n
                 (ping_index ev) s2 = Inr s'" by blast
    from send_ping_Inr [OF this] show ?thesis by simp
  qed
qed

lemma ping_event_clock:
  assumes "ping_event cfg inp s = Inr s'"
  shows "current_time_ns s' = current_time_ns s \<or> current_time_ns s' = in_send_clock inp"
proof -
  from ping_event_cases [OF assms] show ?thesis
  proof
    assume "s' = s" then show ?thesis by simp
  next
    assume "\<exists>r n s1.
        q_first (event_queue_ping s) = Some r
      \<and> ev_time (storage (event_queue_ping s) r) \<le> current_time_ns s
      \<and> interval cfg \<le> current_time_ns s - last_send_time s
      \<and> ev_host (storage (event_queue_ping s) r) = Some n
      \<and> send_ping cfg Ping_event (in_send_clock inp) (in_send_result inp) n
           (ping_index (storage (event_queue_ping s) r))
           (s\<lparr>event_queue_ping := ev_remove (event_queue_ping s) r\<rparr>) = Inr s1
      \<and> (s' = s1 \<or>
          (\<exists>q1. host_add_event cfg n (to_int32 (ping_index (storage (event_queue_ping s) r) + 1))
                  (ev_time (storage (event_queue_ping s) r) + perhost_interval cfg)
                  (event_queue_ping s1) = Inr q1
             \<and> s' = s1\<lparr>event_queue_ping := q1\<rparr>))"
    then obtain r n s1 where
      sp: "send_ping cfg Ping_event (in_send_clock inp) (in_send_result inp) n
           (ping_index (storage (event_queue_ping s) r))
           (s\<lparr>event_queue_ping := ev_remove (event_queue_ping s) r\<rparr>) = Inr s1"
      and alt: "s' = s1 \<or> (\<exists>q. s' = s1\<lparr>event_queue_ping := q\<rparr>)"
      by blast
    from send_ping_Inr [OF sp] have "current_time_ns s1 = in_send_clock inp" by simp
    then show ?thesis using alt by auto
  qed
qed

lemma wait_for_replies_clock:
  "wait_for_replies cfg pkts s = Inr s' \<Longrightarrow>
   current_time_ns s' = current_time_ns s \<or> current_time_ns s' \<in> pkt_clock ` set pkts"
proof (induction pkts arbitrary: s)
  case Nil
  then show ?case by simp
next
  case (Cons p ps)
  then obtain s1 where s1: "wait_for_reply cfg p s = Inr s1" "wait_for_replies cfg ps s1 = Inr s'"
    by (auto split: sum.splits)
  have "current_time_ns s1 = pkt_clock p" using wait_for_reply_frame [OF s1(1)] by simp
  then show ?case using Cons.IH [OF s1(2)] by auto
qed

lemma print_per_system_splits_clock:
  "current_time_ns (print_per_system_splits cfg c s) = c"
  by (simp add: print_per_system_splits_def Let_def for_hosts_def)

lemma print_report_clock:
  "current_time_ns (print_report cfg inp s) = current_time_ns s
   \<or> current_time_ns (print_report cfg inp s) = in_report_clock inp"
  by (simp add: print_report_def Let_def print_netdata_def for_hosts_def
      print_per_system_splits_clock)

lemma main_loop_body_clock:
  assumes "main_loop_body cfg inp s = Inr (c, s')"
  shows "current_time_ns s' = current_time_ns s \<or> current_time_ns s' \<in> set (clock_readings inp)"
proof -
  from main_loop_body_cases [OF assms] show ?thesis
  proof
    assume "\<exists>r. q_first (event_queue_timeout s) = Some r
            \<and> ev_time (storage (event_queue_timeout s) r) \<le> current_time_ns s
            \<and> timeout_event cfg inp (storage (ev_remove (event_queue_timeout s) r) r)
                 (s\<lparr>event_queue_timeout := ev_remove (event_queue_timeout s) r\<rparr>) = Inr s'"
    then obtain r where
      te: "timeout_event cfg inp (storage (ev_remove (event_queue_timeout s) r) r)
                 (s\<lparr>event_queue_timeout := ev_remove (event_queue_timeout s) r\<rparr>) = Inr s'"
      by blast
    from timeout_event_clock [OF te] show ?thesis by (auto simp: clock_readings_def)
  next
    assume "\<exists>s1. ping_event cfg inp s = Inr s1
          \<and> (s' = s1
             \<or> s' = s1\<lparr>finish_requested := (finish_requested s1 \<or> in_sigint inp)\<rparr>
             \<or> (\<exists>s3. wait_for_replies cfg (in_packets inp)
                        (s1\<lparr>finish_requested := (finish_requested s1 \<or> in_sigint inp)\<rparr>) = Inr s3
                  \<and> (s' = print_report cfg inp (s3\<lparr>current_time_ns := in_wake_clock inp\<rparr>)
                     \<or> s' = print_report cfg inp
                          (print_per_system_splits cfg (in_snapshot_clock inp)
                             (s3\<lparr>current_time_ns := in_wake_clock inp\<rparr>)))))"
    then obtain s1 where pe: "ping_event cfg inp s = Inr s1"
      and alt: "s' = s1
             \<or> s' = s1\<lparr>finish_requested := (finish_requested s1 \<or> in_sigint inp)\<rparr>
             \<or> (\<exists>s3. s' = print_report cfg inp (s3\<lparr>current_time_ns := in_wake_clock inp\<rparr>)
                     \<or> s' = print_report cfg inp
                          (print_per_system_splits cfg (in_snapshot_clock inp)
                             (s3\<lparr>current_time_ns := in_wake_clock inp\<rparr>)))"
      by blast
    have c1: "current_time_ns s1 = current_time_ns s \<or> current_time_ns s1 \<in> set (clock_readings inp)"
      using ping_event_clock [OF pe] by (auto simp: clock_readings_def)
    have r1: "current_time_ns (print_report cfg inp (s3\<lparr>current_time_ns := in_wake_clock inp\<rparr>))
                \<in> set (clock_readings inp)" for s3
      using print_report_clock [of cfg inp "s3\<lparr>current_time_ns := in_wake_clock inp\<rparr>"]
      by (auto simp: clock_readings_def)
    have r2: "current_time_ns (print_report cfg inp
                (print_per_system_splits cfg (in_snapshot_clock inp)
                   (s3\<lparr>current_time_ns := in_wake_clock inp\<rparr>)))
                \<in> set (clock_readings inp)" for s3
      using print_report_clock [of cfg inp "print_per_system_splits cfg (in_snapshot_clock inp)
                   (s3\<lparr>current_time_ns := in_wake_clock inp\<rparr>)"]
      by (auto simp: clock_readings_def print_per_system_splits_clock)
    show ?thesis using alt c1 r1 r2 by auto
  qed
qed

lemma start_time_body:
  assumes "main_loop_body cfg inp s = Inr (c, s')" "start_time s = k"
  shows "start_time s' = k"
proof (rule main_loop_body_preserves [where P = "\<lambda>s. start_time s = k", OF _ _ _ _ _ _ _ _ _ _ assms(2,1)])
  show "\<And>org clock res n idx s s'.
        send_ping cfg org clock res n idx s = Inr s' \<Longrightarrow> start_time s = k \<Longrightarrow> start_time s' = k"
    using send_ping_Inr by simp
  show "\<And>pkt s s'. wait_for_reply cfg pkt s = Inr s' \<Longrightarrow> start_time s = k \<Longrightarrow> start_time s' = k"
    using wait_for_reply_frame(4) by simp
qed (simp_all add: for_hosts_def)

lemma clock_monotone_first:
  "clock_monotone c (inp # inps) \<Longrightarrow> c \<le> in_send_clock inp"
  by (simp add: clock_monotone_def clock_readings_def)

lemma clock_monotone_rest:
  assumes "clock_monotone c (inp # inps)" "c' = c \<or> c' \<in> set (clock_readings inp)"
  shows "clock_monotone c' inps"
proof -
  have s: "sorted (c # clock_readings inp @ concat (map clock_readings inps))"
    using assms(1) by (simp add: clock_monotone_def)
  then have "sorted (concat (map clock_readings inps))"
    by (simp add: sorted_append)
  moreover have "\<forall>x \<in> set (concat (map clock_readings inps)). c' \<le> x"
    using s assms(2) by (auto simp: sorted_append)
  ultimately show ?thesis by (simp add: clock_monotone_def)
qed

lemma paced_run:
  "paced cfg s \<Longrightarrow> clock_monotone (current_time_ns s) inps \<Longrightarrow> 0 \<le> perhost_interval cfg \<Longrightarrow>
   main_loop cfg inps s = Inr (b, s') \<Longrightarrow> paced cfg s'"
proof (induction inps arbitrary: s)
  case Nil
  then show ?case by simp
next
  case (Cons inp inps)
  show ?case
  proof (cases "q_first (event_queue_ping s) = None \<and> q_first (event_queue_timeout s) = None")
    case True
    then show ?thesis using Cons.prems by simp
  next
    case False
    then obtain c s1 where b1: "main_loop_body cfg inp s = Inr (c, s1)"
      using Cons.prems(4) by (auto split: sum.splits)
    have le: "current_time_ns s \<le> in_send_clock inp"
      using Cons.prems(2) by (rule clock_monotone_first)
    have p1: "paced cfg s1" using b1 Cons.prems(1) le Cons.prems(3) by (rule paced_body)
    have m1: "clock_monotone (current_time_ns s1) inps"
      using Cons.prems(2) main_loop_body_clock [OF b1] by (rule clock_monotone_rest)
    show ?thesis
    proof (cases c)
      case Continue
      then have "main_loop cfg inps s1 = Inr (b, s')"
        using Cons.prems(4) False b1 by simp
      with p1 m1 Cons.prems(3) show ?thesis by (rule Cons.IH)
    next
      case Break
      then have "s' = s1" using Cons.prems(4) False b1 by simp
      then show ?thesis using p1 by simp
    qed
  qed
qed

text \<open>
  C2 as stated fails.  With \<open>-c 3\<close> and a process that wakes up 5 ms late for the
  second ping, the second and third ping of the host are sent 995 ms apart, less than
  the period of 1000 ms: the third is scheduled off the time the second was due.
  With \<open>-t 5\<close> and a target that never answers, the retry is sent 5 ms after the
  first ping, less than the interval of 10 ms.
\<close>

theorem pacing_counterexample:
  "map_sum id (\<lambda>(b, s). send_times (history s))
     (case main_startup count3_config 100000000000 [Addresses [Allocated junk0]] of
        Inl e \<Rightarrow> Inl e
      | Inr s0 \<Rightarrow> main_loop count3_config late_inputs s0) =
   Inr [(0, 102000000000), (0, 101005000000), (0, 100000000000)]
   \<and> 102000000000 - 101005000000 < perhost_interval count3_config
   \<and> clock_monotone 100000000000 late_inputs
   \<and> map_sum id (\<lambda>(b, s). send_times (history s))
     (case main_startup oneshot_config 100000000000 [Addresses [Allocated junk0]] of
        Inl e \<Rightarrow> Inl e
      | Inr s0 \<Rightarrow> main_loop oneshot_config silent_inputs s0) =
   Inr [(0, 100005000000), (0, 100000000000)]
   \<and> 100005000000 - 100000000000 < interval oneshot_config
   \<and> clock_monotone 100000000000 silent_inputs"
proof -
  have "map_sum id (\<lambda>(b, s). send_times (history s))
     (case main_startup count3_config 100000000000 [Addresses [Allocated junk0]] of
        Inl e \<Rightarrow> Inl e
      | Inr s0 \<Rightarrow> main_loop count3_config late_inputs s0) =
   Inr [(0, 102000000000), (0, 101005000000), (0, 100000000000)]"
    by (simp add: eval_defs count3_config_def late_inputs_def)
  moreover have "map_sum id (\<lambda>(b, s). send_times (history s))
     (case main_startup oneshot_config 100000000000 [Addresses [Allocated junk0]] of
        Inl e \<Rightarrow> Inl e
      | Inr s0 \<Rightarrow> main_loop oneshot_config silent_inputs s0) =
   Inr [(0, 100005000000), (0, 100000000000)]"
    by (simp add: eval_defs float_defs oneshot_config_def silent_inputs_def)
  moreover have "102000000000 - 101005000000 < perhost_interval count3_config"
    by (simp add: count3_config_def)
  moreover have "100005000000 - 100000000000 < interval oneshot_config"
    by (simp add: oneshot_config_def)
  moreover have "clock_monotone 100000000000 late_inputs"
    by (simp add: clock_monotone_def clock_readings_def late_inputs_def pass_def reply_packet_def)
  moreover have "clock_monotone 100000000000 silent_inputs"
    by (simp add: clock_monotone_def clock_readings_def silent_inputs_def pass_def)
  ultimately show ?thesis by simp
qed

text \<open>
  C2, amended: after \<open>main_startup\<close> at time \<open>clock\<close> and a run of \<open>main_loop\<close> on a
  clock that never goes backwards, with a period that is not negative, every send on
  a socket that a ping event caused has a timestamp at least \<open>interval\<close> later than
  that of the send on a socket before it, and every send that a ping event caused,
  for ping \<open>i\<close> of its host, has a timestamp of at least \<open>clock + i * perhost_interval\<close>,
  the time the ping is due.
\<close>

theorem sends_paced:
  assumes "main_startup cfg clock targets = Inr s0"
    and "clock_monotone clock inps"
    and "0 \<le> perhost_interval cfg"
    and "main_loop cfg inps s0 = Inr (b, s)"
  shows "ping_events_paced (interval cfg) (history s)
       \<and> sent_when_due clock (perhost_interval cfg) (history s)"
proof -
  have fr: "fresh_state cfg clock s0" and l0: "last_send_time s0 = 0"
    using main_startup_fresh [OF assms(1)] by simp_all
  have p0: "paced cfg s0"
    using fr l0 by (auto simp: fresh_state_def paced_def)
  have c0: "current_time_ns s0 = clock" "start_time s0 = clock"
    using fr by (simp_all add: fresh_state_def)
  have "paced cfg s"
    using p0 assms(2,3,4) unfolding c0(1) [symmetric] by (rule paced_run)
  moreover have "start_time s = clock"
    using main_loop_preserves [where P = "\<lambda>s. start_time s = clock", OF _ c0(2) assms(4)]
      start_time_body by blast
  ultimately show ?thesis by (simp add: paced_def)
qed

theorem sends_paced_witness:
  "\<exists>s0 s. main_startup count3_config 100000000000 [Addresses [Allocated junk0]] = Inr s0
     \<and> clock_monotone 100000000000 late_inputs
     \<and> 0 \<le> perhost_interval count3_config
     \<and> main_loop count3_config late_inputs s0 = Inr (True, s)
     \<and> send_times (history s) = [(0, 102000000000), (0, 101005000000), (0, 100000000000)]
     \<and> ping_events_paced (interval count3_config) (history s)
     \<and> sent_when_due 100000000000 (perhost_interval count3_config) (history s)"
proof -
  from late_run obtain s0 s where
    r: "main_startup count3_config 100000000000 [Addresses [Allocated junk0]] = Inr s0"
       "main_loop count3_config late_inputs s0 = Inr (True, s)"
    and f: "(history s, map num_sent (table s), map num_recv (table s),
        map num_recv_total (table s), num_alive s, num_hosts s, num_noaddress s) =
       ([Reply 0 2 2 1000000 Accepted, Send Ping_event 0 2 2 102000000000 Send_ok,
         Reply 0 1 1 1000000 Accepted, Send Ping_event 0 1 1 101005000000 Send_ok,
         Reply 0 0 0 1000000 Accepted, Send Ping_event 0 0 0 100000000000 Send_ok],
        [3], [3], [3], 1, 1, 0)"
    by (elim exE conjE)
  have m: "clock_monotone 100000000000 late_inputs"
    by (simp add: clock_monotone_def clock_readings_def late_inputs_def pass_def reply_packet_def)
  have p: "0 \<le> perhost_interval count3_config" by (simp add: count3_config_def)
  have t: "send_times (history s) = [(0, 102000000000), (0, 101005000000), (0, 100000000000)]"
    using f by simp
  from sends_paced [OF r(1) m p r(2)] show ?thesis
    using r m p t by blast
qed

section \<open>The backoff of the timeout (C6)\<close>

lemma backed_off_update:
  assumes "backed_off cfg s" "n < length (table s)" "table s' = (table s)[n := h']"
    and "\<And>m. m \<noteq> n \<Longrightarrow> retries_since_reply m (history s') = retries_since_reply m (history s)"
    and "h_timeout h' =
           (if backoff_flag cfg
            then (backoff_mul (backoff cfg) ^^ retries_since_reply n (history s')) (timeout cfg)
            else timeout cfg)"
  shows "backed_off cfg s'"
  unfolding backed_off_def
proof (intro allI impI)
  fix m
  assume "m < length (table s')"
  then have m: "m < length (table s)" by (simp add: assms(3))
  show "h_timeout (table s' ! m) =
          (if backoff_flag cfg
           then (backoff_mul (backoff cfg) ^^ retries_since_reply m (history s')) (timeout cfg)
           else timeout cfg)"
  proof (cases "m = n")
    case True
    then show ?thesis using assms(2,5) unfolding assms(3) by simp
  next
    case False
    then show ?thesis
      using assms(1) m assms(4) [OF False] unfolding assms(3) by (simp add: backed_off_def)
  qed
qed

lemma backed_off_host:
  assumes "backed_off cfg s" "n < length (table s)"
  shows "h_timeout (table s ! n) =
          (if backoff_flag cfg
           then (backoff_mul (backoff cfg) ^^ retries_since_reply n (history s)) (timeout cfg)
           else timeout cfg)"
  using assms by (simp add: backed_off_def)

lemma backed_off_send:
  assumes "send_ping cfg Ping_event clock res n idx s = Inr s'" "backed_off cfg s"
  shows "backed_off cfg s'"
proof -
  from send_ping_Inr [OF assms(1)] obtain h' where
    f: "n < length (table s)" "table s' = (table s)[n := h']"
    "h_timeout h' = h_timeout (table s ! n)"
    "history s' = Send Ping_event n idx (seqmap_next_id (seqmap s)) clock res # history s"
    by blast
  show ?thesis
    by (rule backed_off_update [OF assms(2) f(1,2)])
       (simp_all add: f(3,4) backed_off_host [OF assms(2) f(1)])
qed

lemma backed_off_reply:
  assumes "wait_for_reply cfg pkt s = Inr s'" "backed_off cfg s"
  shows "backed_off cfg s'"
  using assms(1)
proof (cases rule: wait_for_reply_cases)
  case Dropped
  then show ?thesis using assms(2) by (simp add: backed_off_def)
next
  case (Matched n idx seq rtt vd h' v d)
  show ?thesis
    by (rule backed_off_update [OF assms(2) Matched(5,6)])
       (simp_all add: Matched(7,11) backed_off_host [OF assms(2) Matched(5)])
qed

lemma backed_off_reset:
  assumes "backed_off cfg s"
  shows "backed_off cfg (for_hosts stats_reset_interval s)"
  using assms
  by (simp add: backed_off_def for_hosts_length for_hosts_nth for_hosts_frame
      stats_reset_interval_frame)

lemma backed_off_timeout_event:
  assumes "timeout_event cfg inp ev s = Inr s'" "backed_off cfg s"
  shows "backed_off cfg s'"
proof -
  from timeout_event_cases [OF assms(1)] obtain n h1 nt where
    n: "n < length (table s)"
    and st: "stats_add cfg (table s ! n) (ping_index ev) False (- 1) (num_timeout s) = Inr (h1, nt)"
    and alt: "let s1 = s\<lparr>table := (table s)[n := h1], num_timeout := nt,
                     history := Timed_out n (ping_index ev) # history s\<rparr>;
             again = (\<not> loop_flag cfg \<and> \<not> count_flag cfg
                      \<and> to_uint32 (num_sent h1) < to_uint32 (int (retry cfg) + 1))
         in (\<not> again \<and> s' = s1) \<or>
            (again \<and>
             send_ping cfg Retry (in_send_clock inp) (in_send_result inp) n (ping_index ev)
               (if backoff_flag cfg
                then s1\<lparr>table := (table s1)[n :=
                         (table s1 ! n)\<lparr>h_timeout := backoff_mul (backoff cfg) (h_timeout h1)\<rparr>]\<rparr>
                else s1) = Inr s')"
    by blast
  define s1 where "s1 = s\<lparr>table := (table s)[n := h1], num_timeout := nt,
                     history := Timed_out n (ping_index ev) # history s\<rparr>"
  define s2 where "s2 = (if backoff_flag cfg
                then s1\<lparr>table := (table s1)[n :=
                         (table s1 ! n)\<lparr>h_timeout := backoff_mul (backoff cfg) (h_timeout h1)\<rparr>]\<rparr>
                else s1)"
  have h1: "h_timeout h1 = h_timeout (table s ! n)" using stats_add_Inr [OF st] by simp
  note old = backed_off_host [OF assms(2) n]
  have p1: "backed_off cfg s1"
    by (rule backed_off_update [OF assms(2) n, where h' = h1])
       (simp_all add: s1_def h1 old)
  from alt have "s' = s1 \<or>
      send_ping cfg Retry (in_send_clock inp) (in_send_result inp) n (ping_index ev) s2 = Inr s'"
    unfolding s1_def [symmetric] s2_def [symmetric] Let_def by blast
  then show ?thesis
  proof
    assume "s' = s1" then show ?thesis using p1 by simp
  next
    assume sp: "send_ping cfg Retry (in_send_clock inp) (in_send_result inp) n (ping_index ev) s2
                  = Inr s'"
    have t2: "table s2 = (table s)[n := (if backoff_flag cfg
                then h1\<lparr>h_timeout := backoff_mul (backoff cfg) (h_timeout h1)\<rparr> else h1)]"
      using n by (simp add: s2_def s1_def)
    have hs2: "history s2 = Timed_out n (ping_index ev) # history s"
      by (simp add: s2_def s1_def)
    from send_ping_Inr [OF sp] obtain h' where
      f: "table s' = (table s2)[n := h']" "h_timeout h' = h_timeout (table s2 ! n)"
      "history s' = Send Retry n (ping_index ev) (seqmap_next_id (seqmap s2))
                      (in_send_clock inp) (in_send_result inp) # history s2"
      by blast
    have t': "table s' = (table s)[n := h']" unfolding f(1) t2 by simp
    have ht: "h_timeout h' = (if backoff_flag cfg
                then backoff_mul (backoff cfg) (h_timeout (table s ! n))
                else h_timeout (table s ! n))"
      unfolding f(2) t2 using n h1 by simp
    show ?thesis
      by (rule backed_off_update [OF assms(2) n t'])
         (simp_all add: f(3) hs2 ht old)
  qed
qed

lemma backed_off_body:
  assumes "main_loop_body cfg inp s = Inr (c, s')" "backed_off cfg s"
  shows "backed_off cfg s'"
proof (rule main_loop_body_branches [where P = "backed_off cfg", OF _ _ _ _ _ _ _ assms(1)])
  fix r s1
  assume "timeout_event cfg inp (storage (ev_remove (event_queue_timeout s) r) r)
          (s\<lparr>event_queue_timeout := ev_remove (event_queue_timeout s) r\<rparr>) = Inr s1"
  moreover have "backed_off cfg (s\<lparr>event_queue_timeout := ev_remove (event_queue_timeout s) r\<rparr>)"
    using assms(2) by (simp add: backed_off_def)
  ultimately show "backed_off cfg s1" by (rule backed_off_timeout_event)
next
  fix s1
  assume pe: "ping_event cfg inp s = Inr s1"
  show "backed_off cfg s1"
  proof (rule ping_event_preserves [where P = "backed_off cfg", OF _ _ assms(2) pe])
    show "\<And>clock res n idx s s'.
        send_ping cfg Ping_event clock res n idx s = Inr s' \<Longrightarrow> backed_off cfg s \<Longrightarrow>
        backed_off cfg s'"
      by (rule backed_off_send)
  qed (simp add: backed_off_def)
next
  show "\<And>pkt s s'. wait_for_reply cfg pkt s = Inr s' \<Longrightarrow> backed_off cfg s \<Longrightarrow> backed_off cfg s'"
    by (rule backed_off_reply)
  show "\<And>s. backed_off cfg s \<Longrightarrow> backed_off cfg (for_hosts stats_reset_interval s)"
    by (rule backed_off_reset)
qed (simp_all add: backed_off_def)

lemma backed_off_run:
  assumes "main_startup cfg clock targets = Inr s0" "main_loop cfg inps s0 = Inr (b, s)"
  shows "backed_off cfg s"
proof -
  have "fresh_state cfg clock s0" using main_startup_fresh [OF assms(1)] by simp
  then have "backed_off cfg s0"
    by (auto simp: fresh_state_def backed_off_def)
  with backed_off_body show ?thesis using assms(2) by (rule main_loop_preserves)
qed

lemma retried_update:
  assumes "retried cfg s" "length (table s') = length (table s)"
    and "\<And>m. \<not> loop_flag cfg \<Longrightarrow> \<not> count_flag cfg \<Longrightarrow> int (retry cfg) + 1 < 2 ^ 32 \<Longrightarrow>
           accepted_replies m (history s') = 0 \<Longrightarrow> send_errors m (history s') = 0 \<Longrightarrow>
           timeouts_handled m (history s') \<le> int (retry cfg) \<Longrightarrow> m < length (table s) \<Longrightarrow>
           accepted_replies m (history s) = 0 \<and> send_errors m (history s) = 0
         \<and> timeouts_handled m (history s) \<le> int (retry cfg)
         \<and> int (retries_since_reply m (history s')) - int (retries_since_reply m (history s)) =
             timeouts_handled m (history s') - timeouts_handled m (history s)"
  shows "retried cfg s'"
  unfolding retried_def
proof (intro allI impI)
  fix m
  assume m': "m < length (table s')"
    and pr: "\<not> loop_flag cfg \<and> \<not> count_flag cfg \<and> int (retry cfg) + 1 < 2 ^ 32
        \<and> accepted_replies m (history s') = 0 \<and> send_errors m (history s') = 0
        \<and> timeouts_handled m (history s') \<le> int (retry cfg)"
  have m: "m < length (table s)" using m' assms(2) by simp
  from assms(3) [of m] pr m have
    o: "accepted_replies m (history s) = 0 \<and> send_errors m (history s) = 0
         \<and> timeouts_handled m (history s) \<le> int (retry cfg)"
    and d: "int (retries_since_reply m (history s')) - int (retries_since_reply m (history s)) =
             timeouts_handled m (history s') - timeouts_handled m (history s)"
    by blast+
  have "int (retries_since_reply m (history s)) = timeouts_handled m (history s)"
    using assms(1) m pr o by (simp add: retried_def)
  then show "int (retries_since_reply m (history s')) = timeouts_handled m (history s')"
    using d by linarith
qed

lemma retried_send:
  assumes "send_ping cfg Ping_event clock res n idx s = Inr s'" "retried cfg s"
  shows "retried cfg s'"
proof -
  from send_ping_Inr [OF assms(1)] obtain h' where
    f: "table s' = (table s)[n := h']"
    "history s' = Send Ping_event n idx (seqmap_next_id (seqmap s)) clock res # history s"
    by blast
  show ?thesis
  proof (rule retried_update [OF assms(2)])
    show "length (table s') = length (table s)" by (simp add: f(1))
  next
    fix m
    assume "accepted_replies m (history s') = 0" "send_errors m (history s') = 0"
      "timeouts_handled m (history s') \<le> int (retry cfg)"
    then show "accepted_replies m (history s) = 0 \<and> send_errors m (history s) = 0
         \<and> timeouts_handled m (history s) \<le> int (retry cfg)
         \<and> int (retries_since_reply m (history s')) - int (retries_since_reply m (history s)) =
             timeouts_handled m (history s') - timeouts_handled m (history s)"
      using counts_nonneg(3) [of m "history s"]
      by (simp add: f(2) accepted_replies_Cons send_errors_Cons timeouts_handled_Cons
          split: if_splits)
  qed
qed

lemma retried_reply:
  assumes "wait_for_reply cfg pkt s = Inr s'" "retried cfg s"
  shows "retried cfg s'"
  using assms(1)
proof (cases rule: wait_for_reply_cases)
  case Dropped
  have "length (table s') = length (table s)" using Dropped by simp
  then show ?thesis using assms(2) Dropped by (simp add: retried_def)
next
  case (Matched n idx seq rtt vd h' v d)
  show ?thesis
  proof (rule retried_update [OF assms(2)])
    show "length (table s') = length (table s)" by (simp add: Matched(6))
  next
    fix m
    assume "accepted_replies m (history s') = 0" "send_errors m (history s') = 0"
      "timeouts_handled m (history s') \<le> int (retry cfg)"
    then show "accepted_replies m (history s) = 0 \<and> send_errors m (history s) = 0
         \<and> timeouts_handled m (history s) \<le> int (retry cfg)
         \<and> int (retries_since_reply m (history s')) - int (retries_since_reply m (history s)) =
             timeouts_handled m (history s') - timeouts_handled m (history s)"
      using counts_nonneg(1) [of m "history s"]
      by (auto simp: Matched(7) accepted_replies_Cons send_errors_Cons timeouts_handled_Cons
          split: if_splits)
  qed
qed

lemma retried_reset:
  assumes "retried cfg s"
  shows "retried cfg (for_hosts stats_reset_interval s)"
  using assms by (simp add: retried_def for_hosts_length for_hosts_frame)

lemma retried_timeout_event:
  assumes "timeout_event cfg inp ev s = Inr s'" "retried cfg s" "counters_conserved s"
  shows "retried cfg s'"
proof -
  from timeout_event_cases [OF assms(1)] obtain n h1 nt where
    n: "n < length (table s)"
    and st: "stats_add cfg (table s ! n) (ping_index ev) False (- 1) (num_timeout s) = Inr (h1, nt)"
    and alt: "let s1 = s\<lparr>table := (table s)[n := h1], num_timeout := nt,
                     history := Timed_out n (ping_index ev) # history s\<rparr>;
             again = (\<not> loop_flag cfg \<and> \<not> count_flag cfg
                      \<and> to_uint32 (num_sent h1) < to_uint32 (int (retry cfg) + 1))
         in (\<not> again \<and> s' = s1) \<or>
            (again \<and>
             send_ping cfg Retry (in_send_clock inp) (in_send_result inp) n (ping_index ev)
               (if backoff_flag cfg
                then s1\<lparr>table := (table s1)[n :=
                         (table s1 ! n)\<lparr>h_timeout := backoff_mul (backoff cfg) (h_timeout h1)\<rparr>]\<rparr>
                else s1) = Inr s')"
    by blast
  define s1 where "s1 = s\<lparr>table := (table s)[n := h1], num_timeout := nt,
                     history := Timed_out n (ping_index ev) # history s\<rparr>"
  define s2 where "s2 = (if backoff_flag cfg
                then s1\<lparr>table := (table s1)[n :=
                         (table s1 ! n)\<lparr>h_timeout := backoff_mul (backoff cfg) (h_timeout h1)\<rparr>]\<rparr>
                else s1)"
  define again where "again \<longleftrightarrow> \<not> loop_flag cfg \<and> \<not> count_flag cfg
                      \<and> to_uint32 (num_sent h1) < to_uint32 (int (retry cfg) + 1)"
  from alt have alt': "(\<not> again \<and> s' = s1) \<or>
      (again \<and>
       send_ping cfg Retry (in_send_clock inp) (in_send_result inp) n (ping_index ev) s2 = Inr s')"
    unfolding s1_def [symmetric] s2_def [symmetric] again_def Let_def by blast
  have sent: "num_sent h1 = to_int32 (accepted_replies n (history s) + timeouts_handled n (history s)
                    + send_errors n (history s) + 1)"
  proof -
    have "num_sent h1 = to_int32 (num_sent (table s ! n) + 1)"
      using stats_add_Inr [OF st] by simp
    also have "num_sent (table s ! n) =
        to_int32 (accepted_replies n (history s) + timeouts_handled n (history s)
                    + send_errors n (history s))"
      using assms(3) n by (simp add: counters_conserved_def)
    finally show ?thesis by (simp only: to_int32_step)
  qed
  have must: again
    if "\<not> loop_flag cfg" "\<not> count_flag cfg" "int (retry cfg) + 1 < 2 ^ 32"
      "accepted_replies n (history s) = 0" "send_errors n (history s) = 0"
      "timeouts_handled n (history s) + 1 \<le> int (retry cfg)"
  proof -
    have "num_sent h1 = to_int32 (timeouts_handled n (history s) + 1)"
      using sent that(4,5) by simp
    then have "to_uint32 (num_sent h1) = to_uint32 (timeouts_handled n (history s) + 1)"
      by (simp only: to_uint32_int32)
    also have "\<dots> = timeouts_handled n (history s) + 1"
      using counts_nonneg(2) [of n "history s"] that(3,6) by (intro to_uint32_id) linarith+
    finally have "to_uint32 (num_sent h1) = timeouts_handled n (history s) + 1" .
    moreover have "to_uint32 (int (retry cfg) + 1) = int (retry cfg) + 1"
      using that(3) by (intro to_uint32_id) simp_all
    ultimately show ?thesis using that(1,2,6) by (simp add: again_def)
  qed
  from alt' show ?thesis
  proof (elim disjE conjE)
    assume na: "\<not> again" and e: "s' = s1"
    show ?thesis
    proof (rule retried_update [OF assms(2)])
      show "length (table s') = length (table s)" by (simp add: e s1_def)
    next
      fix m
      assume pr: "\<not> loop_flag cfg" "\<not> count_flag cfg" "int (retry cfg) + 1 < 2 ^ 32"
        "accepted_replies m (history s') = 0" "send_errors m (history s') = 0"
        "timeouts_handled m (history s') \<le> int (retry cfg)"
      have hs: "history s' = Timed_out n (ping_index ev) # history s" by (simp add: e s1_def)
      have "m \<noteq> n"
      proof
        assume "m = n"
        then have "again"
          using pr unfolding hs
          by (intro must) (simp_all add: accepted_replies_Cons send_errors_Cons timeouts_handled_Cons)
        then show False using na by simp
      qed
      then show "accepted_replies m (history s) = 0 \<and> send_errors m (history s) = 0
         \<and> timeouts_handled m (history s) \<le> int (retry cfg)
         \<and> int (retries_since_reply m (history s')) - int (retries_since_reply m (history s)) =
             timeouts_handled m (history s') - timeouts_handled m (history s)"
        using pr(4,5,6) unfolding hs
        by (simp add: accepted_replies_Cons send_errors_Cons timeouts_handled_Cons)
    qed
  next
    assume sp: "send_ping cfg Retry (in_send_clock inp) (in_send_result inp) n (ping_index ev) s2
                  = Inr s'"
    have hs2: "history s2 = Timed_out n (ping_index ev) # history s"
      by (simp add: s2_def s1_def)
    have l2: "length (table s2) = length (table s)" by (simp add: s2_def s1_def)
    from send_ping_Inr [OF sp] obtain h' where
      f: "table s' = (table s2)[n := h']"
      "history s' = Send Retry n (ping_index ev) (seqmap_next_id (seqmap s2))
                      (in_send_clock inp) (in_send_result inp) # history s2"
      by blast
    show ?thesis
    proof (rule retried_update [OF assms(2)])
      show "length (table s') = length (table s)" by (simp add: f(1) l2)
    next
      fix m
      assume "accepted_replies m (history s') = 0" "send_errors m (history s') = 0"
        "timeouts_handled m (history s') \<le> int (retry cfg)"
      then show "accepted_replies m (history s) = 0 \<and> send_errors m (history s) = 0
         \<and> timeouts_handled m (history s) \<le> int (retry cfg)
         \<and> int (retries_since_reply m (history s')) - int (retries_since_reply m (history s)) =
             timeouts_handled m (history s') - timeouts_handled m (history s)"
        using counts_nonneg(3) [of m "history s"]
        by (simp add: f(2) hs2 accepted_replies_Cons send_errors_Cons timeouts_handled_Cons
            split: if_splits)
    qed
  qed
qed

lemma retried_body:
  assumes "main_loop_body cfg inp s = Inr (c, s')" "retried cfg s" "counters_conserved s"
  shows "retried cfg s'"
proof (rule main_loop_body_branches [where P = "retried cfg", OF _ _ _ _ _ _ _ assms(1)])
  fix r s1
  assume "timeout_event cfg inp (storage (ev_remove (event_queue_timeout s) r) r)
          (s\<lparr>event_queue_timeout := ev_remove (event_queue_timeout s) r\<rparr>) = Inr s1"
  moreover have "retried cfg (s\<lparr>event_queue_timeout := ev_remove (event_queue_timeout s) r\<rparr>)"
    using assms(2) by (simp add: retried_def)
  moreover have "counters_conserved (s\<lparr>event_queue_timeout := ev_remove (event_queue_timeout s) r\<rparr>)"
    using assms(3) by (simp add: counters_conserved_def)
  ultimately show "retried cfg s1" by (rule retried_timeout_event)
next
  fix s1
  assume pe: "ping_event cfg inp s = Inr s1"
  show "retried cfg s1"
  proof (rule ping_event_preserves [where P = "retried cfg", OF _ _ assms(2) pe])
    show "\<And>clock res n idx s s'.
        send_ping cfg Ping_event clock res n idx s = Inr s' \<Longrightarrow> retried cfg s \<Longrightarrow> retried cfg s'"
      by (rule retried_send)
  qed (simp add: retried_def)
next
  show "\<And>pkt s s'. wait_for_reply cfg pkt s = Inr s' \<Longrightarrow> retried cfg s \<Longrightarrow> retried cfg s'"
    by (rule retried_reply)
  show "\<And>s. retried cfg s \<Longrightarrow> retried cfg (for_hosts stats_reset_interval s)"
    by (rule retried_reset)
qed (simp_all add: retried_def)

lemma retried_run:
  assumes "main_startup cfg clock targets = Inr s0" "main_loop cfg inps s0 = Inr (b, s)"
  shows "retried cfg s"
proof -
  have fr: "fresh_state cfg clock s0" using main_startup_fresh [OF assms(1)] by simp
  then have "retried cfg s0"
    by (auto simp: fresh_state_def retried_def timeouts_handled_def)
  moreover have "counters_conserved s0"
    using fr by (auto simp: fresh_state_def counters_conserved_def timeouts_handled_def
        send_errors_def accepted_replies_def to_int32_def)
  ultimately have i: "counters_conserved s0 \<and> retried cfg s0" by simp
  have "counters_conserved s \<and> retried cfg s"
  proof (rule main_loop_preserves [where P = "\<lambda>s. counters_conserved s \<and> retried cfg s",
        OF _ i assms(2)])
    fix inp s c s'
    assume "main_loop_body cfg inp s = Inr (c, s')" "counters_conserved s \<and> retried cfg s"
    then show "counters_conserved s' \<and> retried cfg s'"
      using counters_conserved_body retried_body by blast
  qed
  then show ?thesis by simp
qed

text \<open>
  C6 as stated fails: \<open>h->timeout *= backoff\<close> is computed in \<open>float\<close>.  Without
  options (timeout 500 ms, backoff 1.5, 3 retries) and with a target that never
  answers, the timeout of the host is 1124999936 ns after two timeouts, not
  \<open>500000000 * 1.5 ^ 2 = 1125000000\<close>.
\<close>

theorem backoff_counterexample:
  "map_sum id (\<lambda>(b, s). (timeouts_handled 0 (history s), map h_timeout (table s)))
     (case main_startup default_config 100000000000 [Addresses [Allocated junk0]] of
        Inl e \<Rightarrow> Inl e
      | Inr s0 \<Rightarrow> main_loop default_config unanswered_inputs s0) =
   Inr (2, [1124999936])
   \<and> spec_backoff_timeout (timeout default_config) (backoff default_config) 2 = 1125000000
   \<and> main_config example_constants [] = Inr default_config
   \<and> \<not> loop_flag default_config \<and> \<not> count_flag default_config \<and> backoff_flag default_config
   \<and> 2 \<le> retry default_config"
proof -
  have "map_sum id (\<lambda>(b, s). (timeouts_handled 0 (history s), map h_timeout (table s)))
     (case main_startup default_config 100000000000 [Addresses [Allocated junk0]] of
        Inl e \<Rightarrow> Inl e
      | Inr s0 \<Rightarrow> main_loop default_config unanswered_inputs s0) =
   Inr (2, [1124999936])"
    by (simp add: eval_defs float_defs default_config_def unanswered_inputs_def
        timeouts_handled_def)
  moreover have
    "spec_backoff_timeout (timeout default_config) (backoff default_config) 2 = 1125000000"
    by (simp add: spec_backoff_timeout_def float_value_def default_config_def power2_eq_square)
  moreover have "\<not> loop_flag default_config \<and> \<not> count_flag default_config
      \<and> backoff_flag default_config \<and> 2 \<le> retry default_config"
    by (simp add: default_config_def)
  ultimately show ?thesis using example_configs(1) by simp
qed

text \<open>
  C6, amended: after \<open>main_startup\<close> and a run of \<open>main_loop\<close>, the timeout of a host
  is the configured timeout if the backoff is off, and otherwise the configured
  timeout multiplied by the backoff factor once for every retry sent to the host
  since the last reply accepted for it, each product computed in \<open>float\<close> and
  converted back to \<open>int64_t\<close>; so an accepted reply resets it to the configured
  timeout.  In one-shot mode a host that has had \<open>k\<close> timeouts, with \<open>k\<close> no more than
  \<open>retry\<close>, and neither an accepted reply nor a failed send has been sent \<open>k\<close>
  retries, so that its timeout has been multiplied \<open>k\<close> times.
\<close>

theorem timeout_backoff:
  assumes "main_startup cfg clock targets = Inr s0"
    and "main_loop cfg inps s0 = Inr (b, s)"
    and "n < length (table s)"
  shows "h_timeout (table s ! n) =
           (if backoff_flag cfg
            then (backoff_mul (backoff cfg) ^^ retries_since_reply n (history s)) (timeout cfg)
            else timeout cfg)
       \<and> (\<not> loop_flag cfg \<and> \<not> count_flag cfg \<and> int (retry cfg) + 1 < 2 ^ 32
          \<and> accepted_replies n (history s) = 0 \<and> send_errors n (history s) = 0
          \<and> timeouts_handled n (history s) \<le> int (retry cfg) \<longrightarrow>
          int (retries_since_reply n (history s)) = timeouts_handled n (history s))"
  using backed_off_run [OF assms(1,2)] retried_run [OF assms(1,2)] assms(3)
  unfolding backed_off_def retried_def by blast

theorem timeout_backoff_witness:
  "(\<exists>s0 s. main_startup default_config 100000000000 [Addresses [Allocated junk0]] = Inr s0
      \<and> main_loop default_config unanswered_inputs s0 = Inr (False, s)
      \<and> 0 < length (table s)
      \<and> \<not> loop_flag default_config \<and> \<not> count_flag default_config
      \<and> backoff_flag default_config
      \<and> int (retry default_config) + 1 < 2 ^ 32
      \<and> accepted_replies 0 (history s) = 0 \<and> send_errors 0 (history s) = 0
      \<and> timeouts_handled 0 (history s) = 2 \<and> 2 \<le> int (retry default_config)
      \<and> retries_since_reply 0 (history s) = 2
      \<and> h_timeout (table s ! 0) =
          (backoff_mul (backoff default_config) ^^ 2) (timeout default_config)
      \<and> h_timeout (table s ! 0) = 1124999936)
 \<and> (\<exists>s0 s. main_startup default_config 100000000000 [Addresses [Allocated junk0]] = Inr s0
      \<and> main_loop default_config answered_inputs s0 = Inr (True, s)
      \<and> 0 < length (table s)
      \<and> backoff_flag default_config
      \<and> retries_since_reply 0 (history s) = 0
      \<and> h_timeout (table s ! 0) = timeout default_config)"
proof
  from unanswered_run obtain s0 s where
    r: "main_startup default_config 100000000000 [Addresses [Allocated junk0]] = Inr s0"
       "main_loop default_config unanswered_inputs s0 = Inr (False, s)"
    and f: "(history s, map num_sent (table s), map h_timeout (table s)) =
       ([Send Retry 0 0 2 101250000000 Send_ok, Timed_out 0 0,
         Send Retry 0 0 1 100500000000 Send_ok, Timed_out 0 0,
         Send Ping_event 0 0 0 100000000000 Send_ok],
        [2], [1124999936])"
    by (elim exE conjE)
  have n: "0 < length (table s)" using f by auto
  have t: "\<exists>h. table s = [h] \<and> h_timeout h = 1124999936" using f by auto
  have c: "\<not> loop_flag default_config" "\<not> count_flag default_config"
    "backoff_flag default_config" "int (retry default_config) + 1 < 2 ^ 32"
    "2 \<le> int (retry default_config)"
    by (simp_all add: default_config_def)
  have h: "accepted_replies 0 (history s) = 0" "send_errors 0 (history s) = 0"
    "timeouts_handled 0 (history s) = 2" "retries_since_reply 0 (history s) = 2"
    using f by (simp_all add: accepted_replies_def send_errors_def timeouts_handled_def)
  from timeout_backoff [OF r n]
  show "\<exists>s0 s. main_startup default_config 100000000000 [Addresses [Allocated junk0]] = Inr s0
      \<and> main_loop default_config unanswered_inputs s0 = Inr (False, s)
      \<and> 0 < length (table s)
      \<and> \<not> loop_flag default_config \<and> \<not> count_flag default_config
      \<and> backoff_flag default_config
      \<and> int (retry default_config) + 1 < 2 ^ 32
      \<and> accepted_replies 0 (history s) = 0 \<and> send_errors 0 (history s) = 0
      \<and> timeouts_handled 0 (history s) = 2 \<and> 2 \<le> int (retry default_config)
      \<and> retries_since_reply 0 (history s) = 2
      \<and> h_timeout (table s ! 0) =
          (backoff_mul (backoff default_config) ^^ 2) (timeout default_config)
      \<and> h_timeout (table s ! 0) = 1124999936"
    using r n c h t by (auto simp: numeral_2_eq_2)
next
  from answered_run obtain s0 s where
    r: "main_startup default_config 100000000000 [Addresses [Allocated junk0]] = Inr s0"
       "main_loop default_config answered_inputs s0 = Inr (True, s)"
    and f: "(history s, map h_timeout (table s)) =
       ([Reply 0 0 1 100000000 Accepted, Send Retry 0 0 1 100500000000 Send_ok, Timed_out 0 0,
         Send Ping_event 0 0 0 100000000000 Send_ok],
        [500000000])"
    by (elim exE conjE)
  have n: "0 < length (table s)" using f by auto
  have c: "backoff_flag default_config" by (simp add: default_config_def)
  have h: "retries_since_reply 0 (history s) = 0" using f by simp
  from timeout_backoff [OF r n]
  show "\<exists>s0 s. main_startup default_config 100000000000 [Addresses [Allocated junk0]] = Inr s0
      \<and> main_loop default_config answered_inputs s0 = Inr (True, s)
      \<and> 0 < length (table s)
      \<and> backoff_flag default_config
      \<and> retries_since_reply 0 (history s) = 0
      \<and> h_timeout (table s ! 0) = timeout default_config"
    using r n c h by auto
qed

end
